(* ===== verification/Prelude.thy ===== *)
theory Prelude
  imports Main "HOL-Library.Word"
begin

text \<open>
  Shared vocabulary of the development: the machine integers of the C++ code, the ways an
  operation can end other than by returning, sequencing of fallible operations, and the
  lemmas on words, rotated lists and maps that several components use.
\<close>

unbundle bit_operations_syntax

section \<open>Machine integers\<close>

text \<open>
  The library is built for Linux on x86-64: \<open>size_t\<close>, \<open>uint64_t\<close> and every object pointer
  are 64 bits wide, \<open>uint16_t\<close> and \<open>uint8_t\<close> are 16 and 8. The null pointer is the word 0.
\<close>

type_synonym u64 = "64 word"
type_synonym u32 = "32 word"
type_synonym u16 = "16 word"
type_synonym u8 = "8 word"
type_synonym addr = "64 word"

abbreviation (input) nullptr :: addr where
  "nullptr \<equiv> 0"

section \<open>Abnormal ends\<close>

text \<open>
  \<open>AssertFailed\<close> is a failing \<open>assert\<close>, \<open>BadAlloc\<close> the exception of \<open>operator new\<close>,
  \<open>SystemError\<close> the exception \<open>std::system_error\<close> with its error number, and \<open>BadDeref\<close>
  an access through a pointer to no live object, \<open>BadIndex\<close> one past the end of an array and
  \<open>DivideByZero\<close> a remainder by zero, which are undefined behaviour in C++. \<open>Terminated\<close> is an
  exception that leaves a destructor and \<open>FatalExit\<close> the end of the process by \<open>NI_FATAL\<close>, with
  the text it prints;
  \<open>LoggerNotFound\<close> is the exception of that name, with its message.
  \<open>OutOfFuel\<close> ends a loop model whose bound was reached; every theorem about such a loop
  gives a bound for which it does not occur.
\<close>

datatype err =
    AssertFailed
  | BadAlloc
  | SystemError int
  | BadDeref addr
  | BadIndex u64
  | DivideByZero
  | Terminated
  | FatalExit string
  | LoggerNotFound string
  | OutOfFuel

type_synonym 'a result = "err + 'a"

definition bindE :: "'a result \<Rightarrow> ('a \<Rightarrow> 'b result) \<Rightarrow> 'b result" where
  "bindE m f = (case m of Inl e \<Rightarrow> Inl e | Inr x \<Rightarrow> f x)"

definition assertE :: "bool \<Rightarrow> unit result" where
  "assertE b = (if b then Inr () else Inl AssertFailed)"

lemma bindE_simps [simp]:
  "bindE (Inl e) f = Inl e"
  "bindE (Inr x) f = f x"
  by (simp_all add: bindE_def)

lemma bindE_cong [fundef_cong]:
  "m = m' \<Longrightarrow> (\<And>x. m' = Inr x \<Longrightarrow> f x = f' x) \<Longrightarrow> bindE m f = bindE m' f'"
  by (cases m') simp_all

lemma bindE_Inr_iff: "bindE m f = Inr y \<longleftrightarrow> (\<exists>x. m = Inr x \<and> f x = Inr y)"
  by (cases m) simp_all

lemma assertE_simps [simp]:
  "assertE True = Inr ()"
  "assertE False = Inl AssertFailed"
  "assertE b = Inr u \<longleftrightarrow> b"
  by (simp_all add: assertE_def)

section \<open>Words\<close>

lemma take_bit_self_iff: "take_bit n (w :: 'a::len word) = w \<longleftrightarrow> (\<forall>i. bit w i \<longrightarrow> i < n)"
  by (auto simp: bit_eq_iff bit_take_bit_iff dest: bit_imp_le_length)

lemma take_bit_self_unat_iff:
  "take_bit n (w :: 'a::len word) = w \<longleftrightarrow> unat w < 2 ^ n"
  by (metis take_bit_nat_eq_self_iff unsigned_take_bit_eq unsigned_word_eqI)

lemma and_mask_take_bit: "(w :: 'a::len word) AND mask n = take_bit n w"
  by (simp add: take_bit_eq_mask)

lemma and_eq_self_iff: "(w :: 'a::len word) AND m = w \<longleftrightarrow> (\<forall>i. bit w i \<longrightarrow> bit m i)"
  by (metis bit_and_iff bit_word_eqI)

lemma push_bit_one_minus_one: "push_bit n 1 - 1 = (mask n :: 'a::len word)"
  by (simp add: mask_eq_decr_exp push_bit_eq_mult)

lemma unat_and_mask: "unat ((w :: 'a::len word) AND mask n) = unat w mod 2 ^ n"
  by (simp add: and_mask_take_bit unsigned_take_bit_eq flip: take_bit_eq_mod)

lemma unat_bound: "unat (w :: 'a::len word) < 2 ^ LENGTH('a)"
  by (rule unsigned_less)

lemma unat_Suc: "unat (w :: 'a::len word) + 1 < 2 ^ LENGTH('a) \<Longrightarrow> unat (w + 1) = unat w + 1"
  by (simp add: unat_word_ariths)

section \<open>Rotated lists\<close>

text \<open>
  A ring of slots read from position \<open>r\<close> on is \<open>rotate r\<close> of its slots; updating the slot
  \<open>i\<close> places behind the read position updates place \<open>i\<close> of the rotated list.
\<close>

lemma mod_add_cancel_less:
  assumes "i < n" "j < n"
  shows "(r + i) mod n = (r + j) mod n \<longleftrightarrow> i = (j::nat)"
proof -
  have aux: "i = j" if "(r + i) mod n = (r + j) mod n" "i \<le> j" "j < n" for i j
  proof -
    from that have "n dvd (r + j) - (r + i)"
      using mod_eq_dvd_iff_nat [of "r + i" "r + j" n] by simp
    with that show ?thesis by (auto dest: dvd_imp_le)
  qed
  show ?thesis using aux [of i j] aux [of j i] assms by (metis nat_le_linear)
qed

lemma rotate_list_update:
  assumes "i < length b"
  shows "rotate r (b[(r + i) mod length b := x]) = (rotate r b)[i := x]"
proof (rule nth_equalityI)
  fix j
  assume "j < length (rotate r (b[(r + i) mod length b := x]))"
  then have j: "j < length b" by simp
  have "(r + i) mod length b = (r + j) mod length b \<longleftrightarrow> i = j"
    using assms j by (rule mod_add_cancel_less)
  moreover have "(r + i) mod length b < length b" "(r + j) mod length b < length b"
    using assms by (simp_all add: mod_less_divisor [OF le_less_trans [OF le0 assms]])
  ultimately show "rotate r (b[(r + i) mod length b := x]) ! j = (rotate r b)[i := x] ! j"
    using assms j by (auto simp: nth_rotate nth_list_update)
qed simp

end
