(* ===== verification/Tagged_Ptr.thy ===== *)
theory Tagged_Ptr
  imports Prelude
begin

text \<open>
  \<^verbatim>\<open>include/ni/tagged_ptr.hh\<close>: a pointer and a tag packed into one 64-bit word (class
  \<open>TaggedPtr\<close>), the variant with a second tag in the alignment bits (class \<open>DoubleTagPtr\<close>),
  and the atomic cell that holds either (class \<open>AtomicTaggedPtr\<close>). Pointers are words of type
  \<open>addr\<close>; a constructor whose body asserts returns a \<open>result\<close>.
\<close>

section \<open>TaggedPtr\<close>

record tagged_ptr =
  raw_value :: u64

definition VALUE_BITS :: nat where
  "VALUE_BITS = 48"

definition VALUE_MASK :: u64 where
  "VALUE_MASK = push_bit VALUE_BITS 1 - 1"

definition TAG_MASK :: u64 where
  "TAG_MASK = NOT VALUE_MASK"

definition tp_value :: "tagged_ptr \<Rightarrow> addr" where
  "tp_value p = raw_value p AND VALUE_MASK"

definition tp_tag :: "tagged_ptr \<Rightarrow> u16" where
  "tp_tag p = ucast (drop_bit VALUE_BITS (raw_value p))"

definition tp_default :: tagged_ptr where
  "tp_default = \<lparr>raw_value = 0\<rparr>"

definition tp_of_raw :: "u64 \<Rightarrow> tagged_ptr" where
  "tp_of_raw raw = \<lparr>raw_value = raw\<rparr>"

definition tp_of_value :: "addr \<Rightarrow> tagged_ptr result" where
  "tp_of_value v =
     (let p = \<lparr>raw_value = v\<rparr> in bindE (assertE (tp_value p = v)) (\<lambda>_. Inr p))"

definition tp_make :: "addr \<Rightarrow> u16 \<Rightarrow> tagged_ptr result" where
  "tp_make v t =
     (let p = \<lparr>raw_value = v OR push_bit VALUE_BITS (ucast t)\<rparr> in
      bindE (assertE (tp_value p = v \<and> tp_tag p = t)) (\<lambda>_. Inr p))"

definition tp_set_value :: "tagged_ptr \<Rightarrow> addr \<Rightarrow> tagged_ptr" where
  "tp_set_value p v = p\<lparr>raw_value := v OR (raw_value p AND TAG_MASK)\<rparr>"

definition tp_set_tag :: "tagged_ptr \<Rightarrow> u16 \<Rightarrow> tagged_ptr" where
  "tp_set_tag p t =
     p\<lparr>raw_value := (raw_value p AND VALUE_MASK) OR push_bit VALUE_BITS (ucast t)\<rparr>"

definition tp_clear_tag :: "tagged_ptr \<Rightarrow> tagged_ptr" where
  "tp_clear_tag p = p\<lparr>raw_value := raw_value p AND VALUE_MASK\<rparr>"

definition tp_eq :: "tagged_ptr \<Rightarrow> tagged_ptr \<Rightarrow> bool" where
  "tp_eq p q = (raw_value p = raw_value q)"

definition tp_neq :: "tagged_ptr \<Rightarrow> tagged_ptr \<Rightarrow> bool" where
  "tp_neq p q = (\<not> tp_eq p q)"

subsection \<open>Bit-level lemmas\<close>

lemma VALUE_MASK_mask: "VALUE_MASK = mask 48"
  unfolding VALUE_MASK_def VALUE_BITS_def by (rule push_bit_one_minus_one)

lemma tp_value_take_bit: "tp_value p = take_bit 48 (raw_value p)"
  by (simp add: tp_value_def VALUE_MASK_mask and_mask_take_bit)

lemma tp_tag_bit: "bit (tp_tag p) i \<longleftrightarrow> i < 16 \<and> bit (raw_value p) (48 + i)"
  by (auto simp: tp_tag_def VALUE_BITS_def bit_simps)

lemma tp_eqI: "tp_value p = tp_value q \<Longrightarrow> tp_tag p = tp_tag q \<Longrightarrow> p = (q :: tagged_ptr)"
proof -
  assume v: "tp_value p = tp_value q" and t: "tp_tag p = tp_tag q"
  have "bit (raw_value p) i = bit (raw_value q) i" if i: "i < 64" for i
  proof (cases "i < 48")
    case True
    then show ?thesis
      using arg_cong [OF v, of "\<lambda>w. bit w i"] by (simp add: tp_value_take_bit bit_take_bit_iff)
  next
    case False
    then show ?thesis
      using arg_cong [OF t, of "\<lambda>w. bit w (i - 48)"] i by (auto simp: tp_tag_bit)
  qed
  then have "raw_value p = raw_value q"
    by (auto intro: bit_word_eqI)
  then show ?thesis by simp
qed

lemma tp_pack_value:
  "tp_value \<lparr>raw_value = v OR push_bit VALUE_BITS (ucast (t :: u16))\<rparr> = take_bit 48 v"
  by (rule bit_word_eqI) (auto simp: tp_value_take_bit VALUE_BITS_def bit_simps)

lemma tp_pack_tag:
  "take_bit 48 v = v \<Longrightarrow>
   tp_tag \<lparr>raw_value = v OR push_bit VALUE_BITS (ucast (t :: u16))\<rparr> = t"
  by (rule bit_word_eqI) (auto simp: tp_tag_bit VALUE_BITS_def bit_simps take_bit_self_iff)

lemma tp_value_fits [simp]: "take_bit 48 (tp_value p) = tp_value p"
  by (simp add: tp_value_take_bit)

lemma tp_of_raw_simps [simp]: "raw_value (tp_of_raw r) = r" "tp_of_raw (raw_value p) = p"
  by (simp_all add: tp_of_raw_def)

text \<open>
  The constructor returns exactly when the pointer fits into 48 bits, and what it returns is
  determined by the value and the tag read back.
\<close>

lemma tp_make_Inr_iff:
  "tp_make v t = Inr p \<longleftrightarrow> take_bit 48 v = v \<and> tp_value p = v \<and> tp_tag p = t"
proof
  assume "tp_make v t = Inr p"
  then show "take_bit 48 v = v \<and> tp_value p = v \<and> tp_tag p = t"
    by (auto simp: tp_make_def Let_def bindE_Inr_iff tp_pack_value)
next
  assume h: "take_bit 48 v = v \<and> tp_value p = v \<and> tp_tag p = t"
  let ?q = "\<lparr>raw_value = v OR push_bit VALUE_BITS (ucast t)\<rparr>"
  have q: "tp_value ?q = v" "tp_tag ?q = t"
    using h by (simp_all add: tp_pack_value tp_pack_tag)
  then have "?q = p"
    using h by (intro tp_eqI) simp_all
  then show "tp_make v t = Inr p"
    using q by (simp add: tp_make_def Let_def)
qed

definition tp_pack :: "addr \<Rightarrow> u16 \<Rightarrow> tagged_ptr" where
  "tp_pack v t = \<lparr>raw_value = v OR push_bit VALUE_BITS (ucast t)\<rparr>"

lemma tp_pack_simps [simp]:
  "tp_value (tp_pack v t) = take_bit 48 v"
  "take_bit 48 v = v \<Longrightarrow> tp_tag (tp_pack v t) = t"
  by (simp_all add: tp_pack_def tp_pack_value tp_pack_tag)

lemma tp_make_fits [simp]: "take_bit 48 v = v \<Longrightarrow> tp_make v t = Inr (tp_pack v t)"
  by (simp add: tp_make_Inr_iff)

lemma tp_pack_value_tag [simp]: "tp_pack (tp_value p) (tp_tag p) = p"
  by (rule tp_eqI) simp_all

lemma tp_eq_iff [simp]: "tp_eq p q \<longleftrightarrow> p = (q :: tagged_ptr)"
  by (auto simp: tp_eq_def)

lemma tp_neq_iff [simp]: "tp_neq p q \<longleftrightarrow> p \<noteq> (q :: tagged_ptr)"
  by (simp add: tp_neq_def)

lemma tp_set_tag_simps [simp]:
  "tp_value (tp_set_tag p t) = tp_value p"
  "tp_tag (tp_set_tag p t) = t"
  by (rule bit_word_eqI; auto simp: tp_set_tag_def tp_value_take_bit tp_tag_bit VALUE_MASK_mask
      VALUE_BITS_def bit_simps)+

lemma tp_clear_tag_simps [simp]:
  "tp_value (tp_clear_tag p) = tp_value p"
  "tp_tag (tp_clear_tag p) = 0"
  by (rule bit_word_eqI; auto simp: tp_clear_tag_def tp_value_take_bit tp_tag_bit
      VALUE_MASK_mask bit_simps)+

lemma tp_set_value_value [simp]: "tp_value (tp_set_value p v) = take_bit 48 v"
  by (rule bit_word_eqI)
    (auto simp: tp_set_value_def tp_value_take_bit TAG_MASK_def VALUE_MASK_mask bit_simps)

lemma tp_set_value_tag:
  "tp_tag (tp_set_value p v) = tp_tag p OR ucast (drop_bit 48 v)"
  by (rule bit_word_eqI)
    (auto simp: tp_set_value_def tp_tag_bit TAG_MASK_def VALUE_MASK_mask bit_simps)

lemma tp_of_value_Inr_iff:
  "tp_of_value v = Inr p \<longleftrightarrow> take_bit 48 v = v \<and> tp_value p = v \<and> tp_tag p = 0"
proof -
  have "tp_tag \<lparr>raw_value = v\<rparr> = 0" if "take_bit 48 v = v"
    using that by (intro bit_word_eqI) (auto simp: tp_tag_bit take_bit_self_iff)
  then show ?thesis
    by (auto simp: tp_of_value_def Let_def bindE_Inr_iff tp_value_take_bit intro!: tp_eqI)
qed

section \<open>DoubleTagPtr\<close>

text \<open>
  \<open>DoubleTagPtr<T, T2, alignment>\<close>: the template parameters \<open>T2\<close> (its width \<open>'t\<close> and whether
  it is signed) and \<open>alignment\<close> are arguments here. \<open>ctz\<close> is \<open>__builtin_ctz\<close>, which takes
  an \<open>unsigned\<close> and is undefined at 0. Converting a signed \<open>Tag2\<close> to the 64-bit word it is
  or-ed into sign-extends it.
\<close>

record double_tag_ptr =
  dtp_raw_value :: u64

fun ctz :: "nat \<Rightarrow> nat" where
  "ctz n = (if n = 0 \<or> odd n then 0 else Suc (ctz (n div 2)))"

declare ctz.simps [simp del]

definition TAG2_BITS :: "nat \<Rightarrow> nat" where
  "TAG2_BITS alignment = min VALUE_BITS (ctz (alignment mod 2 ^ 32))"

definition TAG2_MASK :: "nat \<Rightarrow> u64" where
  "TAG2_MASK alignment = push_bit (TAG2_BITS alignment) 1 - 1"

definition DTP_VALUE_MASK :: "nat \<Rightarrow> u64" where
  "DTP_VALUE_MASK alignment = (push_bit VALUE_BITS 1 - 1) AND NOT (TAG2_MASK alignment)"

definition tag2_to_raw :: "bool \<Rightarrow> 't::len word \<Rightarrow> u64" where
  "tag2_to_raw is_signed t = (if is_signed then scast t else ucast t)"

definition dtp_value :: "nat \<Rightarrow> double_tag_ptr \<Rightarrow> addr" where
  "dtp_value alignment p = dtp_raw_value p AND DTP_VALUE_MASK alignment"

definition dtp_tag1 :: "double_tag_ptr \<Rightarrow> u16" where
  "dtp_tag1 p = ucast (drop_bit VALUE_BITS (dtp_raw_value p))"

definition dtp_tag2 :: "nat \<Rightarrow> double_tag_ptr \<Rightarrow> 't::len word" where
  "dtp_tag2 alignment p = ucast (dtp_raw_value p AND TAG2_MASK alignment)"

definition dtp_default :: double_tag_ptr where
  "dtp_default = \<lparr>dtp_raw_value = 0\<rparr>"

definition dtp_of_raw :: "u64 \<Rightarrow> double_tag_ptr" where
  "dtp_of_raw raw = \<lparr>dtp_raw_value = raw\<rparr>"

definition dtp_of_value :: "nat \<Rightarrow> addr \<Rightarrow> double_tag_ptr result" where
  "dtp_of_value alignment v =
     (let p = \<lparr>dtp_raw_value = v\<rparr> in
      bindE (assertE (dtp_value alignment p = v)) (\<lambda>_. Inr p))"

definition dtp_make ::
  "nat \<Rightarrow> bool \<Rightarrow> addr \<Rightarrow> u16 \<Rightarrow> 't::len word \<Rightarrow> double_tag_ptr result" where
  "dtp_make alignment is_signed v t1 t2 =
     (let p = \<lparr>dtp_raw_value =
                 v OR push_bit VALUE_BITS (ucast t1) OR tag2_to_raw is_signed t2\<rparr> in
      bindE (assertE (dtp_value alignment p = v \<and> dtp_tag1 p = t1 \<and> dtp_tag2 alignment p = t2))
        (\<lambda>_. Inr p))"

definition dtp_eq :: "double_tag_ptr \<Rightarrow> double_tag_ptr \<Rightarrow> bool" where
  "dtp_eq p q = (dtp_raw_value p = dtp_raw_value q)"

definition dtp_neq :: "double_tag_ptr \<Rightarrow> double_tag_ptr \<Rightarrow> bool" where
  "dtp_neq p q = (\<not> dtp_eq p q)"

lemma TAG2_MASK_mask: "TAG2_MASK al = mask (TAG2_BITS al)"
  unfolding TAG2_MASK_def by (rule push_bit_one_minus_one)

lemma TAG2_BITS_le: "TAG2_BITS al \<le> 48"
  by (simp add: TAG2_BITS_def VALUE_BITS_def)

lemma bit_DTP_VALUE_MASK:
  "bit (DTP_VALUE_MASK al) i \<longleftrightarrow> TAG2_BITS al \<le> i \<and> i < 48"
  unfolding DTP_VALUE_MASK_def TAG2_MASK_mask VALUE_BITS_def push_bit_one_minus_one
  by (auto simp: bit_simps)

lemma bit_dtp_value: "bit (dtp_value al p) i \<longleftrightarrow>
    TAG2_BITS al \<le> i \<and> i < 48 \<and> bit (dtp_raw_value p) i"
  by (auto simp: dtp_value_def bit_DTP_VALUE_MASK bit_and_iff)

lemma bit_dtp_tag1: "bit (dtp_tag1 p) i \<longleftrightarrow> i < 16 \<and> bit (dtp_raw_value p) (48 + i)"
  by (auto simp: dtp_tag1_def VALUE_BITS_def bit_simps)

lemma bit_dtp_tag2: "bit (dtp_tag2 al p :: 't::len word) i \<longleftrightarrow>
    i < LENGTH('t) \<and> i < TAG2_BITS al \<and> bit (dtp_raw_value p) i"
  by (auto simp: dtp_tag2_def TAG2_MASK_mask bit_simps dest: bit_imp_le_length)

text \<open>\<open>aligned48\<close>: the pointer has no bit outside the bits reserved for the value.\<close>

definition aligned48 :: "nat \<Rightarrow> addr \<Rightarrow> bool" where
  "aligned48 al v \<longleftrightarrow> v AND DTP_VALUE_MASK al = v"

lemma aligned48_bit:
  "aligned48 al v \<longleftrightarrow> (\<forall>i. bit v i \<longrightarrow> TAG2_BITS al \<le> i \<and> i < 48)"
  by (simp add: aligned48_def and_eq_self_iff bit_DTP_VALUE_MASK)

lemma dtp_value_aligned [simp]: "aligned48 al (dtp_value al p)"
  by (simp add: aligned48_bit bit_dtp_value)

text \<open>
  With an unsigned \<open>Tag2\<close> the asserting constructor returns exactly for an aligned 48-bit
  pointer and a second tag that fits into the alignment bits.
\<close>

lemma bit_ucast_fits:
  "bit (ucast (t :: 't::len word) :: u64) i \<longleftrightarrow> i < 64 \<and> bit t i"
  by (auto simp: bit_simps)

lemma dtp_pack_reads:
  fixes t2 :: "'t::len word"
  assumes v: "aligned48 al v" and t2: "\<And>i. bit (tag2_to_raw sg t2) i \<Longrightarrow> i < TAG2_BITS al"
    and p: "p = \<lparr>dtp_raw_value = v OR push_bit VALUE_BITS (ucast (t1 :: u16)) OR tag2_to_raw sg t2\<rparr>"
  shows "dtp_value al p = v" "dtp_tag1 p = t1"
    "bit (dtp_tag2 al p :: 't word) i \<longleftrightarrow> i < LENGTH('t) \<and> bit (tag2_to_raw sg t2) i"
proof -
  have raw: "bit (dtp_raw_value p) i \<longleftrightarrow>
      bit v i \<or> (48 \<le> i \<and> i < 64 \<and> bit t1 (i - 48)) \<or> bit (tag2_to_raw sg t2) i" for i
    by (auto simp: p VALUE_BITS_def bit_simps dest: bit_imp_le_length)
  note le = TAG2_BITS_le [of al]
  show "dtp_value al p = v"
    using v le by (intro bit_word_eqI) (auto simp: bit_dtp_value raw aligned48_bit dest: t2)
  show "dtp_tag1 p = t1"
    using v le by (intro bit_word_eqI) (auto simp: bit_dtp_tag1 raw aligned48_bit dest: t2)
  show "bit (dtp_tag2 al p :: 't word) i \<longleftrightarrow> i < LENGTH('t) \<and> bit (tag2_to_raw sg t2) i"
    using v le by (auto simp: bit_dtp_tag2 raw aligned48_bit dest: t2)
qed

lemma dtp_eqI:
  assumes "dtp_value al p = dtp_value al q" "dtp_tag1 p = dtp_tag1 q"
    and "dtp_tag2 al p = (dtp_tag2 al q :: 't::len word)" and "TAG2_BITS al \<le> LENGTH('t)"
  shows "p = q"
proof -
  have "bit (dtp_raw_value p) i = bit (dtp_raw_value q) i" if i: "i < 64" for i
  proof -
    consider "i < TAG2_BITS al" | "TAG2_BITS al \<le> i" "i < 48" | "48 \<le> i" by linarith
    then show ?thesis
    proof cases
      case 1
      then show ?thesis
        using arg_cong [OF assms(3), of "\<lambda>w. bit w i"] assms(4) by (auto simp: bit_dtp_tag2)
    next
      case 2
      then show ?thesis
        using arg_cong [OF assms(1), of "\<lambda>w. bit w i"] by (auto simp: bit_dtp_value)
    next
      case 3
      then show ?thesis
        using arg_cong [OF assms(2), of "\<lambda>w. bit w (i - 48)"] i by (auto simp: bit_dtp_tag1)
    qed
  qed
  then have "dtp_raw_value p = dtp_raw_value q"
    by (auto intro: bit_word_eqI)
  then show ?thesis by simp
qed

section \<open>AtomicTaggedPtr\<close>

text \<open>
  The cell holds the raw word of a tagged pointer, and every operation passes raw words to
  \<open>std::atomic\<close>. Each operation is one indivisible step on the cell, whatever its memory
  order (the development works in sequential consistency). A compare-exchange returns
  whether it succeeded, the new cell and the new value of \<open>expected\<close>, which receives the
  value read when the exchange fails. A weak exchange may fail although the values agree:
  the argument \<open>spurious\<close> says whether it does.
\<close>

record atomic_tagged_ptr =
  m_raw_value :: u64

definition atp_default :: atomic_tagged_ptr where
  "atp_default = \<lparr>m_raw_value = 0\<rparr>"

definition atp_init :: "tagged_ptr \<Rightarrow> atomic_tagged_ptr" where
  "atp_init p = \<lparr>m_raw_value = raw_value p\<rparr>"

definition atp_load :: "atomic_tagged_ptr \<Rightarrow> tagged_ptr" where
  "atp_load a = tp_of_raw (m_raw_value a)"

definition atp_store :: "atomic_tagged_ptr \<Rightarrow> tagged_ptr \<Rightarrow> atomic_tagged_ptr" where
  "atp_store a desired = a\<lparr>m_raw_value := raw_value desired\<rparr>"

definition atp_exchange ::
  "atomic_tagged_ptr \<Rightarrow> tagged_ptr \<Rightarrow> tagged_ptr \<times> atomic_tagged_ptr" where
  "atp_exchange a desired = (tp_of_raw (m_raw_value a), a\<lparr>m_raw_value := raw_value desired\<rparr>)"

definition atp_cas_weak ::
  "bool \<Rightarrow> atomic_tagged_ptr \<Rightarrow> tagged_ptr \<Rightarrow> tagged_ptr \<Rightarrow>
   bool \<times> atomic_tagged_ptr \<times> tagged_ptr" where
  "atp_cas_weak spurious a expected desired =
     (if m_raw_value a = raw_value expected \<and> \<not> spurious
      then (True, a\<lparr>m_raw_value := raw_value desired\<rparr>, expected)
      else (False, a, expected\<lparr>raw_value := m_raw_value a\<rparr>))"

definition atp_cas_strong ::
  "atomic_tagged_ptr \<Rightarrow> tagged_ptr \<Rightarrow> tagged_ptr \<Rightarrow>
   bool \<times> atomic_tagged_ptr \<times> tagged_ptr" where
  "atp_cas_strong a expected desired =
     (if m_raw_value a = raw_value expected
      then (True, a\<lparr>m_raw_value := raw_value desired\<rparr>, expected)
      else (False, a, expected\<lparr>raw_value := m_raw_value a\<rparr>))"

definition atp_eq :: "atomic_tagged_ptr \<Rightarrow> tagged_ptr \<Rightarrow> bool" where
  "atp_eq a other = tp_eq (atp_load a) other"

definition atp_neq :: "atomic_tagged_ptr \<Rightarrow> tagged_ptr \<Rightarrow> bool" where
  "atp_neq a other = (\<not> atp_eq a other)"

lemma atp_eqI: "atp_load a = atp_load b \<Longrightarrow> a = (b :: atomic_tagged_ptr)"
  by (simp add: atp_load_def tp_of_raw_def)

lemma atp_load_simps [simp]:
  "atp_load (atp_init p) = p"
  "atp_load (atp_store a p) = p"
  "atp_load atp_default = tp_default"
  by (simp_all add: atp_load_def atp_init_def atp_store_def tp_of_raw_def atp_default_def
      tp_default_def)

lemma atp_cas_strong_eq:
  "atp_cas_strong a e d =
     (if atp_load a = e then (True, atp_store a d, e) else (False, a, atp_load a))"
  by (auto simp: atp_cas_strong_def atp_load_def atp_store_def tp_of_raw_def)

lemma atp_cas_weak_eq:
  "atp_cas_weak sp a e d =
     (if atp_load a = e \<and> \<not> sp then (True, atp_store a d, e) else (False, a, atp_load a))"
  by (auto simp: atp_cas_weak_def atp_load_def atp_store_def tp_of_raw_def)

lemma tp_default_simps [simp]: "tp_value tp_default = 0" "tp_tag tp_default = 0"
  by (simp_all add: tp_default_def tp_value_def tp_tag_def)

section \<open>Properties\<close>

text \<open>
  C19: The asserting two-argument constructor \<open>TaggedPtr(value, tag)\<close> returns exactly when the
  pointer fits into the 48 value bits; then \<open>value()\<close> and \<open>tag()\<close> read back what was
  packed, and no other object has these two readings.
\<close>

theorem tagged_ptr_roundtrip:
  "tp_make v t = Inr p \<longleftrightarrow> unat v < 2 ^ 48 \<and> tp_value p = v \<and> tp_tag p = t"
  by (simp add: tp_make_Inr_iff take_bit_self_unat_iff)

text \<open>
  \<open>set_tag\<close> and \<open>clear_tag\<close> replace the tag and keep the pointer; \<open>set_value\<close>
  installs the low 48 bits of the new pointer, and the bits above them leak into the tag, so
  that the tag is kept exactly when the new pointer adds no bit to it.
\<close>

lemma tagged_ptr_setters:
  "tp_value (tp_set_tag p t) = tp_value p \<and> tp_tag (tp_set_tag p t) = t \<and>
   tp_value (tp_clear_tag p) = tp_value p \<and> tp_tag (tp_clear_tag p) = 0 \<and>
   tp_value (tp_set_value p v) = take_bit 48 v \<and>
   tp_tag (tp_set_value p v) = tp_tag p OR ucast (drop_bit 48 v)"
  by (simp add: tp_set_value_tag)



text \<open>
  C34: The tag as an ABA counter: after the tag of a cell was bumped \<open>n\<close> times and the
  pointer is the old one again, a strong compare-exchange against the old snapshot fails
  unless \<open>n\<close> is a multiple of \<open>2 ^ 16\<close>.
\<close>

theorem tagged_cas_aba:
  "fst (atp_cas_strong (atp_init (tp_set_tag p (tp_tag p + of_nat n))) p d) \<longleftrightarrow> 65536 dvd n"
proof -
  have "tp_set_tag p (tp_tag p + of_nat n) = p \<longleftrightarrow> (of_nat n :: u16) = 0"
    by (metis add_cancel_left_right tp_eqI tp_set_tag_simps)
  then show ?thesis
    by (simp add: atp_cas_strong_eq word_of_nat_eq_0_iff)
qed

end
