(* ===== verification/Queue_Interface.thy ===== *)
theory Queue_Interface
  imports Prelude
begin

text \<open>
  The contract of a bounded FIFO queue with a reserved empty value, as the single-producer
  single-consumer ring buffer of the library promises it and as its clients (the node and
  buffer caches, the message channels of the logger) rely on it. Operations are compared
  with a specification over plain lists through the observations a caller makes.
\<close>

section \<open>Operations, observations and their list specification\<close>

datatype 'e queue_op = Push 'e | Pop

datatype 'e queue_obs = Pushed bool | Popped 'e

fun queue_run ::
  "('e \<Rightarrow> 'q \<Rightarrow> bool \<times> 'q) \<Rightarrow> ('q \<Rightarrow> 'e \<times> 'q) \<Rightarrow> 'e queue_op list \<Rightarrow> 'q \<Rightarrow>
   'e queue_obs list \<times> 'q" where
  "queue_run push pop [] q = ([], q)"
| "queue_run push pop (Push x # ops) q =
     (let (b, q') = push x q; (obs, q'') = queue_run push pop ops q' in (Pushed b # obs, q''))"
| "queue_run push pop (Pop # ops) q =
     (let (x, q') = pop q; (obs, q'') = queue_run push pop ops q' in (Popped x # obs, q''))"

fun queue_spec :: "nat \<Rightarrow> 'e \<Rightarrow> 'e queue_op list \<Rightarrow> 'e list \<Rightarrow> 'e queue_obs list \<times> 'e list" where
  "queue_spec cap emp [] xs = ([], xs)"
| "queue_spec cap emp (Push x # ops) xs =
     (let xs' = (if length xs < cap then xs @ [x] else xs); (obs, ys) = queue_spec cap emp ops xs'
      in (Pushed (length xs < cap) # obs, ys))"
| "queue_spec cap emp (Pop # ops) [] =
     (let (obs, ys) = queue_spec cap emp ops [] in (Popped emp # obs, ys))"
| "queue_spec cap emp (Pop # ops) (x # xs) =
     (let (obs, ys) = queue_spec cap emp ops xs in (Popped x # obs, ys))"

lemma queue_spec_pushes:
  "length ys + length xs \<le> n \<Longrightarrow> queue_spec n emp (map Push xs @ ops) ys =
   (map (\<lambda>_. Pushed True) xs @ fst (queue_spec n emp ops (ys @ xs)), snd (queue_spec n emp ops (ys @ xs)))"
  by (induction xs arbitrary: ys) (auto simp: split_def Let_def)

definition ops_avoid :: "'e \<Rightarrow> 'e queue_op list \<Rightarrow> bool" where
  "ops_avoid emp ops \<longleftrightarrow> list_all (\<lambda>op. case op of Push x \<Rightarrow> x \<noteq> emp | Pop \<Rightarrow> True) ops"

lemma ops_avoid_simps [simp]:
  "ops_avoid emp []"
  "ops_avoid emp (Push x # ops) \<longleftrightarrow> x \<noteq> emp \<and> ops_avoid emp ops"
  "ops_avoid emp (Pop # ops) \<longleftrightarrow> ops_avoid emp ops"
  by (simp_all add: ops_avoid_def)

section \<open>The contract\<close>

locale bounded_queue =
  fixes push :: "'e \<Rightarrow> 'q \<Rightarrow> bool \<times> 'q"
    and pop :: "'q \<Rightarrow> 'e \<times> 'q"
    and rep :: "'q \<Rightarrow> 'e list \<Rightarrow> bool"
    and cap :: "'q \<Rightarrow> nat"
    and emp :: "'e"
  assumes rep_bounded: "rep q xs \<Longrightarrow> length xs \<le> cap q \<and> emp \<notin> set xs"
    and push_space: "rep q xs \<Longrightarrow> x \<noteq> emp \<Longrightarrow> length xs < cap q \<Longrightarrow>
      \<exists>q'. push x q = (True, q') \<and> rep q' (xs @ [x]) \<and> cap q' = cap q"
    and push_full: "rep q xs \<Longrightarrow> length xs = cap q \<Longrightarrow> push x q = (False, q)"
    and pop_nil: "rep q [] \<Longrightarrow> pop q = (emp, q)"
    and pop_cons: "rep q (x # xs) \<Longrightarrow> \<exists>q'. pop q = (x, q') \<and> rep q' xs \<and> cap q' = cap q"
begin

lemma run_refines_spec:
  assumes "rep q xs" "ops_avoid emp ops"
  shows "\<exists>q'. queue_run push pop ops q = (fst (queue_spec (cap q) emp ops xs), q') \<and>
      rep q' (snd (queue_spec (cap q) emp ops xs)) \<and> cap q' = cap q"
  using assms
proof (induction ops arbitrary: q xs)
  case Nil
  then show ?case by simp
next
  case (Cons op ops)
  have step: "\<exists>ob q1. queue_run push pop (op # ops) q =
        (let (obs, q'') = queue_run push pop ops q1 in (ob # obs, q'')) \<and> cap q1 = cap q \<and>
      (\<exists>ys. rep q1 ys \<and> queue_spec (cap q) emp (op # ops) xs =
        (let (obs, zs) = queue_spec (cap q) emp ops ys in (ob # obs, zs)))"
  proof (cases op)
    case (Push x)
    show ?thesis
    proof (cases "length xs < cap q")
      case True
      then obtain q1 where "push x q = (True, q1)" "rep q1 (xs @ [x])" "cap q1 = cap q"
        using push_space Cons.prems Push by fastforce
      with True Push show ?thesis by force
    next
      case False
      then have "push x q = (False, q)"
        using push_full [OF Cons.prems(1)] rep_bounded [OF Cons.prems(1)] by simp
      with False Push Cons.prems(1) show ?thesis by force
    qed
  next
    case Pop
    show ?thesis
    proof (cases xs)
      case Nil
      with Cons.prems have "pop q = (emp, q)" by (simp add: pop_nil)
      with Nil Pop Cons.prems(1) show ?thesis by force
    next
      case (Cons x ys)
      then obtain q1 where "pop q = (x, q1)" "rep q1 ys" "cap q1 = cap q"
        using pop_cons \<open>rep q xs\<close> by blast
      with Cons Pop show ?thesis by force
    qed
  qed
  then obtain ob q1 ys where
    "queue_run push pop (op # ops) q =
        (let (obs, q'') = queue_run push pop ops q1 in (ob # obs, q''))"
    "cap q1 = cap q" "rep q1 ys"
    "queue_spec (cap q) emp (op # ops) xs =
        (let (obs, zs) = queue_spec (cap q) emp ops ys in (ob # obs, zs))"
    by blast
  moreover have "ops_avoid emp ops"
    using Cons.prems(2) by (cases op) auto
  ultimately show ?case
    using Cons.IH [of q1 ys] by (force split: prod.splits)
qed

lemma push_rep:
  assumes "rep q xs" "x \<noteq> emp"
  shows "push x q = (b, q') \<Longrightarrow>
    b = (length xs < cap q) \<and> rep q' (if b then xs @ [x] else xs) \<and> cap q' = cap q"
  using push_space [OF assms] push_full [OF assms(1), of x] rep_bounded [OF assms(1)] assms(1)
  by (cases "length xs < cap q") auto

lemma pop_rep:
  assumes "rep q xs"
  shows "pop q = (x, q') \<Longrightarrow> x = (if xs = [] then emp else hd xs) \<and> rep q' (tl xs) \<and> cap q' = cap q"
  using assms pop_nil [of q] pop_cons [of q "hd xs" "tl xs"] by (cases xs) auto

end

end
