(* ===== verification/Ring_Buffer.thy ===== *)
theory Ring_Buffer
  imports Queue_Interface
begin

text \<open>
  \<^verbatim>\<open>include/ni/cds/spsc_ring_buffer.hh\<close>: class \<open>SPSCRingBuffer<T, Empty, Fill>\<close> as its
  two threads would run it one call after the other (the interleaved accesses are in
  \<open>Ring_Concurrent\<close>). The template argument \<open>Empty\<close> is the first argument \<open>emp\<close> of the
  operations. The object starts as one array of \<open>m_size\<close> atomic slots, all \<open>Empty\<close>.
\<close>

section \<open>State and operations\<close>

record 'a ring =
  m_write_index :: u64
  m_read_index :: u64
  m_size :: u64
  m_mask :: u64
  m_buf :: "'a list"

text \<open>
  \<open>Filler::value\<close> selects one of the two overloads of \<open>clear\<close>: the one for \<open>Unit\<close> stores
  \<open>Empty\<close> slot by slot; the one for \<open>int\<close> is a \<open>memset\<close>, after which every slot holds the
  element all of whose bytes are the fill byte, the argument of \<open>FillInt\<close>.
\<close>

datatype 'a filler = FillUnit | FillInt 'a

function store_all :: "'a \<Rightarrow> nat \<Rightarrow> nat \<Rightarrow> 'a list \<Rightarrow> 'a list" where
  "store_all emp i n buf = (if i < n then store_all emp (Suc i) n (buf[i := emp]) else buf)"
  by pat_completeness auto
termination
  by (relation "measure (\<lambda>(emp, i, n, buf). n - i)") auto

declare store_all.simps [simp del]

definition ring_clear :: "'a \<Rightarrow> 'a filler \<Rightarrow> 'a ring \<Rightarrow> 'a ring" where
  "ring_clear emp fill r =
     (case fill of
        FillUnit \<Rightarrow> r\<lparr>m_buf := store_all emp 0 (unat (m_size r)) (m_buf r)\<rparr>
      | FillInt x \<Rightarrow> r\<lparr>m_buf := replicate (unat (m_size r)) x\<rparr>)"

text \<open>
  The constructor; \<open>rc\<close> is what \<open>posix_memalign\<close> returns and \<open>mem\<close> what the array of
  atomics holds before it is cleared.
\<close>

definition ring_new :: "'a \<Rightarrow> 'a filler \<Rightarrow> int \<Rightarrow> 'a list \<Rightarrow> u64 \<Rightarrow> 'a ring result" where
  "ring_new emp fill rc mem sz =
     bindE (assertE (1 < sz \<and> sz AND (sz - 1) = 0)) (\<lambda>_.
       if rc \<noteq> 0 then Inl (SystemError rc)
       else Inr (ring_clear emp fill
         \<lparr>m_write_index = 0, m_read_index = 0, m_size = sz, m_mask = sz - 1, m_buf = mem\<rparr>))"

definition slot :: "'a ring \<Rightarrow> u64 \<Rightarrow> 'a" where
  "slot r i = m_buf r ! unat i"

definition ring_size :: "'a ring \<Rightarrow> u64" where
  "ring_size r = m_size r"

definition ring_len :: "'a \<Rightarrow> 'a ring \<Rightarrow> u64" where
  "ring_len emp r =
     (let w = m_write_index r; rd = m_read_index r in
      if w > rd then w - rd
      else if w < rd then m_size r - rd + w
      else if w = rd \<and> slot r w = emp then 0
      else m_size r)"

definition ring_empty :: "'a \<Rightarrow> 'a ring \<Rightarrow> bool" where
  "ring_empty emp r = (slot r (m_read_index r) = emp)"

definition ring_available :: "'a \<Rightarrow> 'a ring \<Rightarrow> bool" where
  "ring_available emp r = (slot r (m_write_index r) = emp)"

definition ring_push :: "'a \<Rightarrow> 'a \<Rightarrow> 'a ring \<Rightarrow> bool \<times> 'a ring" where
  "ring_push emp x r =
     (if \<not> ring_available emp r then (False, r)
      else
        let r1 = r\<lparr>m_buf := (m_buf r)[unat (m_write_index r) := x]\<rparr>
        in (True, r1\<lparr>m_write_index := (m_write_index r1 + 1) AND m_mask r1\<rparr>))"

definition ring_pop :: "'a \<Rightarrow> 'a ring \<Rightarrow> 'a \<times> 'a ring" where
  "ring_pop emp r =
     (let element = slot r (m_read_index r) in
      if element = emp then (emp, r)
      else
        let r1 = r\<lparr>m_buf := (m_buf r)[unat (m_read_index r) := emp]\<rparr>
        in (element, r1\<lparr>m_read_index := (m_read_index r1 + 1) AND m_mask r1\<rparr>))"

definition ring_top :: "'a ring \<Rightarrow> 'a" where
  "ring_top r = slot r (m_read_index r)"

definition ring_reset :: "'a \<Rightarrow> 'a filler \<Rightarrow> 'a ring \<Rightarrow> 'a ring" where
  "ring_reset emp fill r = ring_clear emp fill (r\<lparr>m_write_index := 0, m_read_index := 0\<rparr>)"

text \<open>
  The alias \<open>SPSCPtrRingBuffer\<close>: pointers, \<open>Empty\<close> is the null pointer and \<open>Fill\<close> the
  integral constant 0, so that clearing is \<open>memset(m_buf, 0, sizeof(T) * m_size)\<close>.
  \<open>memset_ptr\<close> is the pointer whose eight bytes are the low byte of the fill value.
\<close>

definition memset_ptr :: "int \<Rightarrow> addr" where
  "memset_ptr value = foldr (\<lambda>_ w. push_bit 8 w OR ucast (word_of_int value :: u8)) [0..<8] 0"

definition ptr_ring_new :: "int \<Rightarrow> u64 \<Rightarrow> addr ring result" where
  "ptr_ring_new rc sz = ring_new nullptr (FillInt (memset_ptr 0)) rc [] sz"

section \<open>Sizes that are powers of two\<close>

lemma and_pred_zero_pow2:
  "0 < n \<Longrightarrow> n AND (n - 1) = (0::nat) \<Longrightarrow> \<exists>k. n = 2 ^ k"
proof (induction n rule: less_induct)
  case (less n)
  show ?case
  proof (cases "even n")
    case True
    then obtain v where v: "n = 2 * v" by (elim evenE)
    with less.prems have "0 < v" by simp
    then have "n - 1 = 2 * (v - 1) + 1" using v by simp
    then have "n AND (n - 1) = 2 * (v AND (v - 1))"
      using v by (subst and_rec) simp
    with less.prems have "v AND (v - 1) = 0" by simp
    moreover have "v < n" using v \<open>0 < v\<close> by simp
    ultimately obtain k where "v = 2 ^ k" using less.IH \<open>0 < v\<close> by blast
    then show ?thesis using v by (intro exI [of _ "Suc k"]) simp
  next
    case False
    then obtain v where v: "n = 2 * v + 1" by (elim oddE)
    then have "n AND (n - 1) = 2 * v" by (subst and_rec) simp
    with less.prems v show ?thesis by (intro exI [of _ 0]) simp
  qed
qed

definition pow2_size :: "u64 \<Rightarrow> bool" where
  "pow2_size sz \<longleftrightarrow> 1 < sz \<and> sz AND (sz - 1) = 0"

lemma pow2_size_unat:
  assumes "pow2_size sz"
  obtains k where "0 < k" "k < 64" "unat sz = 2 ^ k" "sz - 1 = mask k"
proof -
  have gt: "1 < unat sz"
    using assms by (simp add: pow2_size_def word_less_nat_alt)
  have "unat (sz - 1) = unat sz - 1"
    using gt by (simp add: unat_sub word_le_nat_alt)
  then have "unat sz AND (unat sz - 1) = unat (sz AND (sz - 1))"
    by (simp add: unsigned_and_eq)
  then obtain k where k: "unat sz = 2 ^ k"
    using and_pred_zero_pow2 [of "unat sz"] gt assms by (auto simp: pow2_size_def)
  have "k < 64"
    using unat_bound [of sz] k power_less_imp_less_exp [of "2 :: nat" k 64] by simp
  moreover have "0 < k" using gt k by (cases k) auto
  moreover have "sz - 1 = mask k"
  proof -
    have "sz = 2 ^ k"
      using arg_cong [OF k, of "of_nat :: nat \<Rightarrow> u64"] by simp
    then show ?thesis by (simp add: mask_eq_decr_exp)
  qed
  ultimately show ?thesis using k that by blast
qed

lemma pow2_size_advance:
  assumes "pow2_size sz" "i < sz"
  shows "unat ((i + 1) AND (sz - 1)) = (unat i + 1) mod unat sz"
proof -
  obtain k where k: "k < 64" "unat sz = 2 ^ k" "sz - 1 = mask k"
    using pow2_size_unat [OF assms(1)] by blast
  have "unat i + 1 < 2 ^ 64"
    using assms(2) unat_bound [of sz] by (simp add: word_less_nat_alt)
  then have "unat (i + 1) = unat i + 1"
    by (simp add: unat_Suc)
  then show ?thesis
    using k by (simp add: unat_and_mask)
qed

section \<open>Representation of a queue\<close>

text \<open>
  Read from \<open>m_read_index\<close> on, the slots are the queued elements followed by \<open>Empty\<close> slots,
  and \<open>m_write_index\<close> is as many places further as there are elements. All \<open>m_size\<close> slots
  are usable: full and empty differ by what the slot under both indices holds.
\<close>

definition ring_slots :: "'a ring \<Rightarrow> 'a list" where
  "ring_slots r = rotate (unat (m_read_index r)) (m_buf r)"

definition ring_shape :: "'a ring \<Rightarrow> bool" where
  "ring_shape r \<longleftrightarrow> pow2_size (m_size r) \<and> m_mask r = m_size r - 1 \<and>
     length (m_buf r) = unat (m_size r) \<and> m_read_index r < m_size r \<and> m_write_index r < m_size r"

definition ring_rep :: "'a \<Rightarrow> 'a ring \<Rightarrow> 'a list \<Rightarrow> bool" where
  "ring_rep emp r xs \<longleftrightarrow> ring_shape r \<and> emp \<notin> set xs \<and> length xs \<le> unat (m_size r) \<and>
     ring_slots r = xs @ replicate (unat (m_size r) - length xs) emp \<and>
     unat (m_write_index r) = (unat (m_read_index r) + length xs) mod unat (m_size r)"

definition ring_contents :: "'a \<Rightarrow> 'a ring \<Rightarrow> 'a list" where
  "ring_contents emp r = takeWhile (\<lambda>x. x \<noteq> emp) (ring_slots r)"

definition ring_wf :: "'a \<Rightarrow> 'a ring \<Rightarrow> bool" where
  "ring_wf emp r \<longleftrightarrow> ring_rep emp r (ring_contents emp r)"

definition ring_capacity :: "'a ring \<Rightarrow> nat" where
  "ring_capacity r = unat (m_size r)"

lemma ring_rep_contents: "ring_rep emp r xs \<Longrightarrow> ring_contents emp r = xs"
  by (auto simp: ring_rep_def ring_contents_def takeWhile_append)

lemma ring_wfI: "ring_rep emp r xs \<Longrightarrow> ring_wf emp r"
  by (simp add: ring_wf_def ring_rep_contents)

lemma ring_shape_pos: "ring_shape r \<Longrightarrow> 1 < unat (m_size r)"
  by (simp add: ring_shape_def pow2_size_def word_less_nat_alt)

lemma ring_shape_bounds:
  assumes "ring_shape r"
  shows "unat (m_read_index r) < length (m_buf r)" "unat (m_write_index r) < length (m_buf r)"
  using assms by (simp_all add: ring_shape_def word_less_nat_alt)

lemma nth_ring_slots:
  "ring_shape r \<Longrightarrow> i < unat (m_size r) \<Longrightarrow>
   ring_slots r ! i = m_buf r ! ((unat (m_read_index r) + i) mod unat (m_size r))"
  by (simp add: ring_slots_def ring_shape_def nth_rotate)

text \<open>What the two indices point at.\<close>

lemma slot_read:
  assumes "ring_rep emp r xs"
  shows "slot r (m_read_index r) = (if xs = [] then emp else hd xs)"
proof -
  have sh: "ring_shape r" using assms by (simp add: ring_rep_def)
  have "slot r (m_read_index r) = ring_slots r ! 0"
    using ring_shape_bounds [OF sh] sh by (simp add: slot_def nth_ring_slots ring_shape_def)
  also have "\<dots> = (if xs = [] then emp else hd xs)"
    using assms ring_shape_pos [OF sh] by (auto simp: ring_rep_def nth_append hd_conv_nth)
  finally show ?thesis .
qed

lemma slot_write:
  assumes "ring_rep emp r xs"
  shows "slot r (m_write_index r) = (if length xs < unat (m_size r) then emp else hd xs)"
proof (cases "length xs < unat (m_size r)")
  case True
  have sh: "ring_shape r"
    and w: "unat (m_write_index r) = (unat (m_read_index r) + length xs) mod unat (m_size r)"
    using assms by (simp_all add: ring_rep_def)
  have "slot r (m_write_index r) = ring_slots r ! length xs"
    by (simp add: slot_def nth_ring_slots [OF sh True] w)
  also have "\<dots> = emp"
    using assms True by (simp add: ring_rep_def nth_append)
  finally show ?thesis using True by simp
next
  case False
  with assms have "length xs = unat (m_size r)" by (simp add: ring_rep_def)
  then have "unat (m_write_index r) = unat (m_read_index r)"
    using assms by (simp add: ring_rep_def ring_shape_def word_less_nat_alt)
  then have "slot r (m_write_index r) = slot r (m_read_index r)" by (simp add: slot_def)
  then show ?thesis
    using slot_read [OF assms] False ring_shape_pos [of r] assms by (auto simp: ring_rep_def)
qed

lemma ring_available_iff:
  assumes "ring_rep emp r xs"
  shows "ring_available emp r \<longleftrightarrow> length xs < unat (m_size r)"
proof -
  have "hd xs \<noteq> emp" if "\<not> length xs < unat (m_size r)"
    using assms that ring_shape_pos [of r] by (cases xs) (auto simp: ring_rep_def)
  then show ?thesis
    using slot_write [OF assms] by (auto simp: ring_available_def)
qed

lemma ring_empty_iff:
  "ring_rep emp r xs \<Longrightarrow> ring_empty emp r \<longleftrightarrow> xs = []"
  using slot_read [of emp r xs] by (cases xs) (auto simp: ring_empty_def ring_rep_def)

section \<open>The operations on the representation\<close>

lemma ring_push_full:
  "ring_rep emp r xs \<Longrightarrow> length xs = ring_capacity r \<Longrightarrow> ring_push emp x r = (False, r)"
  by (simp add: ring_push_def ring_available_iff ring_capacity_def)

lemma ring_push_space:
  assumes rep: "ring_rep emp r xs" and x: "x \<noteq> emp" and space: "length xs < ring_capacity r"
  shows "\<exists>r'. ring_push emp x r = (True, r') \<and> ring_rep emp r' (xs @ [x]) \<and>
    ring_capacity r' = ring_capacity r"
proof -
  let ?n = "unat (m_size r)"
  let ?r' = "r\<lparr>m_buf := (m_buf r)[unat (m_write_index r) := x],
               m_write_index := (m_write_index r + 1) AND m_mask r\<rparr>"
  have sh: "ring_shape r" and len: "length (m_buf r) = ?n"
    and w: "unat (m_write_index r) = (unat (m_read_index r) + length xs) mod ?n"
    using rep by (simp_all add: ring_rep_def ring_shape_def)
  have lt: "length xs < ?n" using space by (simp add: ring_capacity_def)
  have adv: "unat (m_write_index ?r') = (unat (m_write_index r) + 1) mod ?n"
    using sh pow2_size_advance by (simp add: ring_shape_def)
  have "ring_slots ?r' = (ring_slots r)[length xs := x]"
    using rotate_list_update [of "length xs" "m_buf r" "unat (m_read_index r)" x] lt
    by (simp add: ring_slots_def w len)
  also have "\<dots> = (xs @ replicate (Suc (?n - length (xs @ [x]))) emp)[length xs := x]"
    using rep lt by (simp add: ring_rep_def Suc_diff_Suc)
  also have "\<dots> = (xs @ [x]) @ replicate (?n - length (xs @ [x])) emp"
    by (simp add: list_update_append)
  finally have slots: "ring_slots ?r' = (xs @ [x]) @ replicate (?n - length (xs @ [x])) emp" .
  have "m_write_index ?r' < m_size r"
    using adv ring_shape_pos [OF sh] by (simp add: word_less_nat_alt)
  then have "ring_shape ?r'"
    using sh by (simp add: ring_shape_def)
  moreover have "unat (m_write_index ?r') = (unat (m_read_index r) + length (xs @ [x])) mod ?n"
    by (subst adv) (simp add: w mod_Suc_eq)
  ultimately have "ring_rep emp ?r' (xs @ [x])"
    using slots lt x rep by (simp add: ring_rep_def)
  moreover have "ring_push emp x r = (True, ?r')"
    using lt by (simp add: ring_push_def ring_available_iff [OF rep])
  ultimately show ?thesis by (simp add: ring_capacity_def)
qed

lemma ring_pop_nil: "ring_rep emp r [] \<Longrightarrow> ring_pop emp r = (emp, r)"
  using slot_read [of emp r "[]"] by (simp add: ring_pop_def)

lemma ring_pop_cons:
  assumes rep: "ring_rep emp r (x # xs)"
  shows "\<exists>r'. ring_pop emp r = (x, r') \<and> ring_rep emp r' xs \<and> ring_capacity r' = ring_capacity r"
proof -
  let ?n = "unat (m_size r)"
  let ?r' = "r\<lparr>m_buf := (m_buf r)[unat (m_read_index r) := emp],
               m_read_index := (m_read_index r + 1) AND m_mask r\<rparr>"
  have sh: "ring_shape r" and len: "length (m_buf r) = ?n" and ne: "x \<noteq> emp"
    and slots: "ring_slots r = x # xs @ replicate (?n - length (x # xs)) emp"
    and w: "unat (m_write_index r) = (unat (m_read_index r) + length (x # xs)) mod ?n"
    and fits: "length (x # xs) \<le> ?n"
    using rep by (auto simp: ring_rep_def ring_shape_def)
  have n: "1 < ?n" and rd: "unat (m_read_index r) < ?n"
    using ring_shape_pos [OF sh] ring_shape_bounds [OF sh] len by simp_all
  have adv: "unat (m_read_index ?r') = (unat (m_read_index r) + 1) mod ?n"
    using sh pow2_size_advance by (simp add: ring_shape_def)
  have "ring_slots ?r' = rotate ((unat (m_read_index r) + 1) mod ?n)
      ((m_buf r)[unat (m_read_index r) := emp])"
    using adv by (simp add: ring_slots_def)
  also have "\<dots> = rotate (Suc (unat (m_read_index r))) ((m_buf r)[unat (m_read_index r) := emp])"
    using rotate_conv_mod [of "Suc (unat (m_read_index r))"
        "(m_buf r)[unat (m_read_index r) := emp]"] by (simp add: len)
  also have "\<dots> = rotate1 (rotate (unat (m_read_index r)) ((m_buf r)[unat (m_read_index r) := emp]))"
    by simp
  also have "\<dots> = rotate1 ((ring_slots r)[0 := emp])"
    using rotate_list_update [of 0 "m_buf r" "unat (m_read_index r)" emp] n rd
    by (simp add: ring_slots_def len)
  also have "\<dots> = xs @ replicate (?n - length xs) emp"
    using fits by (simp add: slots replicate_append_same Suc_diff_Suc flip: replicate_Suc)
  finally have slots': "ring_slots ?r' = xs @ replicate (?n - length xs) emp" .
  have "m_read_index ?r' < m_size r"
    using adv n by (simp add: word_less_nat_alt)
  then have "ring_shape ?r'"
    using sh by (simp add: ring_shape_def)
  moreover have "unat (m_write_index r) = (unat (m_read_index ?r') + length xs) mod ?n"
    by (simp only: adv w) (simp add: mod_add_left_eq)
  ultimately have "ring_rep emp ?r' xs"
    using slots' fits rep by (simp add: ring_rep_def)
  moreover have "ring_pop emp r = (x, ?r')"
    using slot_read [OF rep] ne by (simp add: ring_pop_def)
  ultimately show ?thesis by (simp add: ring_capacity_def)
qed

interpretation ring: bounded_queue "ring_push emp" "ring_pop emp" "ring_rep emp" ring_capacity emp
  for emp :: 'a
proof unfold_locales
  fix q xs
  assume "ring_rep emp q xs"
  then show "length xs \<le> ring_capacity q \<and> emp \<notin> set xs"
    by (simp add: ring_rep_def ring_capacity_def)
qed (blast intro: ring_push_space ring_push_full ring_pop_nil ring_pop_cons)+

section \<open>Construction, clearing and counting\<close>

lemma store_all_replicate:
  "length buf = n \<Longrightarrow> i \<le> n \<Longrightarrow> store_all emp i n buf = take i buf @ replicate (n - i) emp"
proof (induction emp i n buf rule: store_all.induct)
  case (1 emp i n buf)
  show ?case
  proof (cases "i < n")
    case True
    with 1 have "store_all emp (Suc i) n (buf[i := emp]) =
        take (Suc i) (buf[i := emp]) @ replicate (n - Suc i) emp" by simp
    moreover have "take (Suc i) (buf[i := emp]) = take i buf @ [emp]"
      using True 1(2) by (simp add: take_Suc_conv_app_nth)
    moreover have "replicate (n - i) emp = emp # replicate (n - Suc i) emp"
      using True by (metis Suc_diff_Suc replicate_Suc)
    ultimately show ?thesis
      using True by (simp add: store_all.simps [of emp i n buf])
  next
    case False
    with 1 have "i = n" by simp
    then show ?thesis using 1(2) by (simp add: store_all.simps [of emp n n buf])
  qed
qed

definition fills_empty :: "'a \<Rightarrow> 'a filler \<Rightarrow> bool" where
  "fills_empty emp fill \<longleftrightarrow> (case fill of FillUnit \<Rightarrow> True | FillInt x \<Rightarrow> x = emp)"

lemma ring_clear_buf:
  assumes "fills_empty emp fill" "length (m_buf r) = unat (m_size r)"
  shows "ring_clear emp fill r = r\<lparr>m_buf := replicate (unat (m_size r)) emp\<rparr>"
  using assms by (simp add: ring_clear_def fills_empty_def store_all_replicate split: filler.splits)

lemma ring_rep_cleared:
  assumes "pow2_size (m_size r)" "m_mask r = m_size r - 1"
    "m_write_index r = 0" "m_read_index r = 0" "m_buf r = replicate (unat (m_size r)) emp"
  shows "ring_rep emp r []"
  using assms pow2_size_def [of "m_size r"]
  by (simp add: ring_rep_def ring_shape_def ring_slots_def word_less_nat_alt)

lemma memset_ptr_0: "memset_ptr 0 = nullptr"
  by (simp add: memset_ptr_def numeral_eq_Suc)

lemma ring_new_Inr:
  assumes "fills_empty emp fill" "fill = FillUnit \<Longrightarrow> length mem = unat sz"
  shows "ring_new emp fill rc mem sz = Inr r \<Longrightarrow>
    pow2_size sz \<and> rc = 0 \<and> ring_rep emp r [] \<and> m_size r = sz"
proof -
  let ?r = "\<lparr>m_write_index = 0, m_read_index = 0, m_size = sz, m_mask = sz - 1, m_buf = mem\<rparr>"
  assume "ring_new emp fill rc mem sz = Inr r"
  then have pow: "pow2_size sz" and rc: "rc = 0" and r: "r = ring_clear emp fill ?r"
    by (auto simp: ring_new_def bindE_Inr_iff pow2_size_def split: if_splits)
  have "r = ?r\<lparr>m_buf := replicate (unat sz) emp\<rparr>"
    using assms r by (cases fill) (simp_all add: ring_clear_def store_all_replicate fills_empty_def)
  then show ?thesis
    using pow rc by (auto intro: ring_rep_cleared)
qed

lemma ptr_ring_new_rep:
  "ptr_ring_new rc sz = Inr r \<Longrightarrow> pow2_size sz \<and> ring_rep nullptr r [] \<and> m_size r = sz"
  using ring_new_Inr [of nullptr "FillInt (memset_ptr 0)"]
  by (auto simp: ptr_ring_new_def fills_empty_def memset_ptr_0)

lemma ring_len_rep:
  assumes "ring_rep emp r xs"
  shows "unat (ring_len emp r) = length xs"
proof -
  let ?n = "unat (m_size r)" and ?w = "unat (m_write_index r)" and ?rd = "unat (m_read_index r)"
  have sh: "ring_shape r" and le: "length xs \<le> ?n" and w: "?w = (?rd + length xs) mod ?n"
    using assms by (simp_all add: ring_rep_def)
  have b: "?rd < ?n" "?w < ?n"
    using ring_shape_bounds [OF sh] sh by (simp_all add: ring_shape_def)
  consider "?rd + length xs < ?n" "?w = ?rd + length xs"
    | "?n \<le> ?rd + length xs" "?w = ?rd + length xs - ?n"
    using w b le by (cases "?rd + length xs < ?n") (simp_all add: mod_if)
  then show ?thesis
  proof cases
    case 1
    show ?thesis
    proof (cases "xs = []")
      case True
      then have "m_write_index r = m_read_index r" using 1 by (intro unsigned_word_eqI) simp
      then show ?thesis
        using slot_write [OF assms] b True by (simp add: ring_len_def)
    next
      case False
      with 1 have "m_write_index r > m_read_index r" by (simp add: word_less_nat_alt)
      then show ?thesis
        using 1 by (simp add: ring_len_def unat_sub less_imp_le)
    qed
  next
    case 2
    show ?thesis
    proof (cases "length xs = ?n")
      case True
      then have eq: "m_write_index r = m_read_index r" using 2 by (intro unsigned_word_eqI) simp
      moreover have "slot r (m_write_index r) \<noteq> emp"
        using ring_available_iff [OF assms] True by (simp add: ring_available_def)
      ultimately show ?thesis using True by (simp add: ring_len_def)
    next
      case False
      with 2 b le have "?w < ?rd" by linarith
      then have lt: "m_write_index r < m_read_index r" by (simp add: word_less_nat_alt)
      have "unat (m_size r - m_read_index r) = ?n - ?rd"
        using b by (simp add: unat_sub word_le_nat_alt)
      then have "unat (m_size r - m_read_index r + m_write_index r) = ?n - ?rd + ?w"
        using b \<open>?w < ?rd\<close> unat_bound [of "m_size r"] by (simp add: unat_word_ariths)
      moreover have "\<not> m_read_index r < m_write_index r" using lt by (simp add: not_less less_imp_le)
      ultimately show ?thesis
        using lt 2 b le by (simp add: ring_len_def)
    qed
  qed
qed

lemma replicate_numeral: "replicate (numeral n) x = x # replicate (pred_numeral n) x"
  by (simp add: numeral_eq_Suc)

section \<open>Properties\<close>

text \<open>
  C39: The constructor fails its assertion unless the size is a power of two above one, throws
  \<open>system_error\<close> when \<open>posix_memalign\<close> fails, and otherwise yields an empty ring all of
  whose slots are usable, provided the fill byte spells \<open>Empty\<close>.
\<close>

theorem ring_new_correct:
  assumes "fills_empty emp fill" and "length mem = unat sz"
  shows "(\<not> pow2_size sz \<longrightarrow> ring_new emp fill rc mem sz = Inl AssertFailed) \<and>
    (pow2_size sz \<and> rc \<noteq> 0 \<longrightarrow> ring_new emp fill rc mem sz = Inl (SystemError rc)) \<and>
    (pow2_size sz \<and> rc = 0 \<longrightarrow> (\<exists>r. ring_new emp fill rc mem sz = Inr r \<and>
       ring_wf emp r \<and> ring_contents emp r = [] \<and> ring_capacity r = unat sz))"
proof -
  have "\<exists>r. ring_new emp fill rc mem sz = Inr r \<and>
      ring_wf emp r \<and> ring_contents emp r = [] \<and> ring_capacity r = unat sz"
    if h: "pow2_size sz \<and> rc = 0"
  proof -
    obtain r where r: "ring_new emp fill rc mem sz = Inr r"
      using h by (auto simp: ring_new_def pow2_size_def)
    then have "ring_rep emp r []" "m_size r = sz"
      using ring_new_Inr [OF assms(1) assms(2) r] by auto
    with r show ?thesis
      by (auto simp: ring_capacity_def intro: ring_wfI dest: ring_rep_contents)
  qed
  then show ?thesis
    by (simp add: ring_new_def pow2_size_def assertE_def)
qed

theorem ring_new_correct_witness:
  "fills_empty (-1 :: int) FillUnit \<and> pow2_size 8 \<and>
   (\<exists>r. ring_new (-1 :: int) FillUnit 0 (replicate 8 0) 8 = Inr r \<and> ring_capacity r = 8)"
proof -
  have h: "fills_empty (-1 :: int) FillUnit" "length (replicate 8 (0 :: int)) = unat (8 :: u64)"
    "pow2_size 8"
    by (simp_all add: fills_empty_def pow2_size_def)
  show ?thesis using ring_new_correct [OF h(1,2), of 0] h by auto
qed

text \<open>
  C11: From any well-formed ring, every sequence of \<open>push\<close> (of elements other than
  \<open>Empty\<close>) and \<open>pop\<close> makes the observations of a list queue bounded by the size: a push
  succeeds exactly while fewer than \<open>size\<close> elements are queued, pops deliver the elements
  in order, and a pop of an empty ring delivers \<open>Empty\<close>. The ring stays well-formed.
\<close>

theorem ring_refines_queue:
  assumes "ring_wf emp r" and "ops_avoid emp ops"
  shows "\<exists>r'. queue_run (ring_push emp) (ring_pop emp) ops r =
      (fst (queue_spec (ring_capacity r) emp ops (ring_contents emp r)), r') \<and> ring_wf emp r' \<and>
    ring_contents emp r' = snd (queue_spec (ring_capacity r) emp ops (ring_contents emp r)) \<and>
    ring_capacity r' = ring_capacity r"
  using ring.run_refines_spec [OF assms(1) [unfolded ring_wf_def] assms(2)]
  by (auto intro: ring_wfI dest: ring_rep_contents)

theorem ring_refines_queue_witness:
  "\<exists>r r'. ring_wf (-1 :: int) r \<and>
    queue_run (ring_push (-1)) (ring_pop (-1)) [Push 5, Push 6, Push 7, Pop, Push 8, Pop, Pop, Pop] r =
      ([Pushed True, Pushed True, Pushed False, Popped 5, Pushed True, Popped 6, Popped 8,
        Popped (-1)], r') \<and> ring_wf (-1) r'"
proof -
  let ?r = "\<lparr>m_write_index = 0, m_read_index = 0, m_size = 2, m_mask = 1, m_buf = [-1, -1 :: int]\<rparr>"
  let ?ops = "[Push 5, Push 6, Push 7, Pop, Push 8, Pop, Pop, Pop] :: int queue_op list"
  have c: "ring_contents (-1) ?r = []" "ring_capacity ?r = 2"
    by (simp_all add: ring_contents_def ring_slots_def ring_capacity_def)
  have wf: "ring_wf (-1) ?r"
    by (rule ring_wfI [of _ _ "[]"], rule ring_rep_cleared)
      (simp_all add: pow2_size_def replicate_numeral)
  have "ops_avoid (-1) ?ops" by simp
  then show ?thesis
    using ring_refines_queue [OF wf, of ?ops] wf unfolding c by (auto simp: Let_def)
qed

text \<open>
  In a well-formed ring \<open>len\<close> is the number of queued elements (also when the indices
  coincide because the ring is full), \<open>empty\<close> and \<open>available\<close> tell whether it is 0 or below
  \<open>size\<close>, and \<open>top\<close> is the next element or \<open>Empty\<close>.
\<close>

lemma ring_observers:
  assumes "ring_wf emp r"
  shows "unat (ring_len emp r) = length (ring_contents emp r) \<and>
    (ring_empty emp r \<longleftrightarrow> ring_contents emp r = []) \<and>
    (ring_available emp r \<longleftrightarrow> length (ring_contents emp r) < unat (ring_size r)) \<and>
    ring_top r = (if ring_contents emp r = [] then emp else hd (ring_contents emp r))"
proof -
  note rep = assms [unfolded ring_wf_def]
  show ?thesis
    using ring_len_rep [OF rep] ring_empty_iff [OF rep] ring_available_iff [OF rep]
      slot_read [OF rep] by (simp add: ring_top_def ring_size_def)
qed

text \<open>
  \<open>reset\<close> empties any ring of the right shape, whatever its slots hold, and keeps its
  capacity.
\<close>

lemma ring_reset_empties:
  assumes "ring_shape r" and "fills_empty emp fill"
  shows "ring_wf emp (ring_reset emp fill r) \<and> ring_contents emp (ring_reset emp fill r) = [] \<and>
    ring_capacity (ring_reset emp fill r) = ring_capacity r"
proof -
  have "ring_reset emp fill r =
      r\<lparr>m_write_index := 0, m_read_index := 0, m_buf := replicate (unat (m_size r)) emp\<rparr>"
    using assms by (simp add: ring_reset_def ring_clear_buf ring_shape_def)
  then have "ring_rep emp (ring_reset emp fill r) []"
    and "ring_capacity (ring_reset emp fill r) = ring_capacity r"
    using assms(1) by (auto simp: ring_shape_def ring_capacity_def intro!: ring_rep_cleared)
  then show ?thesis by (auto intro: ring_wfI dest: ring_rep_contents)
qed

end
