(* ===== verification/Ring_Concurrent.thy ===== *)
theory Ring_Concurrent
  imports Ring_Buffer
begin

text \<open>
  \<^verbatim>\<open>include/ni/cds/spsc_ring_buffer.hh\<close> with its two threads running at the same time.
  \<open>push\<close> and \<open>pop\<close> are cut at their accesses to shared atomics, and a step relation
  interleaves the accesses of one producer and one consumer in any order. \<open>m_write_index\<close>
  is written by the producer only and \<open>m_read_index\<close> by the consumer only, so a thread's
  read of its own index is part of the access that follows it. Memory is sequentially
  consistent: each slot is published by a release store and read by an acquire load.
\<close>

section \<open>The accesses of push and pop\<close>

definition load_write_slot :: "'a ring \<Rightarrow> 'a" where
  "load_write_slot r = slot r (m_write_index r)"

definition store_write_slot :: "'a \<Rightarrow> 'a ring \<Rightarrow> 'a ring" where
  "store_write_slot x r = r\<lparr>m_buf := (m_buf r)[unat (m_write_index r) := x]\<rparr>"

definition advance_write :: "'a ring \<Rightarrow> 'a ring" where
  "advance_write r = r\<lparr>m_write_index := (m_write_index r + 1) AND m_mask r\<rparr>"

definition load_read_slot :: "'a ring \<Rightarrow> 'a" where
  "load_read_slot r = slot r (m_read_index r)"

definition store_read_slot :: "'a \<Rightarrow> 'a ring \<Rightarrow> 'a ring" where
  "store_read_slot x r = r\<lparr>m_buf := (m_buf r)[unat (m_read_index r) := x]\<rparr>"

definition advance_read :: "'a ring \<Rightarrow> 'a ring" where
  "advance_read r = r\<lparr>m_read_index := (m_read_index r + 1) AND m_mask r\<rparr>"

lemmas ring_access_defs =
  load_write_slot_def store_write_slot_def advance_write_def
  load_read_slot_def store_read_slot_def advance_read_def

text \<open>Run without interference, the accesses are the calls of \<open>Ring_Buffer\<close>.\<close>

lemma ring_push_accesses:
  "ring_push emp x r =
     (if load_write_slot r \<noteq> emp then (False, r)
      else (True, advance_write (store_write_slot x r)))"
  by (simp add: ring_push_def ring_available_def ring_access_defs Let_def)

lemma ring_pop_accesses:
  "ring_pop emp r =
     (let x = load_read_slot r in
      if x = emp then (emp, r) else (x, advance_read (store_read_slot emp r)))"
  by (simp add: ring_pop_def ring_access_defs Let_def)

section \<open>One producer and one consumer\<close>

text \<open>
  Where each thread is inside its call: before the load of \<open>available()\<close> or \<open>pop\<close>, before
  the store into the slot, before the update of the index.
\<close>

datatype 'a producer_pc = PIdle | PLoad 'a | PStore 'a | PAdvance

datatype 'a consumer_pc = CIdle | CLoad | CClear 'a | CAdvance 'a

text \<open>
  \<open>pushed\<close> and \<open>popped\<close> record the elements stored and returned so far; no step depends on
  them.
\<close>

record 'a spsc =
  shared :: "'a ring"
  prod :: "'a producer_pc"
  cons :: "'a consumer_pc"
  pushed :: "'a list"
  popped :: "'a list"

definition spsc_init :: "'a ring \<Rightarrow> 'a spsc" where
  "spsc_init r = \<lparr>shared = r, prod = PIdle, cons = CIdle, pushed = [], popped = []\<rparr>"

text \<open>
  A step is labelled with the call that takes effect in it: a push with its store, a push
  that returns false with its load, a pop with its store of \<open>Empty\<close>, a pop that returns
  \<open>Empty\<close> with its load. The caller never pushes \<open>Empty\<close> (the rule \<open>push_call\<close>).
\<close>

datatype 'a event = Tau | EnqOk 'a | EnqFull | DeqOk 'a | DeqEmpty

inductive spsc_step :: "'a \<Rightarrow> 'a spsc \<Rightarrow> 'a event \<Rightarrow> 'a spsc \<Rightarrow> bool" for emp :: 'a where
  push_call: "prod s = PIdle \<Longrightarrow> x \<noteq> emp \<Longrightarrow> spsc_step emp s Tau (s\<lparr>prod := PLoad x\<rparr>)"
| push_full: "prod s = PLoad x \<Longrightarrow> load_write_slot (shared s) \<noteq> emp \<Longrightarrow>
    spsc_step emp s EnqFull (s\<lparr>prod := PIdle\<rparr>)"
| push_free: "prod s = PLoad x \<Longrightarrow> load_write_slot (shared s) = emp \<Longrightarrow>
    spsc_step emp s Tau (s\<lparr>prod := PStore x\<rparr>)"
| push_store: "prod s = PStore x \<Longrightarrow>
    spsc_step emp s (EnqOk x)
      (s\<lparr>shared := store_write_slot x (shared s), prod := PAdvance, pushed := pushed s @ [x]\<rparr>)"
| push_advance: "prod s = PAdvance \<Longrightarrow>
    spsc_step emp s Tau (s\<lparr>shared := advance_write (shared s), prod := PIdle\<rparr>)"
| pop_call: "cons s = CIdle \<Longrightarrow> spsc_step emp s Tau (s\<lparr>cons := CLoad\<rparr>)"
| pop_none: "cons s = CLoad \<Longrightarrow> load_read_slot (shared s) = emp \<Longrightarrow>
    spsc_step emp s DeqEmpty (s\<lparr>cons := CIdle\<rparr>)"
| pop_some: "cons s = CLoad \<Longrightarrow> load_read_slot (shared s) = x \<Longrightarrow> x \<noteq> emp \<Longrightarrow>
    spsc_step emp s Tau (s\<lparr>cons := CClear x\<rparr>)"
| pop_clear: "cons s = CClear x \<Longrightarrow>
    spsc_step emp s (DeqOk x)
      (s\<lparr>shared := store_read_slot emp (shared s), cons := CAdvance x\<rparr>)"
| pop_advance: "cons s = CAdvance x \<Longrightarrow>
    spsc_step emp s Tau
      (s\<lparr>shared := advance_read (shared s), cons := CIdle, popped := popped s @ [x]\<rparr>)"

inductive spsc_run :: "'a \<Rightarrow> 'a spsc \<Rightarrow> 'a event list \<Rightarrow> 'a spsc \<Rightarrow> bool" for emp :: 'a where
  run_nil: "spsc_run emp s [] s"
| run_snoc: "spsc_run emp s es t \<Longrightarrow> spsc_step emp t e u \<Longrightarrow> spsc_run emp s (es @ [e]) u"

section \<open>Invariant\<close>

text \<open>
  Number the pushed elements 0, 1, 2, ...; element \<open>k\<close> lives in slot \<open>k mod n\<close>. The
  elements from \<open>cleared\<close> to \<open>length pushed\<close> are in their slots, and the rest of the \<open>n\<close>
  slots hold \<open>Empty\<close>. Each index lags one behind between the store and the update.
\<close>

definition cleared :: "'a spsc \<Rightarrow> nat" where
  "cleared s = length (popped s) + (case cons s of CAdvance _ \<Rightarrow> 1 | _ \<Rightarrow> 0)"

definition advanced :: "'a spsc \<Rightarrow> nat" where
  "advanced s = length (pushed s) - (case prod s of PAdvance \<Rightarrow> 1 | _ \<Rightarrow> 0)"

lemma lag_update [simp]:
  "cleared (s\<lparr>prod := p\<rparr>) = cleared s" "advanced (s\<lparr>cons := c\<rparr>) = advanced s"
  by (simp_all add: cleared_def advanced_def)

definition window_inv :: "'a \<Rightarrow> 'a list \<Rightarrow> 'a list \<Rightarrow> nat \<Rightarrow> bool" where
  "window_inv emp buf xs c \<longleftrightarrow> c \<le> length xs \<and> length xs \<le> c + length buf \<and>
     (\<forall>k. c \<le> k \<and> k < length xs \<longrightarrow> buf ! (k mod length buf) = xs ! k) \<and>
     (\<forall>k. length xs \<le> k \<and> k < c + length buf \<longrightarrow> buf ! (k mod length buf) = emp)"

definition index_inv :: "'a spsc \<Rightarrow> bool" where
  "index_inv s \<longleftrightarrow> ring_shape (shared s) \<and>
     unat (m_write_index (shared s)) = advanced s mod unat (m_size (shared s)) \<and>
     unat (m_read_index (shared s)) = length (popped s) mod unat (m_size (shared s))"

definition pc_inv :: "'a \<Rightarrow> 'a spsc \<Rightarrow> bool" where
  "pc_inv emp s \<longleftrightarrow>
     (case prod s of
        PIdle \<Rightarrow> True
      | PLoad x \<Rightarrow> x \<noteq> emp
      | PStore x \<Rightarrow> x \<noteq> emp \<and> length (pushed s) < cleared s + unat (m_size (shared s))
      | PAdvance \<Rightarrow> pushed s \<noteq> []) \<and>
     (case cons s of
        CClear x \<Rightarrow> cleared s < length (pushed s) \<and> x = pushed s ! cleared s
      | CAdvance x \<Rightarrow> length (popped s) < length (pushed s) \<and> x = pushed s ! length (popped s)
      | _ \<Rightarrow> True) \<and>
     emp \<notin> set (pushed s) \<and> popped s = take (length (popped s)) (pushed s)"

definition spsc_inv :: "'a \<Rightarrow> 'a spsc \<Rightarrow> bool" where
  "spsc_inv emp s \<longleftrightarrow>
     index_inv s \<and> pc_inv emp s \<and> window_inv emp (m_buf (shared s)) (pushed s) (cleared s)"

lemmas spsc_inv_defs = spsc_inv_def index_inv_def pc_inv_def

text \<open>The window under a store of the next element and under the clearing of the oldest.\<close>

lemma mod_window_neq:
  assumes "c \<le> i" "c \<le> j" "i < c + n" "j < c + n" "i \<noteq> j"
  shows "i mod n \<noteq> j mod (n::nat)"
proof -
  have "(c + (i - c)) mod n = (c + (j - c)) mod n \<longleftrightarrow> i - c = j - c"
    by (rule mod_add_cancel_less) (use assms in linarith)+
  then show ?thesis using assms by simp
qed

lemma window_push:
  assumes w: "window_inv emp buf xs c" and room: "length xs < c + length buf"
  shows "window_inv emp (buf[length xs mod length buf := x]) (xs @ [x]) c"
proof -
  have "0 < length buf" using w room by (auto simp: window_inv_def)
  then have lt: "length xs mod length buf < length buf" by simp
  have "(buf[length xs mod length buf := x]) ! (k mod length buf) =
      (if k = length xs then x else buf ! (k mod length buf))" if "c \<le> k" "k < c + length buf" for k
    using mod_window_neq [of c k "length xs" "length buf"] that w room lt
    by (auto simp: window_inv_def)
  then show ?thesis
    using w room by (auto simp: window_inv_def nth_append)
qed

lemma window_pop:
  assumes w: "window_inv emp buf xs c" and some: "c < length xs"
  shows "window_inv emp (buf[c mod length buf := emp]) xs (Suc c)"
proof -
  have "0 < length buf" using w some by (auto simp: window_inv_def)
  then have lt: "c mod length buf < length buf" by simp
  have old: "(buf[c mod length buf := emp]) ! (k mod length buf) = buf ! (k mod length buf)"
    if "c < k" "k < c + length buf" for k
    using mod_window_neq [of c k c "length buf"] that \<open>0 < length buf\<close> by auto
  have "(buf[c mod length buf := emp]) ! (k mod length buf) = emp"
    if "length xs \<le> k" "k < Suc c + length buf" for k
  proof (cases "k = c + length buf")
    case True
    then show ?thesis using lt by simp
  next
    case False
    then show ?thesis using old [of k] that w some by (auto simp: window_inv_def)
  qed
  then show ?thesis
    using w some old by (auto simp: window_inv_def)
qed

lemma spsc_inv_shape:
  assumes "spsc_inv emp s"
  shows "ring_shape (shared s)" "0 < unat (m_size (shared s))"
    "length (m_buf (shared s)) = unat (m_size (shared s))"
  using assms ring_shape_pos [of "shared s"] by (simp_all add: spsc_inv_defs ring_shape_def)

lemma load_write_slot_iff:
  assumes inv: "spsc_inv emp s" and pc: "advanced s = length (pushed s)"
  shows "load_write_slot (shared s) = emp \<longleftrightarrow>
    length (pushed s) < cleared s + unat (m_size (shared s))"
proof -
  let ?n = "unat (m_size (shared s))" and ?P = "length (pushed s)"
  note sh = spsc_inv_shape [OF inv]
  have w: "window_inv emp (m_buf (shared s)) (pushed s) (cleared s)"
    using inv by (simp add: spsc_inv_def)
  have slot: "load_write_slot (shared s) = m_buf (shared s) ! (?P mod ?n)"
    using inv pc by (simp add: load_write_slot_def slot_def spsc_inv_defs)
  show ?thesis
  proof (cases "?P < cleared s + ?n")
    case True
    then show ?thesis using w slot sh by (auto simp: window_inv_def)
  next
    case False
    then have P: "?P = cleared s + ?n" using w sh by (simp add: window_inv_def)
    then have "load_write_slot (shared s) = pushed s ! cleared s"
      using w slot sh by (auto simp: window_inv_def)
    moreover have "pushed s ! cleared s \<noteq> emp"
      using inv P sh by (auto simp: spsc_inv_defs)
    ultimately show ?thesis using False by simp
  qed
qed

lemma load_read_slot_eq:
  assumes inv: "spsc_inv emp s" and pc: "cleared s = length (popped s)"
  shows "load_read_slot (shared s) =
    (if cleared s < length (pushed s) then pushed s ! cleared s else emp)"
proof -
  have w: "window_inv emp (m_buf (shared s)) (pushed s) (cleared s)"
    using inv by (simp add: spsc_inv_def)
  have "load_read_slot (shared s) = m_buf (shared s) ! (cleared s mod unat (m_size (shared s)))"
    using inv pc by (simp add: load_read_slot_def slot_def spsc_inv_defs)
  then show ?thesis
    using w spsc_inv_shape [OF inv] by (auto simp: window_inv_def)
qed

lemma load_read_slot_emp:
  assumes "spsc_inv emp s" and "cleared s = length (popped s)"
  shows "load_read_slot (shared s) = emp \<longleftrightarrow> length (pushed s) = cleared s"
proof -
  have "pushed s ! cleared s \<noteq> emp" if "cleared s < length (pushed s)"
    using assms that by (auto simp: spsc_inv_defs)
  moreover have "cleared s \<le> length (pushed s)"
    using assms by (simp add: spsc_inv_def window_inv_def)
  ultimately show ?thesis
    using load_read_slot_eq [OF assms] by auto
qed

text \<open>The two index updates keep the shape and move the index to the next element.\<close>

lemma advance_simps [simp]:
  "m_size (advance_write r) = m_size r" "m_size (advance_read r) = m_size r"
  "m_buf (advance_write r) = m_buf r" "m_buf (advance_read r) = m_buf r"
  "m_read_index (advance_write r) = m_read_index r"
  "m_write_index (advance_read r) = m_write_index r"
  by (simp_all add: ring_access_defs)

lemma store_simps [simp]:
  "m_size (store_write_slot x r) = m_size r" "m_size (store_read_slot x r) = m_size r"
  "m_write_index (store_write_slot x r) = m_write_index r"
  "m_read_index (store_write_slot x r) = m_read_index r"
  "m_write_index (store_read_slot x r) = m_write_index r"
  "m_read_index (store_read_slot x r) = m_read_index r"
  "ring_shape (store_write_slot x r) = ring_shape r"
  "ring_shape (store_read_slot x r) = ring_shape r"
  "m_buf (store_write_slot x r) = (m_buf r)[unat (m_write_index r) := x]"
  "m_buf (store_read_slot x r) = (m_buf r)[unat (m_read_index r) := x]"
  by (simp_all add: ring_access_defs ring_shape_def)

lemma advance_write_shape:
  assumes "ring_shape r"
  shows "ring_shape (advance_write r)"
    "unat (m_write_index (advance_write r)) = (unat (m_write_index r) + 1) mod unat (m_size r)"
proof -
  show "unat (m_write_index (advance_write r)) = (unat (m_write_index r) + 1) mod unat (m_size r)"
    using assms pow2_size_advance by (simp add: ring_shape_def advance_write_def)
  then have "m_write_index (advance_write r) < m_size r"
    using ring_shape_pos [OF assms] by (simp add: word_less_nat_alt)
  then show "ring_shape (advance_write r)"
    using assms by (simp add: ring_shape_def advance_write_def)
qed

lemma advance_read_shape:
  assumes "ring_shape r"
  shows "ring_shape (advance_read r)"
    "unat (m_read_index (advance_read r)) = (unat (m_read_index r) + 1) mod unat (m_size r)"
proof -
  show "unat (m_read_index (advance_read r)) = (unat (m_read_index r) + 1) mod unat (m_size r)"
    using assms pow2_size_advance by (simp add: ring_shape_def advance_read_def)
  then have "m_read_index (advance_read r) < m_size r"
    using ring_shape_pos [OF assms] by (simp add: word_less_nat_alt)
  then show "ring_shape (advance_read r)"
    using assms by (simp add: ring_shape_def advance_read_def)
qed

section \<open>The bounded queue that the calls implement\<close>

definition spsc_queue :: "'a spsc \<Rightarrow> 'a list" where
  "spsc_queue s = drop (cleared s) (pushed s)"

text \<open>The effect a labelled step must have on a queue of at most \<open>cap\<close> elements.\<close>

fun queue_event :: "nat \<Rightarrow> 'a event \<Rightarrow> 'a list \<Rightarrow> 'a list \<Rightarrow> bool" where
  "queue_event cap Tau q q' \<longleftrightarrow> q' = q"
| "queue_event cap (EnqOk x) q q' \<longleftrightarrow> length q < cap \<and> q' = q @ [x]"
| "queue_event cap EnqFull q q' \<longleftrightarrow> length q = cap \<and> q' = q"
| "queue_event cap (DeqOk x) q q' \<longleftrightarrow> q = x # q'"
| "queue_event cap DeqEmpty q q' \<longleftrightarrow> q = [] \<and> q' = q"

lemma spsc_step_producer:
  assumes inv: "spsc_inv emp s"
  shows "prod s = PStore x \<Longrightarrow> t = s\<lparr>shared := store_write_slot x (shared s), prod := PAdvance,
      pushed := pushed s @ [x]\<rparr> \<Longrightarrow>
      spsc_inv emp t \<and> queue_event (unat (m_size (shared s))) (EnqOk x) (spsc_queue s) (spsc_queue t)"
    and "prod s = PAdvance \<Longrightarrow> t = s\<lparr>shared := advance_write (shared s), prod := PIdle\<rparr> \<Longrightarrow>
      spsc_inv emp t \<and> spsc_queue t = spsc_queue s"
proof -
  note sh = spsc_inv_shape [OF inv]
  let ?n = "unat (m_size (shared s))"
  have w: "window_inv emp (m_buf (shared s)) (pushed s) (cleared s)"
    using inv by (simp add: spsc_inv_def)
  {
    assume pc: "prod s = PStore x" and t: "t = s\<lparr>shared := store_write_slot x (shared s),
      prod := PAdvance, pushed := pushed s @ [x]\<rparr>"
    have adv: "advanced s = length (pushed s)" "advanced t = length (pushed s)"
      "cleared t = cleared s"
      using pc t by (simp_all add: advanced_def cleared_def)
    have room: "length (pushed s) < cleared s + ?n"
      using inv pc by (simp add: spsc_inv_defs)
    have idx: "unat (m_write_index (shared s)) = length (pushed s) mod ?n"
      using inv adv by (simp add: spsc_inv_defs)
    have win: "window_inv emp (m_buf (shared t)) (pushed t) (cleared t)"
      using window_push [OF w, of x] room sh t adv by (simp add: idx)
    have "index_inv t"
      using inv adv t by (simp add: spsc_inv_defs)
    moreover have "pc_inv emp t"
      using inv pc t adv by (auto simp: spsc_inv_defs nth_append split: consumer_pc.splits)
    moreover have "cleared s \<le> length (pushed s)"
      using w by (simp add: window_inv_def)
    ultimately show "spsc_inv emp t \<and> queue_event ?n (EnqOk x) (spsc_queue s) (spsc_queue t)"
      using win room adv t by (auto simp: spsc_inv_def spsc_queue_def)
  }
  {
    assume pc: "prod s = PAdvance" and t: "t = s\<lparr>shared := advance_write (shared s), prod := PIdle\<rparr>"
    have ne: "pushed s \<noteq> []" using inv pc by (simp add: spsc_inv_defs)
    have c: "cleared t = cleared s" using t by (simp add: cleared_def)
    have idx: "unat (m_write_index (shared t)) = (advanced s + 1) mod ?n"
      using advance_write_shape(2) [OF sh(1)] inv t
      by (simp add: spsc_inv_defs mod_Suc_eq)
    have "advanced s + 1 = advanced t"
      using pc t ne by (simp add: advanced_def)
    then have "index_inv t"
      using idx inv t advance_write_shape(1) [OF sh(1)] by (simp add: spsc_inv_defs)
    moreover have "pc_inv emp t"
      using inv pc t c by (auto simp: spsc_inv_defs split: consumer_pc.splits)
    ultimately show "spsc_inv emp t \<and> spsc_queue t = spsc_queue s"
      using w t c by (simp add: spsc_inv_def spsc_queue_def)
  }
qed

lemma spsc_step_consumer:
  assumes inv: "spsc_inv emp s"
  shows "cons s = CClear x \<Longrightarrow>
      t = s\<lparr>shared := store_read_slot emp (shared s), cons := CAdvance x\<rparr> \<Longrightarrow>
      spsc_inv emp t \<and> queue_event cap (DeqOk x) (spsc_queue s) (spsc_queue t)"
    and "cons s = CAdvance x \<Longrightarrow>
      t = s\<lparr>shared := advance_read (shared s), cons := CIdle, popped := popped s @ [x]\<rparr> \<Longrightarrow>
      spsc_inv emp t \<and> spsc_queue t = spsc_queue s"
proof -
  note sh = spsc_inv_shape [OF inv]
  let ?n = "unat (m_size (shared s))"
  have w: "window_inv emp (m_buf (shared s)) (pushed s) (cleared s)"
    using inv by (simp add: spsc_inv_def)
  {
    assume pc: "cons s = CClear x"
      and t: "t = s\<lparr>shared := store_read_slot emp (shared s), cons := CAdvance x\<rparr>"
    have c: "cleared s = length (popped s)" "cleared t = Suc (cleared s)" "advanced t = advanced s"
      using pc t by (simp_all add: cleared_def advanced_def)
    have some: "cleared s < length (pushed s)" "x = pushed s ! cleared s"
      using inv pc by (simp_all add: spsc_inv_defs)
    have "unat (m_read_index (shared s)) = cleared s mod ?n"
      using inv c by (simp add: spsc_inv_defs)
    then have win: "window_inv emp (m_buf (shared t)) (pushed t) (cleared t)"
      using window_pop [OF w some(1)] sh t c by simp
    have "index_inv t"
      using inv t c by (simp add: spsc_inv_defs)
    moreover have "pc_inv emp t"
      using inv t c some by (auto simp: spsc_inv_defs split: producer_pc.splits)
    moreover have "spsc_queue s = x # spsc_queue t"
      using some t c by (simp add: spsc_queue_def Cons_nth_drop_Suc)
    ultimately show "spsc_inv emp t \<and> queue_event cap (DeqOk x) (spsc_queue s) (spsc_queue t)"
      using win by (simp add: spsc_inv_def)
  }
  {
    assume pc: "cons s = CAdvance x"
      and t: "t = s\<lparr>shared := advance_read (shared s), cons := CIdle, popped := popped s @ [x]\<rparr>"
    have c: "cleared t = cleared s" "advanced t = advanced s" "cleared s = Suc (length (popped s))"
      using pc t by (simp_all add: cleared_def advanced_def)
    have x: "length (popped s) < length (pushed s)" "x = pushed s ! length (popped s)"
      "popped s = take (length (popped s)) (pushed s)"
      using inv pc by (auto simp: spsc_inv_defs)
    have idx: "unat (m_read_index (shared t)) = length (popped t) mod ?n"
      using advance_read_shape(2) [OF sh(1)] inv t by (simp add: spsc_inv_defs mod_Suc_eq)
    have "index_inv t"
      using idx inv t c advance_read_shape(1) [OF sh(1)] by (simp add: spsc_inv_defs)
    moreover have "popped t = take (length (popped t)) (pushed t)"
      using x t by (simp add: take_Suc_conv_app_nth)
    then have "pc_inv emp t"
      using inv t c x(1) by (auto simp: spsc_inv_defs min_def split: producer_pc.splits)
    ultimately show "spsc_inv emp t \<and> spsc_queue t = spsc_queue s"
      using w t c by (simp add: spsc_inv_def spsc_queue_def)
  }
qed

inductive_cases spsc_stepE: "spsc_step emp s e t"

text \<open>
  Every access keeps the invariant, and the abstract queue changes exactly as the label says:
  \<open>EnqFull\<close> only on a full queue, \<open>DeqEmpty\<close> only on an empty one.
\<close>

lemma spsc_step_simulates:
  assumes "spsc_step emp s e t" and inv: "spsc_inv emp s"
  shows "spsc_inv emp t \<and> unat (m_size (shared t)) = unat (m_size (shared s)) \<and>
    queue_event (unat (m_size (shared s))) e (spsc_queue s) (spsc_queue t)"
  using assms(1)
proof cases
  case (push_call x)
  then show ?thesis
    using inv by (auto simp: spsc_inv_defs advanced_def spsc_queue_def split: consumer_pc.splits)
next
  case (push_full x)
  then have "advanced s = length (pushed s)" by (simp add: advanced_def)
  from load_write_slot_iff [OF inv this] push_full
  have "length (pushed s) = cleared s + unat (m_size (shared s))"
    using inv spsc_inv_shape [OF inv] by (simp add: spsc_inv_def window_inv_def)
  then show ?thesis
    using inv push_full by (auto simp: spsc_inv_defs advanced_def spsc_queue_def split: consumer_pc.splits)
next
  case (push_free x)
  then have "advanced s = length (pushed s)" by (simp add: advanced_def)
  from load_write_slot_iff [OF inv this] push_free show ?thesis
    using inv by (auto simp: spsc_inv_defs advanced_def spsc_queue_def split: consumer_pc.splits)
next
  case (push_store x)
  then show ?thesis using spsc_step_producer(1) [OF inv, of x t] by simp
next
  case push_advance
  then show ?thesis using spsc_step_producer(2) [OF inv, of t] by simp
next
  case pop_call
  then show ?thesis
    using inv by (auto simp: spsc_inv_defs cleared_def spsc_queue_def split: producer_pc.splits)
next
  case pop_none
  then have c: "cleared s = length (popped s)" by (simp add: cleared_def)
  then have t: "cleared t = cleared s" using pop_none by (simp add: cleared_def)
  have "spsc_inv emp t"
    using inv pop_none c t by (simp add: spsc_inv_defs split: producer_pc.splits)
  moreover have "spsc_queue s = []" "spsc_queue t = []"
    using load_read_slot_emp [OF inv c] pop_none t by (simp_all add: spsc_queue_def)
  ultimately show ?thesis using pop_none by simp
next
  case (pop_some x)
  then have c: "cleared s = length (popped s)" by (simp add: cleared_def)
  then have "cleared s < length (pushed s) \<and> x = pushed s ! cleared s"
    using load_read_slot_eq [OF inv c] pop_some by (simp split: if_splits)
  then show ?thesis
    using inv pop_some(1-3) c
    by (simp add: spsc_inv_defs cleared_def spsc_queue_def split: producer_pc.splits)
next
  case (pop_clear x)
  then show ?thesis using spsc_step_consumer(1) [OF inv, of x t] by simp
next
  case (pop_advance x)
  then show ?thesis using spsc_step_consumer(2) [OF inv, of x t] by simp
qed

lemma spsc_inv_init: "ring_rep emp r [] \<Longrightarrow> m_write_index r = 0 \<Longrightarrow> spsc_inv emp (spsc_init r)"
  using ring_shape_pos [of r] ring_shape_bounds [of r]
  by (auto simp: spsc_inv_defs spsc_init_def ring_rep_def advanced_def cleared_def window_inv_def
      ring_slots_def ring_shape_def)

section \<open>Runs\<close>

fun queue_apply :: "nat \<Rightarrow> 'a event \<Rightarrow> 'a list \<Rightarrow> 'a list option" where
  "queue_apply cap Tau q = Some q"
| "queue_apply cap (EnqOk x) q = (if length q < cap then Some (q @ [x]) else None)"
| "queue_apply cap EnqFull q = (if length q = cap then Some q else None)"
| "queue_apply cap (DeqOk x) q =
     (case q of [] \<Rightarrow> None | y # ys \<Rightarrow> if x = y then Some ys else None)"
| "queue_apply cap DeqEmpty q = (if q = [] then Some q else None)"

fun queue_replay :: "nat \<Rightarrow> 'a event list \<Rightarrow> 'a list \<Rightarrow> 'a list option" where
  "queue_replay cap [] q = Some q"
| "queue_replay cap (e # es) q =
     (case queue_apply cap e q of None \<Rightarrow> None | Some q' \<Rightarrow> queue_replay cap es q')"

lemma queue_event_apply: "queue_event cap e q q' \<Longrightarrow> queue_apply cap e q = Some q'"
  by (cases e) auto

lemma queue_replay_snoc:
  "queue_replay cap (es @ [e]) q =
     (case queue_replay cap es q of None \<Rightarrow> None | Some q' \<Rightarrow> queue_apply cap e q')"
  by (induction cap es q rule: queue_replay.induct) (auto split: option.splits)

definition enqueued :: "'a event list \<Rightarrow> 'a list" where
  "enqueued es = concat (map (\<lambda>e. case e of EnqOk x \<Rightarrow> [x] | _ \<Rightarrow> []) es)"

definition dequeued :: "'a event list \<Rightarrow> 'a list" where
  "dequeued es = concat (map (\<lambda>e. case e of DeqOk x \<Rightarrow> [x] | _ \<Rightarrow> []) es)"

lemma queue_replay_fifo:
  "queue_replay cap es q = Some q' \<Longrightarrow> q @ enqueued es = dequeued es @ q'"
proof (induction es arbitrary: q)
  case Nil
  then show ?case by (simp add: enqueued_def dequeued_def)
next
  case (Cons e es)
  then obtain q1 where q1: "queue_apply cap e q = Some q1" "queue_replay cap es q1 = Some q'"
    by (auto split: option.splits)
  have "q @ enqueued (e # es) = dequeued [e] @ q1 @ enqueued es"
    using q1(1) by (cases e) (auto simp: enqueued_def dequeued_def split: if_splits list.splits)
  then show ?case
    using Cons.IH [OF q1(2)] by (simp add: dequeued_def)
qed

lemma spsc_run_inv:
  assumes "spsc_run emp s es t" "spsc_inv emp s"
  shows "spsc_inv emp t \<and> unat (m_size (shared t)) = unat (m_size (shared s)) \<and>
    queue_replay (unat (m_size (shared s))) es (spsc_queue s) = Some (spsc_queue t)"
  using assms
proof (induction rule: spsc_run.induct)
  case (run_nil s)
  then show ?case by simp
next
  case (run_snoc s es t e u)
  then show ?case
    using spsc_step_simulates [OF run_snoc.hyps(2)] by (auto simp: queue_replay_snoc queue_event_apply)
qed

lemma ring_new_spsc_inv:
  assumes "fills_empty emp fill" "length mem = unat sz" "ring_new emp fill rc mem sz = Inr r"
  shows "spsc_inv emp (spsc_init r) \<and> m_size r = sz \<and> spsc_queue (spsc_init r) = []"
proof -
  have "ring_rep emp r []" "m_size r = sz"
    using ring_new_Inr [OF assms(1) assms(2) assms(3)] by auto
  moreover have "m_write_index r = 0"
    using assms(3) by (auto simp: ring_new_def bindE_Inr_iff ring_clear_def split: if_splits filler.splits)
  ultimately show ?thesis
    using spsc_inv_init by (auto simp: spsc_queue_def spsc_init_def cleared_def)
qed

text \<open>How many accesses a thread still has to make before its call returns.\<close>

definition producer_rank :: "'a producer_pc \<Rightarrow> nat" where
  "producer_rank p = (case p of PIdle \<Rightarrow> 0 | PAdvance \<Rightarrow> 1 | PStore _ \<Rightarrow> 2 | PLoad _ \<Rightarrow> 3)"

definition consumer_rank :: "'a consumer_pc \<Rightarrow> nat" where
  "consumer_rank c = (case c of CIdle \<Rightarrow> 0 | CAdvance _ \<Rightarrow> 1 | CClear _ \<Rightarrow> 2 | CLoad \<Rightarrow> 3)"

lemma spsc_run_extend:
  "spsc_run emp s es t \<Longrightarrow> spsc_step emp t e u \<Longrightarrow> es' = es @ [e] \<Longrightarrow> spsc_run emp s es' u"
  by (auto intro: spsc_run.run_snoc)

lemma spsc_example_run:
  "\<exists>r t. ring_new (0 :: int) FillUnit 0 [0, 0] 2 = Inr r \<and>
    spsc_run 0 (spsc_init r) [Tau, Tau, EnqOk 5] t"
proof -
  obtain r where r: "ring_new (0 :: int) FillUnit 0 [0, 0] 2 = Inr r"
    by (simp add: ring_new_def)
  have "load_write_slot r = 0"
    using load_write_slot_iff [of 0 "spsc_init r"]
      ring_new_spsc_inv [OF _ _ r] by (simp add: fills_empty_def spsc_init_def advanced_def cleared_def)
  note free = this
  let ?s = "spsc_init r"
  have "spsc_step 0 ?s Tau (?s\<lparr>prod := PLoad 5\<rparr>)"
    by (rule spsc_step.push_call) (simp_all add: spsc_init_def)
  then have 1: "spsc_run 0 ?s [Tau] (?s\<lparr>prod := PLoad 5\<rparr>)"
    by (rule spsc_run_extend [OF spsc_run.run_nil]) simp
  have "spsc_step 0 (?s\<lparr>prod := PLoad 5\<rparr>) Tau (?s\<lparr>prod := PLoad 5\<rparr>\<lparr>prod := PStore 5\<rparr>)"
    by (rule spsc_step.push_free) (simp_all add: spsc_init_def free)
  with 1 have 2: "spsc_run 0 ?s [Tau, Tau] (?s\<lparr>prod := PLoad 5\<rparr>\<lparr>prod := PStore 5\<rparr>)"
    by (rule spsc_run_extend) simp
  obtain t where "spsc_step 0 (?s\<lparr>prod := PLoad 5\<rparr>\<lparr>prod := PStore 5\<rparr>) (EnqOk 5) t"
    using spsc_step.push_store [of "?s\<lparr>prod := PLoad 5\<rparr>\<lparr>prod := PStore 5\<rparr>" 5 0] by auto
  with 2 have "spsc_run 0 ?s [Tau, Tau, EnqOk 5] t"
    by (rule spsc_run_extend) simp
  with r show ?thesis by blast
qed

section \<open>Properties\<close>

text \<open>
  C1: Whatever way the accesses of one producer and one consumer interleave on a freshly
  constructed ring, the calls take effect in some order as on a queue bounded by the size:
  replaying the labels of the run on a list queue succeeds, so a push reports a full ring
  only when \<open>size\<close> elements are queued, a pop reports \<open>Empty\<close> only on an empty queue, and
  every pop delivers the oldest element.
\<close>

theorem spsc_linearizable:
  assumes "fills_empty emp fill" and "length mem = unat sz"
    and "ring_new emp fill rc mem sz = Inr r" and "spsc_run emp (spsc_init r) es t"
  shows "queue_replay (unat sz) es [] = Some (spsc_queue t)"
  using spsc_run_inv [OF assms(4)] ring_new_spsc_inv [OF assms(1-3)] by (auto simp: spsc_init_def)

theorem spsc_linearizable_witness:
  "\<exists>r t. ring_new (0 :: int) FillUnit 0 [0, 0] 2 = Inr r \<and>
    spsc_run 0 (spsc_init r) [Tau, Tau, EnqOk 5] t \<and>
    queue_replay 2 [Tau, Tau, EnqOk (5 :: int)] [] = Some (spsc_queue t)"
proof -
  obtain r t where r: "ring_new (0 :: int) FillUnit 0 [0, 0] 2 = Inr r"
    and t: "spsc_run 0 (spsc_init r) [Tau, Tau, EnqOk 5] t"
    using spsc_example_run by blast
  have "queue_replay (unat (2 :: u64)) [Tau, Tau, EnqOk (5 :: int)] [] = Some (spsc_queue t)"
    by (rule spsc_linearizable [OF _ _ r t]) (simp_all add: fills_empty_def)
  then show ?thesis using r t by auto
qed

text \<open>
  In every interleaving the elements dequeued are a prefix, in order, of the elements
  enqueued (nothing is lost, duplicated, reordered or invented), and at most \<open>size\<close> elements
  are in between.
\<close>

lemma spsc_fifo:
  assumes "fills_empty emp fill" and "length mem = unat sz"
    and "ring_new emp fill rc mem sz = Inr r" and "spsc_run emp (spsc_init r) es t"
  shows "\<exists>q. enqueued es = dequeued es @ q \<and> length q \<le> unat sz"
proof -
  have inv: "spsc_inv emp t" "m_size (shared t) = sz"
    and rep: "queue_replay (unat sz) es [] = Some (spsc_queue t)"
    using spsc_run_inv [OF assms(4)] ring_new_spsc_inv [OF assms(1-3)]
    by (auto simp: spsc_init_def intro: unsigned_word_eqI)
  then have "length (spsc_queue t) \<le> unat sz"
    using spsc_inv_shape [OF inv(1)] by (auto simp: spsc_inv_def window_inv_def spsc_queue_def)
  then show ?thesis
    using queue_replay_fifo [OF rep] by auto
qed



end
