(* ===== verification/Node_Heap.thy ===== *)
theory Node_Heap
  imports Prelude
begin

text \<open>
  Heaps of linked nodes, as the Michael-Scott queue and the linked list of the library keep
  them: what \<open>operator new\<close> and \<open>operator delete\<close> do, and chains of nodes from an address to
  the null pointer, whatever the node type is.
\<close>

section \<open>Allocation\<close>

text \<open>
  What \<open>operator new\<close> returns is the argument \<open>alloc\<close>: an address for the heap at hand, or
  \<open>None\<close> for \<open>std::bad_alloc\<close>. The hypothesis \<open>alloc_ok\<close> states what the code relies on:
  a returned address is not in use, not null and fits into the 48 bits of a user-space
  pointer.
\<close>

type_synonym 'n alloc = "(addr \<rightharpoonup> 'n) \<Rightarrow> addr option"

definition alloc_ok :: "'n alloc \<Rightarrow> bool" where
  "alloc_ok alloc \<longleftrightarrow>
     (\<forall>h a. alloc h = Some a \<longrightarrow> h a = None \<and> a \<noteq> nullptr \<and> take_bit 48 a = a)"

definition node_addr :: "addr \<Rightarrow> bool" where
  "node_addr a \<longleftrightarrow> a \<noteq> nullptr \<and> take_bit 48 a = a"

definition delete_node :: "addr \<Rightarrow> (addr \<rightharpoonup> 'n) \<Rightarrow> (addr \<rightharpoonup> 'n) result" where
  "delete_node a h = (case h a of None \<Rightarrow> Inl (BadDeref a) | Some _ \<Rightarrow> Inr (h(a := None)))"

text \<open>The allocator has room for \<open>n\<close> nodes.\<close>

definition alloc_room :: "nat \<Rightarrow> 'n alloc \<Rightarrow> bool" where
  "alloc_room n alloc \<longleftrightarrow> alloc_ok alloc \<and>
     (\<forall>h. finite (dom h) \<and> card (dom h) < n \<longrightarrow> alloc h \<noteq> None)"

text \<open>
  An allocator that hands out the first free address of a list, used to evaluate the model on
  concrete inputs; and the restriction of any allocator to the results \<open>alloc_ok\<close> allows.
\<close>

definition pool_alloc :: "addr list \<Rightarrow> 'n alloc" where
  "pool_alloc pool h = (case filter (\<lambda>a. h a = None) pool of [] \<Rightarrow> None | a # _ \<Rightarrow> Some a)"

definition checked_alloc :: "'n alloc \<Rightarrow> 'n alloc" where
  "checked_alloc alloc h =
     (case alloc h of
        None \<Rightarrow> None
      | Some a \<Rightarrow> if h a = None \<and> a \<noteq> nullptr \<and> take_bit 48 a = a then Some a else None)"

lemma checked_alloc_ok [simp]: "alloc_ok (checked_alloc alloc)"
  by (auto simp: alloc_ok_def checked_alloc_def split: option.splits if_splits)

lemma checked_alloc_id: "alloc_ok alloc \<Longrightarrow> checked_alloc alloc = alloc"
  by (rule ext) (auto simp: alloc_ok_def checked_alloc_def split: option.split)

lemma node_addr_simps: "node_addr a \<Longrightarrow> a \<noteq> nullptr" "node_addr a \<Longrightarrow> take_bit 48 a = a"
  by (simp_all add: node_addr_def)

lemma pool_alloc_room:
  assumes "distinct pool" "list_all node_addr pool"
  shows "alloc_room (length pool) (pool_alloc pool)"
  unfolding alloc_room_def
proof (intro conjI allI impI)
  have "a \<in> set pool \<and> h a = None" if "pool_alloc pool h = Some a" for h :: "addr \<rightharpoonup> 'a" and a
    using that filter_set [of "\<lambda>a. h a = None" pool]
    by (cases "filter (\<lambda>a. h a = None) pool") (auto simp: pool_alloc_def)
  then show "alloc_ok (pool_alloc pool :: 'a alloc)"
    using assms(2) by (auto simp: alloc_ok_def list_all_iff node_addr_simps)
  fix h :: "addr \<rightharpoonup> 'a"
  assume h: "finite (dom h) \<and> card (dom h) < length pool"
  have "\<not> set pool \<subseteq> dom h"
    using h card_mono [of "dom h" "set pool"] distinct_card [OF assms(1)] by auto
  then obtain a where "a \<in> set pool" "h a = None" by auto
  then have "filter (\<lambda>a. h a = None) pool \<noteq> []" by (auto simp: filter_empty_conv)
  then show "pool_alloc pool h \<noteq> None"
    by (auto simp: pool_alloc_def split: list.split)
qed

lemma alloc_room_mono: "alloc_room n alloc \<Longrightarrow> m \<le> n \<Longrightarrow> alloc_room m alloc"
  by (auto simp: alloc_room_def)

lemma pool_alloc_four: "alloc_room 4 (pool_alloc [1, 2, 3, 4])"
proof -
  have "alloc_room (length [1, 2, 3, 4 :: addr]) (pool_alloc [1, 2, 3, 4])"
    by (rule pool_alloc_room) (simp_all add: node_addr_def)
  moreover have "length [1, 2, 3, 4 :: addr] = 4" by simp
  ultimately show ?thesis by (simp only:)
qed

lemma alloc_ok_four: "alloc_ok (pool_alloc [1, 2, 3, 4])"
  by (rule pool_alloc_four [unfolded alloc_room_def, THEN conjunct1])

section \<open>Chains\<close>

text \<open>
  \<open>chain nx vl h a bs\<close>: from node \<open>a\<close> the next pointers, read by \<open>nx\<close>, lead through the nodes
  of \<open>bs\<close>, which hold the listed values, read by \<open>vl\<close>, and end in null.
\<close>

fun chain :: "('n \<Rightarrow> addr) \<Rightarrow> ('n \<Rightarrow> 'a) \<Rightarrow> (addr \<rightharpoonup> 'n) \<Rightarrow> addr \<Rightarrow> (addr \<times> 'a) list \<Rightarrow> bool" where
  "chain nx vl h a [] \<longleftrightarrow> (case h a of None \<Rightarrow> False | Some n \<Rightarrow> nx n = nullptr)"
| "chain nx vl h a ((b, x) # bs) \<longleftrightarrow>
     (case h a of None \<Rightarrow> False | Some n \<Rightarrow> nx n = b) \<and>
     (case h b of None \<Rightarrow> False | Some m \<Rightarrow> vl m = x) \<and> chain nx vl h b bs"

definition nodes :: "addr \<Rightarrow> (addr \<times> 'a) list \<Rightarrow> addr list" where
  "nodes a bs = a # map fst bs"

lemma nodes_simps [simp]:
  "nodes a [] = [a]"
  "nodes a (b # bs) = a # nodes (fst b) bs"
  "nodes a (bs @ [b]) = nodes a bs @ [fst b]"
  "nodes a bs \<noteq> []"
  "a \<in> set (nodes a bs)"
  by (simp_all add: nodes_def)

lemma chain_cong:
  "(\<And>b. b \<in> set (nodes a bs) \<Longrightarrow> h b = h' b) \<Longrightarrow> chain nx vl h a bs = chain nx vl h' a bs"
  by (induction nx vl h a bs rule: chain.induct) auto

lemma chain_upd [simp]: "c \<notin> set (nodes a bs) \<Longrightarrow> chain nx vl (h(c := v)) a bs = chain nx vl h a bs"
  by (rule chain_cong) auto

lemma chain_live: "chain nx vl h a bs \<Longrightarrow> b \<in> set (nodes a bs) \<Longrightarrow> \<exists>n. h b = Some n"
  by (induction nx vl h a bs rule: chain.induct) (auto split: option.splits)

lemma chain_last:
  "chain nx vl h a bs \<Longrightarrow> \<exists>n. h (last (nodes a bs)) = Some n \<and> nx n = nullptr"
  by (induction nx vl h a bs rule: chain.induct) (auto split: option.splits)

lemma chain_append:
  assumes "chain nx vl h a bs" "distinct (nodes a bs)" "c \<notin> set (nodes a bs)"
    and "h (last (nodes a bs)) = Some n" "nx n' = c" "vl n' = vl n"
    and "h c = Some m" "nx m = nullptr" "vl m = x"
  shows "chain nx vl (h(last (nodes a bs) \<mapsto> n')) a (bs @ [(c, x)])"
  using assms
proof (induction bs arbitrary: a)
  case Nil
  then show ?case by (auto split: option.splits)
next
  case (Cons b bs)
  obtain b1 b2 where b: "b = (b1, b2)" by (cases b)
  have "last (nodes b1 bs) \<in> set (nodes b1 bs)" by (rule last_in_set) simp
  then have ne: "last (nodes b1 bs) \<noteq> a" "c \<noteq> a"
    using Cons.prems(2,3) b by auto
  define h' where "h' = h(last (nodes b1 bs) \<mapsto> n')"
  have "chain nx vl h' b1 (bs @ [(c, x)])"
    unfolding h'_def using Cons.prems b by (intro Cons.IH) (auto split: option.splits)
  moreover have "\<exists>m. h' b1 = Some m \<and> vl m = b2"
    using Cons.prems b by (cases "b1 = last (nodes b1 bs)") (auto simp: h'_def split: option.splits)
  moreover have "\<exists>n0. h' a = Some n0 \<and> nx n0 = b1"
    using Cons.prems(1) b ne by (auto simp: h'_def split: option.splits)
  ultimately have "chain nx vl h' a ((b # bs) @ [(c, x)])"
    using b by auto
  moreover have "last (nodes a (b # bs)) = last (nodes b1 bs)"
    by (simp add: b)
  ultimately show ?case
    by (simp only: h'_def)
qed

lemma chain_snocD:
  "chain nx vl h a (bs @ [(b, x)]) \<Longrightarrow>
   \<exists>n m. h (last (nodes a bs)) = Some n \<and> nx n = b \<and>
     h b = Some m \<and> vl m = x \<and> nx m = nullptr"
  by (induction bs arbitrary: a) (auto split: option.splits)

end
