(* ===== verification/Backend_Interface.thy ===== *)
theory Backend_Interface
  imports Prelude
begin

text \<open>
  What the distributed container \<open>LLDynamicDistributed<T>\<close> uses of its template argument
  \<open>T\<close>: construction and the calls \<open>put\<close>, \<open>get\<close>, \<open>pop\<close> with a state, \<open>empty\<close> and
  \<open>tail_state\<close>; and the laws it relies on.
\<close>

record ('b, 'e) backend_ops =
  backend_new :: "'b result"
  backend_put :: "'e \<Rightarrow> 'b \<Rightarrow> (bool \<times> 'b) result"
  backend_get :: "'e \<Rightarrow> 'b \<Rightarrow> (bool \<times> 'e \<times> 'b) result"
  backend_pop :: "'e \<Rightarrow> u16 \<Rightarrow> 'b \<Rightarrow> (bool \<times> 'e \<times> u16 \<times> 'b) result"
  backend_empty :: "'b \<Rightarrow> bool result"
  backend_tail_state :: "'b \<Rightarrow> u16"

locale backend =
  fixes ops :: "('b, 'e) backend_ops"
    and brep :: "'b \<Rightarrow> 'e list \<Rightarrow> bool"
  assumes new_rep: "backend_new ops = Inl BadAlloc \<or> (\<exists>b. backend_new ops = Inr b \<and> brep b [])"
    and put_rep: "brep b xs \<Longrightarrow> backend_put ops x b = Inl BadAlloc \<or>
      (\<exists>b'. backend_put ops x b = Inr (True, b') \<and> brep b' (xs @ [x]))"
    and get_nil: "brep b [] \<Longrightarrow> backend_get ops e b = Inr (False, e, b)"
    and get_cons: "brep b (x # xs) \<Longrightarrow> \<exists>b'. backend_get ops e b = Inr (True, x, b') \<and> brep b' xs"
    and pop_nil: "brep b [] \<Longrightarrow> backend_pop ops e s b = Inr (False, e, backend_tail_state ops b, b)"
    and pop_cons: "brep b (x # xs) \<Longrightarrow>
      \<exists>s' b'. backend_pop ops e s b = Inr (True, x, s', b') \<and> brep b' xs"
    and empty_rep: "brep b xs \<Longrightarrow> backend_empty ops b = Inr (xs = [])"

text \<open>
  What the second loop of \<open>get\<close> relies on besides: the state counts the elements put so far.
\<close>

locale versioned_backend = backend +
  assumes put_state: "brep b xs \<Longrightarrow> backend_put ops x b = Inr (ok, b') \<Longrightarrow>
      backend_tail_state ops b' = backend_tail_state ops b + 1"
    and get_state: "brep b xs \<Longrightarrow> backend_get ops e b = Inr (ok, e', b') \<Longrightarrow>
      backend_tail_state ops b' = backend_tail_state ops b"
    and pop_state: "brep b xs \<Longrightarrow> backend_pop ops e s b = Inr (ok, e', s', b') \<Longrightarrow>
      backend_tail_state ops b' = backend_tail_state ops b"

end
