(* ===== verification/MS_Queue.thy ===== *)
theory MS_Queue
  imports Tagged_Ptr Node_Heap Queue_Interface Backend_Interface
begin

text \<open>
  \<^verbatim>\<open>include/ni/cds/ms_queue.hh\<close> (class \<open>MSQueue\<close>) and the interface
  \<^verbatim>\<open>include/ni/cds/queue.hh\<close> (class \<open>Queue\<close>): the Michael-Scott queue on a heap of nodes,
  with head and tail as tagged pointers. The calls here run one after the other
  (\<open>MS_Concurrent\<close> has the same operations for any number of threads); a weak compare-exchange may still fail spuriously, as the list of booleans passed to a looping
  call says, and so leave the tail one node behind. An access to a node that is not live is
  the error \<open>BadDeref\<close>.
\<close>

section \<open>State\<close>

record 'a node =
  node_value :: 'a
  node_next :: atomic_tagged_ptr

record 'a msq =
  msq_heap :: "addr \<rightharpoonup> 'a node"
  m_head :: atomic_tagged_ptr
  m_tail :: atomic_tagged_ptr

definition new_node :: "'a node alloc \<Rightarrow> 'a \<Rightarrow> (addr \<rightharpoonup> 'a node) \<Rightarrow> (addr \<times> (addr \<rightharpoonup> 'a node)) result" where
  "new_node alloc x h =
     (case alloc h of
        None \<Rightarrow> Inl BadAlloc
      | Some a \<Rightarrow> Inr (a, h(a \<mapsto> \<lparr>node_value = x, node_next = atp_default\<rparr>)))"

definition load_next :: "(addr \<rightharpoonup> 'a node) \<Rightarrow> addr \<Rightarrow> tagged_ptr result" where
  "load_next h a = (case h a of None \<Rightarrow> Inl (BadDeref a) | Some n \<Rightarrow> Inr (atp_load (node_next n)))"

definition load_value :: "(addr \<rightharpoonup> 'a node) \<Rightarrow> addr \<Rightarrow> 'a result" where
  "load_value h a = (case h a of None \<Rightarrow> Inl (BadDeref a) | Some n \<Rightarrow> Inr (node_value n))"

text \<open>\<open>a->next.compare_exchange_weak(expected, desired)\<close> and its strong variant.\<close>

definition cas_next_weak ::
  "bool \<Rightarrow> addr \<Rightarrow> tagged_ptr \<Rightarrow> tagged_ptr \<Rightarrow> (addr \<rightharpoonup> 'a node) \<Rightarrow>
   (bool \<times> tagged_ptr \<times> (addr \<rightharpoonup> 'a node)) result" where
  "cas_next_weak spurious a expected desired h =
     (case h a of
        None \<Rightarrow> Inl (BadDeref a)
      | Some n \<Rightarrow>
          (let (ok, cell, expected') = atp_cas_weak spurious (node_next n) expected desired
           in Inr (ok, expected', h(a \<mapsto> n\<lparr>node_next := cell\<rparr>))))"

definition cas_next_strong ::
  "addr \<Rightarrow> tagged_ptr \<Rightarrow> tagged_ptr \<Rightarrow> (addr \<rightharpoonup> 'a node) \<Rightarrow>
   (bool \<times> tagged_ptr \<times> (addr \<rightharpoonup> 'a node)) result" where
  "cas_next_strong a expected desired h =
     (case h a of
        None \<Rightarrow> Inl (BadDeref a)
      | Some n \<Rightarrow>
          (let (ok, cell, expected') = atp_cas_strong (node_next n) expected desired
           in Inr (ok, expected', h(a \<mapsto> n\<lparr>node_next := cell\<rparr>))))"

definition spurious :: "bool list \<Rightarrow> bool" where
  "spurious sp = (case sp of [] \<Rightarrow> False | b # _ \<Rightarrow> b)"

section \<open>Operations\<close>

definition ms_new :: "'a node alloc \<Rightarrow> 'a \<Rightarrow> 'a msq result" where
  "ms_new alloc dflt =
     bindE (new_node alloc dflt (\<lambda>_. None)) (\<lambda>(node, h).
     bindE (tp_of_value node) (\<lambda>p.
     Inr \<lparr>msq_heap = h, m_head = atp_store atp_default p, m_tail = atp_store atp_default p\<rparr>))"

fun ms_delete_loop :: "nat \<Rightarrow> addr \<Rightarrow> addr \<Rightarrow> (addr \<rightharpoonup> 'a node) \<Rightarrow> (addr \<rightharpoonup> 'a node) result" where
  "ms_delete_loop 0 head tail h = Inl OutOfFuel"
| "ms_delete_loop (Suc fuel) head tail h =
     (if head \<noteq> tail then
        bindE (load_next h head) (\<lambda>next.
        bindE (delete_node head h) (\<lambda>h'.
        ms_delete_loop fuel (tp_value next) tail h'))
      else delete_node tail h)"

definition ms_delete :: "nat \<Rightarrow> 'a msq \<Rightarrow> (addr \<rightharpoonup> 'a node) result" where
  "ms_delete fuel q =
     ms_delete_loop fuel (tp_value (atp_load (m_head q))) (tp_value (atp_load (m_tail q))) (msq_heap q)"

fun ms_empty :: "nat \<Rightarrow> 'a msq \<Rightarrow> bool result" where
  "ms_empty 0 q = Inl OutOfFuel"
| "ms_empty (Suc fuel) q =
     (let old_head = atp_load (m_head q); old_tail = atp_load (m_tail q) in
      bindE (load_next (msq_heap q) (tp_value old_head)) (\<lambda>next.
      if tp_eq (atp_load (m_head q)) old_head
      then Inr (tp_value old_head = tp_value old_tail \<and> tp_value next = nullptr)
      else ms_empty fuel q))"

fun ms_push_loop ::
  "nat \<Rightarrow> bool list \<Rightarrow> addr \<Rightarrow> tagged_ptr \<Rightarrow> 'a msq \<Rightarrow> 'a msq result" where
  "ms_push_loop 0 sp node old_tail q = Inl OutOfFuel"
| "ms_push_loop (Suc fuel) sp node old_tail q =
     bindE (load_next (msq_heap q) (tp_value old_tail)) (\<lambda>next.
     if tp_neq (atp_load (m_tail q)) old_tail then
       ms_push_loop fuel sp node (atp_load (m_tail q)) q
     else if tp_value next = nullptr then
       bindE (tp_make node (tp_tag next + 1)) (\<lambda>linked.
       bindE (cas_next_weak (spurious sp) (tp_value old_tail) next linked (msq_heap q))
         (\<lambda>(ok, _, h).
       if ok then
         bindE (tp_make node (tp_tag old_tail + 1)) (\<lambda>desired.
         let (_, cell, _) = atp_cas_weak (spurious (tl sp)) (m_tail q) old_tail desired
         in Inr (q\<lparr>msq_heap := h, m_tail := cell\<rparr>))
       else
         ms_push_loop fuel (tl sp) node (atp_load (m_tail q)) (q\<lparr>msq_heap := h\<rparr>)))
     else
       bindE (tp_make (tp_value next) (tp_tag old_tail + 1)) (\<lambda>desired.
       let (_, cell, old_tail') = atp_cas_weak (spurious sp) (m_tail q) old_tail desired
       in ms_push_loop fuel (tl sp) node old_tail' (q\<lparr>m_tail := cell\<rparr>)))"

definition ms_push :: "nat \<Rightarrow> bool list \<Rightarrow> 'a node alloc \<Rightarrow> 'a \<Rightarrow> 'a msq \<Rightarrow> (bool \<times> 'a msq) result" where
  "ms_push fuel sp alloc x q =
     bindE (new_node alloc x (msq_heap q)) (\<lambda>(node, h).
     bindE (ms_push_loop fuel sp node (atp_load (m_tail q)) (q\<lparr>msq_heap := h\<rparr>)) (\<lambda>q'.
     Inr (True, q')))"

definition ms_try_push :: "'a node alloc \<Rightarrow> 'a \<Rightarrow> u16 \<Rightarrow> 'a msq \<Rightarrow> (bool \<times> 'a msq) result" where
  "ms_try_push alloc x old_tail_state q =
     (let old_tail = atp_load (m_tail q) in
      if tp_tag old_tail = old_tail_state then
        bindE (load_next (msq_heap q) (tp_value old_tail)) (\<lambda>next.
        if tp_value next = nullptr then
          bindE (new_node alloc x (msq_heap q)) (\<lambda>(node, h).
          bindE (tp_make node (tp_tag next + 1)) (\<lambda>linked.
          bindE (cas_next_strong (tp_value old_tail) next linked h) (\<lambda>(ok, _, h').
          if ok then
            bindE (tp_make node (tp_tag old_tail + 1)) (\<lambda>desired.
            let (_, cell, _) = atp_cas_strong (m_tail q) old_tail desired
            in Inr (True, q\<lparr>msq_heap := h', m_tail := cell\<rparr>))
          else
            bindE (delete_node node h') (\<lambda>h''. Inr (False, q\<lparr>msq_heap := h''\<rparr>)))))
        else
          bindE (tp_make (tp_value next) (tp_tag old_tail + 1)) (\<lambda>desired.
          let (_, cell, _) = atp_cas_strong (m_tail q) old_tail desired
          in Inr (False, q\<lparr>m_tail := cell\<rparr>)))
      else Inr (False, q))"

definition ms_tail_state :: "'a msq \<Rightarrow> u16" where
  "ms_tail_state q = tp_tag (atp_load (m_tail q))"

text \<open>
  \<open>pop\<close> writes through its two arguments: \<open>element\<close> is what \<open>*element\<close> holds, and
  \<open>head_state\<close> is \<open>None\<close> for a null pointer and otherwise what \<open>*head_state\<close> holds. It
  returns the result, the two values and the new queue.
\<close>

fun ms_pop_loop ::
  "nat \<Rightarrow> bool list \<Rightarrow> 'a \<Rightarrow> u16 option \<Rightarrow> 'a msq \<Rightarrow> (bool \<times> 'a \<times> u16 option \<times> 'a msq) result" where
  "ms_pop_loop 0 sp element head_state q = Inl OutOfFuel"
| "ms_pop_loop (Suc fuel) sp element head_state q =
     (let old_head = atp_load (m_head q); old_tail = atp_load (m_tail q) in
      bindE (load_next (msq_heap q) (tp_value old_head)) (\<lambda>next.
      if tp_neq (atp_load (m_head q)) old_head then ms_pop_loop fuel sp element head_state q
      else if tp_value old_head = tp_value old_tail then
        if tp_value next = nullptr then
          Inr (False, element, map_option (\<lambda>_. tp_tag old_tail) head_state, q)
        else
          bindE (tp_make (tp_value next) (tp_tag old_tail + 1)) (\<lambda>desired.
          let (_, cell, _) = atp_cas_weak (spurious sp) (m_tail q) old_tail desired
          in ms_pop_loop fuel (tl sp) element head_state (q\<lparr>m_tail := cell\<rparr>))
      else
        bindE (load_value (msq_heap q) (tp_value next)) (\<lambda>element'.
        bindE (tp_make (tp_value next) (tp_tag old_head + 1)) (\<lambda>desired.
        let (ok, cell, _) = atp_cas_weak (spurious sp) (m_head q) old_head desired
        in if ok then
             bindE (delete_node (tp_value old_head) (msq_heap q)) (\<lambda>h.
             Inr (True, element', map_option (\<lambda>_. tp_tag old_head) head_state,
                  q\<lparr>msq_heap := h, m_head := cell\<rparr>))
           else ms_pop_loop fuel (tl sp) element' head_state (q\<lparr>m_head := cell\<rparr>)))))"

definition ms_pop ::
  "nat \<Rightarrow> bool list \<Rightarrow> 'a \<Rightarrow> u16 option \<Rightarrow> 'a msq \<Rightarrow> (bool \<times> 'a \<times> u16 option \<times> 'a msq) result" where
  "ms_pop fuel sp element head_state q = ms_pop_loop fuel sp element head_state q"

datatype pop_result = Success | EmptyQueue | Failure

definition ms_try_pop ::
  "'a \<Rightarrow> u16 \<Rightarrow> u16 \<Rightarrow> 'a msq \<Rightarrow> (pop_result \<times> 'a \<times> u16 \<times> 'a msq) result" where
  "ms_try_pop element old_head_state head_state q =
     (let old_head = atp_load (m_head q); old_tail = atp_load (m_tail q) in
      bindE (load_next (msq_heap q) (tp_value old_head)) (\<lambda>next.
      if tp_tag old_head = old_head_state then
        if tp_value old_head = tp_value old_tail then
          if tp_value next = nullptr then Inr (EmptyQueue, element, tp_tag old_tail, q)
          else
            bindE (tp_make (tp_value next) (tp_tag old_tail + 1)) (\<lambda>desired.
            let (_, cell, _) = atp_cas_strong (m_tail q) old_tail desired
            in Inr (Failure, element, head_state, q\<lparr>m_tail := cell\<rparr>))
        else
          bindE (load_value (msq_heap q) (tp_value next)) (\<lambda>element'.
          bindE (tp_make (tp_value next) (tp_tag old_head + 1)) (\<lambda>desired.
          let (ok, cell, _) = atp_cas_strong (m_head q) old_head desired
          in if ok then
               bindE (delete_node (tp_value old_head) (msq_heap q)) (\<lambda>h.
               Inr (Success, element', head_state, q\<lparr>msq_heap := h, m_head := cell\<rparr>))
             else Inr (Failure, element', head_state, q\<lparr>m_head := cell\<rparr>)))
      else Inr (Failure, element, head_state, q)))"

text \<open>The interface class \<open>Queue\<close> forwards to the implementation.\<close>

definition queue_put :: "nat \<Rightarrow> bool list \<Rightarrow> 'a node alloc \<Rightarrow> 'a \<Rightarrow> 'a msq \<Rightarrow> (bool \<times> 'a msq) result" where
  "queue_put fuel sp alloc x q = ms_push fuel sp alloc x q"

definition queue_get :: "nat \<Rightarrow> bool list \<Rightarrow> 'a \<Rightarrow> 'a msq \<Rightarrow> (bool \<times> 'a \<times> 'a msq) result" where
  "queue_get fuel sp element q =
     bindE (ms_pop fuel sp element None q) (\<lambda>(ok, element', _, q'). Inr (ok, element', q'))"

section \<open>Representation\<close>

definition next_of :: "'a node \<Rightarrow> addr" where
  "next_of n = tp_value (atp_load (node_next n))"

abbreviation ms_chain :: "(addr \<rightharpoonup> 'a node) \<Rightarrow> addr \<Rightarrow> (addr \<times> 'a) list \<Rightarrow> bool" where
  "ms_chain \<equiv> chain next_of node_value"

text \<open>
  The node the head points at is a dummy; its successors hold the queue. The tail is the last
  node or lags one behind.
\<close>

definition head_ptr :: "'a msq \<Rightarrow> addr" where
  "head_ptr q = tp_value (atp_load (m_head q))"

definition tail_ptr :: "'a msq \<Rightarrow> addr" where
  "tail_ptr q = tp_value (atp_load (m_tail q))"

definition lags :: "'a msq \<Rightarrow> (addr \<times> 'a) list \<Rightarrow> bool" where
  "lags q bs \<longleftrightarrow> tail_ptr q \<noteq> last (nodes (head_ptr q) bs)"

definition ms_links :: "'a msq \<Rightarrow> (addr \<times> 'a) list \<Rightarrow> bool" where
  "ms_links q bs \<longleftrightarrow>
     ms_chain (msq_heap q) (head_ptr q) bs \<and> distinct (nodes (head_ptr q) bs) \<and>
     list_all node_addr (nodes (head_ptr q) bs) \<and>
     (lags q bs \<longrightarrow> bs \<noteq> [] \<and> tail_ptr q = last (nodes (head_ptr q) (butlast bs)))"

definition ms_rep :: "'a msq \<Rightarrow> 'a list \<Rightarrow> bool" where
  "ms_rep q xs \<longleftrightarrow> (\<exists>bs. xs = map snd bs \<and> ms_links q bs \<and>
     dom (msq_heap q) = set (nodes (head_ptr q) bs))"

lemma next_of_default [simp]: "next_of \<lparr>node_value = x, node_next = atp_default\<rparr> = nullptr"
  by (simp add: next_of_def)

lemma cas_next_weak_same:
  assumes "h a = Some n"
  shows "cas_next_weak sp a (atp_load (node_next n)) d h =
    Inr (if sp then (False, atp_load (node_next n), h)
         else (True, atp_load (node_next n), h(a \<mapsto> n\<lparr>node_next := atp_store (node_next n) d\<rparr>)))"
  using assms by (cases n) (auto simp: cas_next_weak_def atp_cas_weak_eq)

lemma cas_next_strong_same:
  assumes "h a = Some n"
  shows "cas_next_strong a (atp_load (node_next n)) d h =
    Inr (True, atp_load (node_next n), h(a \<mapsto> n\<lparr>node_next := atp_store (node_next n) d\<rparr>))"
  using assms by (auto simp: cas_next_strong_def atp_cas_strong_eq)

lemma load_next_Some [simp]: "h a = Some n \<Longrightarrow> load_next h a = Inr (atp_load (node_next n))"
  by (simp add: load_next_def)

lemma load_value_Some [simp]: "h a = Some n \<Longrightarrow> load_value h a = Inr (node_value n)"
  by (simp add: load_value_def)

lemma ms_links_last:
  assumes "ms_links q bs" "\<not> lags q bs"
  shows "\<exists>n. msq_heap q (tail_ptr q) = Some n \<and> next_of n = nullptr"
  using assms chain_last by (auto simp: ms_links_def lags_def)

lemma ms_links_lag:
  assumes "ms_links q bs" "lags q bs"
  obtains cs b x n where "bs = cs @ [(b, x)]" "tail_ptr q = last (nodes (head_ptr q) cs)"
    "msq_heap q (tail_ptr q) = Some n" "next_of n = b" "node_addr b"
proof -
  have "bs \<noteq> []" "tail_ptr q = last (nodes (head_ptr q) (butlast bs))"
    using assms by (auto simp: ms_links_def)
  then obtain cs b x where bs: "bs = cs @ [(b, x)]" "tail_ptr q = last (nodes (head_ptr q) cs)"
    by (cases bs rule: rev_cases) auto
  moreover obtain n where "msq_heap q (tail_ptr q) = Some n" "next_of n = b"
    using chain_snocD [of next_of node_value "msq_heap q" "head_ptr q" cs b x] assms bs by (auto simp: ms_links_def)
  moreover have "node_addr b"
    using assms bs by (simp add: ms_links_def)
  ultimately show ?thesis using that by blast
qed

text \<open>
  \<open>advances\<close> counts, modulo \<open>2 ^ 16\<close>, the pushes since construction: the tag of the tail,
  and one more while the tail lags.
\<close>

definition advances :: "'a msq \<Rightarrow> (addr \<times> 'a) list \<Rightarrow> u16" where
  "advances q bs = tp_tag (atp_load (m_tail q)) + (if lags q bs then 1 else 0)"

text \<open>Helping: moving a lagging tail to its successor.\<close>

lemma help_tail:
  assumes links: "ms_links q bs" and lag: "lags q bs"
    and n: "msq_heap q (tail_ptr q) = Some n"
    and q': "q' = q\<lparr>m_tail := atp_store (m_tail q) (tp_pack (next_of n) (tp_tag (atp_load (m_tail q)) + 1))\<rparr>"
  shows "ms_links q' bs" "\<not> lags q' bs" "advances q' bs = advances q bs"
proof -
  obtain cs b x where bs: "bs = cs @ [(b, x)]" and b: "next_of n = b" "node_addr b"
    using ms_links_lag [OF links lag] n by fastforce
  have hd: "head_ptr q' = head_ptr q" and hp: "msq_heap q' = msq_heap q"
    using q' by (simp_all add: head_ptr_def)
  have tl: "tail_ptr q' = b"
    using q' b by (simp add: tail_ptr_def node_addr_simps)
  show no: "\<not> lags q' bs"
    by (simp add: lags_def tl hd bs)
  then show "ms_links q' bs"
    using links by (simp add: ms_links_def hd hp)
  have "tp_tag (atp_load (m_tail q')) = tp_tag (atp_load (m_tail q)) + 1"
    using q' b by (simp add: node_addr_simps)
  then show "advances q' bs = advances q bs"
    using lag no by (simp add: advances_def)
qed

section \<open>push\<close>

text \<open>Linking a fresh node behind the last one, whatever becomes of the tail.\<close>

lemma link_node:
  assumes links: "ms_links q bs" and last: "\<not> lags q bs"
    and fresh: "node \<notin> set (nodes (head_ptr q) bs)" "node_addr node"
    and m: "msq_heap q node = Some m" "next_of m = nullptr"
    and n: "msq_heap q (tail_ptr q) = Some n"
    and q': "q' = q\<lparr>msq_heap := (msq_heap q)(tail_ptr q \<mapsto> n\<lparr>node_next := atp_store (node_next n) (tp_pack node t)\<rparr>),
      m_tail := (if sp then m_tail q else
        atp_store (m_tail q) (tp_pack node (tp_tag (atp_load (m_tail q)) + 1)))\<rparr>"
  shows "ms_links q' (bs @ [(node, node_value m)])" "head_ptr q' = head_ptr q"
    "dom (msq_heap q') = dom (msq_heap q)"
    "advances q' (bs @ [(node, node_value m)]) = advances q bs + 1"
proof -
  show hd: "head_ptr q' = head_ptr q"
    using q' by (simp add: head_ptr_def)
  show "dom (msq_heap q') = dom (msq_heap q)"
    using q' n by auto
  have tl: "tail_ptr q = last (nodes (head_ptr q) bs)"
    using last by (simp add: lags_def)
  have tl': "tail_ptr q' = (if sp then tail_ptr q else node)"
    using q' fresh by (auto simp: tail_ptr_def node_addr_simps)
  let ?n' = "n\<lparr>node_next := atp_store (node_next n) (tp_pack node t)\<rparr>"
  have "next_of ?n' = node" "node_value ?n' = node_value n"
    using fresh by (simp_all add: next_of_def node_addr_simps)
  then have "ms_chain ((msq_heap q)(last (nodes (head_ptr q) bs) \<mapsto> ?n')) (head_ptr q)
      (bs @ [(node, node_value m)])"
    using links fresh m n tl by (intro chain_append) (simp_all add: ms_links_def)
  then have ch: "ms_chain (msq_heap q') (head_ptr q') (bs @ [(node, node_value m)])"
    using q' hd tl by simp
  have ne: "last (nodes (head_ptr q) bs) \<noteq> node"
    using fresh by (metis last_in_set nodes_simps(4))
  then have lag': "lags q' (bs @ [(node, node_value m)]) \<longleftrightarrow> sp"
    using tl tl' hd by (simp add: lags_def)
  show "ms_links q' (bs @ [(node, node_value m)])"
    using ch links fresh hd tl tl' lag' by (simp add: ms_links_def)
  show "advances q' (bs @ [(node, node_value m)]) = advances q bs + 1"
    using lag' last q' fresh by (simp add: advances_def node_addr_simps)
qed

lemma ms_push_loop_links:
  assumes "ms_links q bs" "node \<notin> set (nodes (head_ptr q) bs)" "node_addr node"
    and "msq_heap q node = Some m" "next_of m = nullptr"
    and "tp_value old_tail \<in> set (nodes (head_ptr q) bs)"
    and "length sp + (if lags q bs then 2 else 0) +
      (if old_tail = atp_load (m_tail q) then 0 else 1) < fuel"
  shows "\<exists>q'. ms_push_loop fuel sp node old_tail q = Inr q' \<and>
    ms_links q' (bs @ [(node, node_value m)]) \<and> m_head q' = m_head q \<and>
    dom (msq_heap q') = dom (msq_heap q) \<and>
    advances q' (bs @ [(node, node_value m)]) = advances q bs + 1"
  using assms
proof (induction fuel arbitrary: sp old_tail q)
  case 0
  then show ?case by simp
next
  case (Suc fuel)
  note links = Suc.prems(1)
  have chain: "ms_chain (msq_heap q) (head_ptr q) bs" using links by (simp add: ms_links_def)
  obtain n where n: "msq_heap q (tp_value old_tail) = Some n"
    using chain_live [OF chain Suc.prems(6)] by blast
  have tail_in: "tail_ptr q \<in> set (nodes (head_ptr q) bs)"
  proof (cases "lags q bs")
    case True
    then obtain cs b x where "bs = cs @ [(b, x)]" "tail_ptr q = last (nodes (head_ptr q) cs)"
      using ms_links_lag [OF links] by blast
    then show ?thesis using last_in_set [of "nodes (head_ptr q) cs"] by simp
  next
    case False
    then show ?thesis by (simp add: lags_def)
  qed
  consider (stale) "old_tail \<noteq> atp_load (m_tail q)"
    | (last) "old_tail = atp_load (m_tail q)" "\<not> lags q bs"
    | (lag) "old_tail = atp_load (m_tail q)" "lags q bs"
    by blast
  then show ?case
  proof cases
    case stale
    have "length sp + (if lags q bs then 2 else 0) + 0 < fuel"
      using Suc.prems(7) stale by (auto split: if_splits)
    then have "\<exists>q'. ms_push_loop fuel sp node (atp_load (m_tail q)) q = Inr q' \<and>
        ms_links q' (bs @ [(node, node_value m)]) \<and> m_head q' = m_head q \<and>
        dom (msq_heap q') = dom (msq_heap q) \<and>
        advances q' (bs @ [(node, node_value m)]) = advances q bs + 1"
      using Suc.prems tail_in by (intro Suc.IH) (simp_all add: tail_ptr_def)
    then show ?thesis using stale n by simp
  next
    case last
    then have tl: "tp_value old_tail = tail_ptr q" by (simp add: tail_ptr_def)
    have nul: "tp_value (atp_load (node_next n)) = nullptr"
      using ms_links_last [OF links last(2)] n tl by (simp add: next_of_def)
    let ?d = "tp_pack node (tp_tag (atp_load (node_next n)) + 1)"
    let ?d2 = "tp_pack node (tp_tag (atp_load (m_tail q)) + 1)"
    have n': "msq_heap q (tail_ptr q) = Some n" using n tl by simp
    show ?thesis
    proof (cases "spurious sp")
      case True
      then have sp: "sp \<noteq> []" by (auto simp: spurious_def)
      have "length (tl sp) + (if lags q bs then 2 else 0) + 0 < fuel"
        using Suc.prems(7) last sp by (cases sp) auto
      then have "\<exists>q'. ms_push_loop fuel (tl sp) node (atp_load (m_tail q)) q = Inr q' \<and>
          ms_links q' (bs @ [(node, node_value m)]) \<and> m_head q' = m_head q \<and>
          dom (msq_heap q') = dom (msq_heap q) \<and>
          advances q' (bs @ [(node, node_value m)]) = advances q bs + 1"
        using Suc.prems tail_in last by (intro Suc.IH) (simp_all add: tail_ptr_def)
      then show ?thesis
        using last n nul True Suc.prems(3)
        by (simp add: cas_next_weak_same node_addr_simps)
    next
      case False
      let ?q' = "q\<lparr>msq_heap := (msq_heap q)(tail_ptr q \<mapsto> n\<lparr>node_next := atp_store (node_next n) ?d\<rparr>),
        m_tail := (if spurious (tl sp) then m_tail q else atp_store (m_tail q) ?d2)\<rparr>"
      have "ms_push_loop (Suc fuel) sp node old_tail q = Inr ?q'"
        using last n nul False Suc.prems(3) tl
        by (simp add: cas_next_weak_same node_addr_simps atp_cas_weak_eq)
      moreover note link_node [where t = "tp_tag (atp_load (node_next n)) + 1"
        and sp = "spurious (tl sp)", OF links last(2) Suc.prems(2-5) n' refl]
      moreover have "m_head ?q' = m_head q" by simp
      ultimately show ?thesis by blast
    qed
  next
    case lag
    then have tl: "tp_value old_tail = tail_ptr q" by (simp add: tail_ptr_def)
    obtain b where b: "next_of n = b" "node_addr b"
      using ms_links_lag [OF links lag(2)] n tl by (metis option.inject)
    let ?q1 = "q\<lparr>m_tail := atp_store (m_tail q) (tp_pack (next_of n) (tp_tag (atp_load (m_tail q)) + 1))\<rparr>"
    have helped: "ms_links ?q1 bs" "\<not> lags ?q1 bs" "advances ?q1 bs = advances q bs"
      using help_tail [OF links lag(2), of n ?q1] n tl by simp_all
    have hd: "head_ptr ?q1 = head_ptr q" by (simp add: head_ptr_def)
    have step: "ms_push_loop (Suc fuel) sp node old_tail q =
        ms_push_loop fuel (tl sp) node old_tail (if spurious sp then q else ?q1)"
      using lag n b by (simp add: node_addr_simps atp_cas_weak_eq next_of_def)
    show ?thesis
    proof (cases "spurious sp")
      case True
      then have "length (tl sp) + (if lags q bs then 2 else 0) + 0 < fuel"
        using Suc.prems(7) lag by (cases sp) (auto simp: spurious_def)
      then show ?thesis
        using Suc.IH [of q old_tail "tl sp"] Suc.prems step True lag by simp
    next
      case False
      have "length (tl sp) + 0 + 1 < fuel"
        using Suc.prems(7) lag by (cases sp) auto
      then show ?thesis
        using Suc.IH [of ?q1 old_tail "tl sp"] Suc.prems helped hd step False by simp
    qed
  qed
qed

section \<open>pop\<close>

lemma ms_links_nil:
  assumes "ms_links q []"
  obtains n where "msq_heap q (head_ptr q) = Some n" "next_of n = nullptr"
    "tail_ptr q = head_ptr q" "\<not> lags q []"
  using assms by (auto simp: ms_links_def lags_def split: option.splits)

lemma list_all_nodesD: "list_all P (nodes a bs) \<Longrightarrow> P a"
  by (simp add: nodes_def)

lemma ms_links_cons:
  assumes "ms_links q ((b, x) # cs)"
  obtains n m where "msq_heap q (head_ptr q) = Some n" "next_of n = b"
    "msq_heap q b = Some m" "node_value m = x" "node_addr b" "head_ptr q \<notin> set (nodes b cs)"
    "ms_chain (msq_heap q) b cs"
  using assms by (auto simp: ms_links_def split: option.splits dest: list_all_nodesD)

text \<open>Unlinking the dummy node, when the tail is not on it.\<close>

lemma unlink_head:
  assumes links: "ms_links q ((b, x) # cs)" and ne: "head_ptr q \<noteq> tail_ptr q"
    and q': "q' = q\<lparr>msq_heap := (msq_heap q)(head_ptr q := None),
      m_head := atp_store (m_head q) (tp_pack b t)\<rparr>"
  shows "ms_links q' cs" "head_ptr q' = b" "advances q' cs = advances q ((b, x) # cs)"
proof -
  obtain n where b: "node_addr b" "head_ptr q \<notin> set (nodes b cs)" "ms_chain (msq_heap q) b cs"
    using ms_links_cons [OF links] by metis
  show hd: "head_ptr q' = b"
    using q' b by (simp add: head_ptr_def node_addr_simps)
  have tl: "tail_ptr q' = tail_ptr q" using q' by (simp add: tail_ptr_def)
  have lag: "lags q' cs \<longleftrightarrow> lags q ((b, x) # cs)"
    by (simp add: lags_def hd tl)
  have "cs \<noteq> [] \<and> tail_ptr q = last (nodes b (butlast cs))" if "lags q ((b, x) # cs)"
    using links ne that by (cases cs) (auto simp: ms_links_def)
  then show "ms_links q' cs"
    using links b q' hd tl lag by (simp add: ms_links_def)
  show "advances q' cs = advances q ((b, x) # cs)"
    using q' lag by (simp add: advances_def)
qed

lemma head_is_tail:
  assumes links: "ms_links q (b # cs)" and eq: "head_ptr q = tail_ptr q"
  shows "lags q (b # cs)"
proof -
  have "head_ptr q \<noteq> last (nodes (fst b) cs)"
    using links last_in_set [of "nodes (fst b) cs"] by (auto simp: ms_links_def)
  then show ?thesis using eq by (simp add: lags_def)
qed

definition pop_outcome ::
  "'a msq \<Rightarrow> (addr \<times> 'a) list \<Rightarrow> 'a \<Rightarrow> u16 option \<Rightarrow> bool \<times> 'a \<times> u16 option \<times> 'a msq \<Rightarrow> bool" where
  "pop_outcome q bs element hs r \<longleftrightarrow>
     (case bs of
        [] \<Rightarrow> r = (False, element, map_option (\<lambda>_. tp_tag (atp_load (m_tail q))) hs, q)
      | (b, x) # cs \<Rightarrow> (\<exists>q'. r = (True, x, map_option (\<lambda>_. tp_tag (atp_load (m_head q))) hs, q') \<and>
          ms_links q' cs \<and> head_ptr q' = b \<and> msq_heap q' = (msq_heap q)(head_ptr q := None) \<and>
          tp_tag (atp_load (m_head q')) = tp_tag (atp_load (m_head q)) + 1 \<and>
          advances q' cs = advances q bs))"

lemma ms_pop_loop_links:
  assumes "ms_links q bs" "length sp + (if lags q bs then 1 else 0) < fuel"
  shows "\<exists>r. ms_pop_loop fuel sp element hs q = Inr r \<and>
    (\<exists>e. pop_outcome q bs e hs r \<and> (bs = [] \<longrightarrow> e = element))"
  using assms
proof (induction fuel arbitrary: sp element q)
  case 0
  then show ?case by simp
next
  case (Suc fuel)
  note links = Suc.prems(1)
  show ?case
  proof (cases bs)
    case Nil
    then obtain n where n: "msq_heap q (head_ptr q) = Some n" "next_of n = nullptr"
      "tail_ptr q = head_ptr q"
      using ms_links_nil links by metis
    then show ?thesis
      using Nil by (simp add: head_ptr_def tail_ptr_def next_of_def pop_outcome_def)
  next
    case (Cons bx cs)
    obtain b x where bx: "bx = (b, x)" by (cases bx)
    obtain n m where n: "msq_heap q (head_ptr q) = Some n" "next_of n = b" "msq_heap q b = Some m"
      "node_value m = x" "node_addr b"
      using ms_links_cons links Cons bx by metis
    have ptrs: "tp_value (atp_load (m_head q)) = head_ptr q" "tp_value (atp_load (m_tail q)) = tail_ptr q"
      "tp_value (atp_load (node_next n)) = b"
      using n by (simp_all add: head_ptr_def tail_ptr_def next_of_def)
    show ?thesis
    proof (cases "head_ptr q = tail_ptr q")
      case True
      have lag: "lags q bs" using head_is_tail links Cons True by blast
      let ?q1 = "q\<lparr>m_tail := atp_store (m_tail q) (tp_pack (next_of n) (tp_tag (atp_load (m_tail q)) + 1))\<rparr>"
      note helped = help_tail [OF links lag n(1) [unfolded True] refl]
      have step: "ms_pop_loop (Suc fuel) sp element hs q =
          ms_pop_loop fuel (tl sp) element hs (if spurious sp then q else ?q1)"
        using n ptrs True by (simp add: node_addr_simps atp_cas_weak_eq Let_def)
      show ?thesis
      proof (cases "spurious sp")
        case True
        then have "length (tl sp) + (if lags q bs then 1 else 0) < fuel"
          using Suc.prems(2) by (cases sp) (auto simp: spurious_def)
        then show ?thesis using Suc.IH [OF links, of "tl sp" element] step True by simp
      next
        case False
        have "length (tl sp) + (if lags ?q1 bs then 1 else 0) < fuel"
          using Suc.prems(2) helped(2) lag by (cases sp) auto
        then have "\<exists>r. ms_pop_loop fuel (tl sp) element hs ?q1 = Inr r \<and>
            (\<exists>e. pop_outcome ?q1 bs e hs r \<and> (bs = [] \<longrightarrow> e = element))"
          by (rule Suc.IH [OF helped(1)])
        then show ?thesis
          using step False helped(3) Cons by (auto simp: pop_outcome_def head_ptr_def bx)
      qed
    next
      case False
      show ?thesis
      proof (cases "spurious sp")
        case True
        then have "length (tl sp) + (if lags q bs then 1 else 0) < fuel"
          using Suc.prems(2) by (cases sp) (auto simp: spurious_def)
        moreover have "ms_pop_loop (Suc fuel) sp element hs q = ms_pop_loop fuel (tl sp) x hs q"
          using n ptrs False True by (simp add: node_addr_simps atp_cas_weak_eq Let_def)
        ultimately show ?thesis using Suc.IH [OF links, of "tl sp" x] Cons by auto
      next
        case nsp: False
        let ?q' = "q\<lparr>msq_heap := (msq_heap q)(head_ptr q := None),
          m_head := atp_store (m_head q) (tp_pack b (tp_tag (atp_load (m_head q)) + 1))\<rparr>"
        have "ms_pop_loop (Suc fuel) sp element hs q =
            Inr (True, x, map_option (\<lambda>_. tp_tag (atp_load (m_head q))) hs, ?q')"
          using n ptrs False nsp
          by (simp add: node_addr_simps atp_cas_weak_eq Let_def delete_node_def)
        moreover note unlink_head [OF links [unfolded Cons bx] False refl]
        ultimately show ?thesis
          using Cons bx n(5) by (auto simp: pop_outcome_def node_addr_simps)
      qed
    qed
  qed
qed

section \<open>The calls on the representation\<close>

definition ms_state :: "'a msq \<Rightarrow> 'a list \<Rightarrow> u16 \<Rightarrow> u16 \<Rightarrow> bool" where
  "ms_state q xs pushes pops \<longleftrightarrow>
     (\<exists>bs. xs = map snd bs \<and> ms_links q bs \<and> dom (msq_heap q) = set (nodes (head_ptr q) bs) \<and>
        advances q bs = pushes \<and> tp_tag (atp_load (m_head q)) = pops)"

lemma ms_stateI:
  "ms_links q bs \<Longrightarrow> dom (msq_heap q) = set (nodes (head_ptr q) bs) \<Longrightarrow> advances q bs = pushes \<Longrightarrow>
   tp_tag (atp_load (m_head q)) = pops \<Longrightarrow> xs = map snd bs \<Longrightarrow> ms_state q xs pushes pops"
  by (auto simp: ms_state_def)

lemma ms_rep_state: "ms_rep q xs \<longleftrightarrow> (\<exists>pushes pops. ms_state q xs pushes pops)"
  by (auto simp: ms_rep_def ms_state_def)

lemma ms_new_state:
  assumes "alloc_ok alloc" "ms_new alloc dflt = Inr q"
  shows "ms_state q [] 0 0"
proof -
  obtain a where a: "alloc (\<lambda>_. None) = Some a"
    using assms(2) by (cases "alloc (\<lambda>_. None)") (auto simp: ms_new_def new_node_def)
  then have na: "node_addr a"
    using assms(1) by (auto simp: alloc_ok_def node_addr_def)
  obtain p where p: "tp_of_value a = Inr p" "tp_value p = a" "tp_tag p = 0"
    and q: "q = \<lparr>msq_heap = [a \<mapsto> \<lparr>node_value = dflt, node_next = atp_default\<rparr>],
      m_head = atp_store atp_default p, m_tail = atp_store atp_default p\<rparr>"
    using assms(2) a by (auto simp: ms_new_def new_node_def bindE_Inr_iff tp_of_value_Inr_iff)
  have "head_ptr q = a" "tail_ptr q = a"
    using q p by (simp_all add: head_ptr_def tail_ptr_def)
  then show ?thesis
    using q p na
    by (intro ms_stateI [of q "[]"]) (simp_all add: ms_links_def lags_def advances_def)
qed

lemma ms_new_total:
  assumes "alloc_ok alloc"
  shows "ms_new alloc dflt = Inl BadAlloc \<or> (\<exists>q. ms_new alloc dflt = Inr q)"
proof (cases "alloc (\<lambda>_. None)")
  case (Some a)
  then have a: "take_bit 48 a = a" using assms by (auto simp: alloc_ok_def)
  have "tp_of_value a = Inr (tp_pack a 0)"
    using a by (simp add: tp_of_value_Inr_iff)
  then show ?thesis
    using Some by (simp add: ms_new_def new_node_def)
qed (simp add: ms_new_def new_node_def)

lemma ms_push_state:
  assumes st: "ms_state q xs pushes pops" and ok: "alloc_ok alloc" and fuel: "length sp + 2 < fuel"
  shows "(alloc (msq_heap q) = None \<longrightarrow> ms_push fuel sp alloc x q = Inl BadAlloc) \<and>
    (alloc (msq_heap q) \<noteq> None \<longrightarrow> (\<exists>q'. ms_push fuel sp alloc x q = Inr (True, q') \<and>
      ms_state q' (xs @ [x]) (pushes + 1) pops))"
proof (cases "alloc (msq_heap q)")
  case None
  then show ?thesis by (simp add: ms_push_def new_node_def)
next
  case (Some a)
  obtain bs where bs: "xs = map snd bs" "ms_links q bs"
    "dom (msq_heap q) = set (nodes (head_ptr q) bs)" "advances q bs = pushes"
    "tp_tag (atp_load (m_head q)) = pops"
    using st by (auto simp: ms_state_def)
  have a: "msq_heap q a = None" "node_addr a"
    using ok Some by (auto simp: alloc_ok_def node_addr_def)
  then have fresh: "a \<notin> set (nodes (head_ptr q) bs)" using bs(3) by auto
  let ?m = "\<lparr>node_value = x, node_next = atp_default\<rparr>"
  let ?q1 = "q\<lparr>msq_heap := (msq_heap q)(a \<mapsto> ?m)\<rparr>"
  have hd: "head_ptr ?q1 = head_ptr q" "tail_ptr ?q1 = tail_ptr q"
    by (simp_all add: head_ptr_def tail_ptr_def)
  then have lags: "lags ?q1 bs = lags q bs" "advances ?q1 bs = pushes"
    using bs(4) by (simp_all add: lags_def advances_def)
  have links: "ms_links ?q1 bs"
    using bs(2) fresh by (simp add: ms_links_def hd lags)
  have "tail_ptr q \<in> set (nodes (head_ptr q) bs)"
  proof (cases "lags q bs")
    case True
    then obtain cs b y where "bs = cs @ [(b, y)]" "tail_ptr q = last (nodes (head_ptr q) cs)"
      using ms_links_lag [OF bs(2)] by blast
    then show ?thesis using last_in_set [of "nodes (head_ptr q) cs"] by simp
  next
    case False
    then show ?thesis by (simp add: lags_def)
  qed
  then have "\<exists>q'. ms_push_loop fuel sp a (atp_load (m_tail q)) ?q1 = Inr q' \<and>
      ms_links q' (bs @ [(a, node_value ?m)]) \<and> m_head q' = m_head ?q1 \<and>
      dom (msq_heap q') = dom (msq_heap ?q1) \<and>
      advances q' (bs @ [(a, node_value ?m)]) = advances ?q1 bs + 1"
    using fuel fresh a links hd lags
    by (intro ms_push_loop_links) (auto simp: tail_ptr_def)
  then obtain q' where q': "ms_push_loop fuel sp a (atp_load (m_tail q)) ?q1 = Inr q'"
    "ms_links q' (bs @ [(a, x)])" "m_head q' = m_head q" "dom (msq_heap q') = dom (msq_heap ?q1)"
    "advances q' (bs @ [(a, x)]) = pushes + 1"
    using lags by auto
  have "ms_state q' (xs @ [x]) (pushes + 1) pops"
    using q' bs by (intro ms_stateI [of q' "bs @ [(a, x)]"]) (auto simp: head_ptr_def)
  then show ?thesis
    using Some q'(1) by (simp add: ms_push_def new_node_def)
qed

lemma ms_pop_state:
  assumes st: "ms_state q xs pushes pops" and fuel: "length sp + 1 < fuel"
  shows "xs = [] \<Longrightarrow> ms_pop fuel sp e hs q = Inr (False, e, map_option (\<lambda>_. pushes) hs, q)"
    and "xs = x # ys \<Longrightarrow> \<exists>q'. ms_pop fuel sp e hs q = Inr (True, x, map_option (\<lambda>_. pops) hs, q') \<and>
      ms_state q' ys pushes (pops + 1)"
proof -
  obtain bs where bs: "xs = map snd bs" "ms_links q bs"
    "dom (msq_heap q) = set (nodes (head_ptr q) bs)" "advances q bs = pushes"
    "tp_tag (atp_load (m_head q)) = pops"
    using st by (auto simp: ms_state_def)
  have "length sp + (if lags q bs then 1 else 0) < fuel" using fuel by simp
  from ms_pop_loop_links [OF bs(2) this, of e hs]
  obtain r e' where r: "ms_pop fuel sp e hs q = Inr r" "pop_outcome q bs e' hs r" "bs = [] \<longrightarrow> e' = e"
    by (auto simp: ms_pop_def)
  show "ms_pop fuel sp e hs q = Inr (False, e, map_option (\<lambda>_. pushes) hs, q)" if "xs = []"
  proof -
    have "bs = []" using bs(1) that by simp
    moreover from this have "\<not> lags q bs" using bs(2) by (auto simp: ms_links_def)
    ultimately show ?thesis using r bs(4) by (simp add: pop_outcome_def advances_def)
  qed
  show "\<exists>q'. ms_pop fuel sp e hs q = Inr (True, x, map_option (\<lambda>_. pops) hs, q') \<and>
      ms_state q' ys pushes (pops + 1)" if xs: "xs = x # ys"
  proof -
    obtain b cs where b: "bs = (b, x) # cs" "ys = map snd cs"
      using bs(1) xs by (cases bs) auto
    then obtain q' where q': "r = (True, x, map_option (\<lambda>_. pops) hs, q')" "ms_links q' cs"
      "head_ptr q' = b" "msq_heap q' = (msq_heap q)(head_ptr q := None)"
      "tp_tag (atp_load (m_head q')) = pops + 1" "advances q' cs = pushes"
      using r(2) bs(4,5) by (auto simp: pop_outcome_def)
    have "head_ptr q \<notin> set (nodes b cs)"
      using bs(2) b by (simp add: ms_links_def)
    then have "ms_state q' ys pushes (pops + 1)"
      using q' bs(3) b by (intro ms_stateI [of q' cs]) auto
    then show ?thesis using r(1) q'(1) by auto
  qed
qed

lemma ms_empty_state:
  assumes "ms_state q xs pushes pops" "0 < fuel"
  shows "ms_empty fuel q = Inr (xs = [])"
proof -
  obtain f where f: "fuel = Suc f" using assms(2) by (cases fuel) auto
  obtain bs where bs: "xs = map snd bs" "ms_links q bs"
    using assms(1) by (auto simp: ms_state_def)
  show ?thesis
  proof (cases bs)
    case Nil
    then obtain n where "msq_heap q (head_ptr q) = Some n" "next_of n = nullptr" "tail_ptr q = head_ptr q"
      using ms_links_nil bs(2) by metis
    then show ?thesis
      using f bs(1) Nil by (simp add: head_ptr_def tail_ptr_def next_of_def Let_def)
  next
    case (Cons bx cs)
    then obtain n where "msq_heap q (head_ptr q) = Some n" "next_of n = fst bx" "node_addr (fst bx)"
      using ms_links_cons [of q "fst bx" "snd bx" cs] bs(2) by (metis prod.collapse)
    then show ?thesis
      using f bs(1) Cons by (simp add: head_ptr_def next_of_def Let_def node_addr_simps)
  qed
qed

text \<open>The tail lags, read off the queue itself: its node has a successor.\<close>

definition tail_lags :: "'a msq \<Rightarrow> bool" where
  "tail_lags q = (case msq_heap q (tail_ptr q) of None \<Rightarrow> False | Some n \<Rightarrow> next_of n \<noteq> nullptr)"

lemma tail_lags_iff:
  assumes "ms_links q bs"
  shows "tail_lags q \<longleftrightarrow> lags q bs"
proof (cases "lags q bs")
  case True
  then obtain n where "msq_heap q (tail_ptr q) = Some n" "node_addr (next_of n)"
    using ms_links_lag [OF assms] by metis
  then show ?thesis using True by (simp add: tail_lags_def node_addr_simps)
next
  case False
  then obtain n where "msq_heap q (tail_ptr q) = Some n" "next_of n = nullptr"
    using ms_links_last [OF assms] by blast
  then show ?thesis using False by (simp add: tail_lags_def)
qed

lemma ms_try_push_state:
  assumes st: "ms_state q xs pushes pops" and ok: "alloc_ok alloc"
  shows "(ms_tail_state q \<noteq> st \<longrightarrow> ms_try_push alloc x st q = Inr (False, q)) \<and>
    (ms_tail_state q = st \<and> tail_lags q \<longrightarrow>
      (\<exists>q'. ms_try_push alloc x st q = Inr (False, q') \<and> ms_state q' xs pushes pops \<and>
        \<not> tail_lags q')) \<and>
    (ms_tail_state q = st \<and> \<not> tail_lags q \<and> alloc (msq_heap q) = None \<longrightarrow>
      ms_try_push alloc x st q = Inl BadAlloc) \<and>
    (ms_tail_state q = st \<and> \<not> tail_lags q \<and> alloc (msq_heap q) \<noteq> None \<longrightarrow>
      (\<exists>q'. ms_try_push alloc x st q = Inr (True, q') \<and> ms_state q' (xs @ [x]) (pushes + 1) pops \<and>
        \<not> tail_lags q'))"
proof -
  obtain bs where bs: "xs = map snd bs" "ms_links q bs"
    "dom (msq_heap q) = set (nodes (head_ptr q) bs)" "advances q bs = pushes"
    "tp_tag (atp_load (m_head q)) = pops"
    using st by (auto simp: ms_state_def)
  have ptr: "tp_value (atp_load (m_tail q)) = tail_ptr q" by (simp add: tail_ptr_def)
  have helps: "\<exists>q'. ms_try_push alloc x st q = Inr (False, q') \<and> ms_state q' xs pushes pops \<and>
      \<not> tail_lags q'" if s: "ms_tail_state q = st" and l: "lags q bs"
  proof -
    obtain n where n: "msq_heap q (tail_ptr q) = Some n" "node_addr (next_of n)"
      using ms_links_lag [OF bs(2) l] by metis
    note h = help_tail [OF bs(2) l n(1) refl]
    let ?q1 = "q\<lparr>m_tail := atp_store (m_tail q) (tp_pack (next_of n) (tp_tag (atp_load (m_tail q)) + 1))\<rparr>"
    have hd: "head_ptr ?q1 = head_ptr q" by (simp add: head_ptr_def)
    have "ms_try_push alloc x st q = Inr (False, ?q1)"
      using s n ptr
      by (simp add: ms_try_push_def ms_tail_state_def Let_def node_addr_simps atp_cas_strong_eq
          flip: next_of_def)
    moreover have "ms_state ?q1 xs pushes pops"
      using h bs hd by (intro ms_stateI [of ?q1 bs]) simp_all
    ultimately show ?thesis using h tail_lags_iff [OF h(1)] by blast
  qed
  have link: "\<exists>q'. ms_try_push alloc x st q = Inr (True, q') \<and>
      ms_state q' (xs @ [x]) (pushes + 1) pops \<and> \<not> tail_lags q'"
    if s: "ms_tail_state q = st" and l: "\<not> lags q bs" and a: "alloc (msq_heap q) = Some a" for a
  proof -
    have na: "msq_heap q a = None" "node_addr a"
      using ok a by (auto simp: alloc_ok_def node_addr_def)
    then have fresh: "a \<notin> set (nodes (head_ptr q) bs)" using bs(3) by auto
    let ?m = "\<lparr>node_value = x, node_next = atp_default\<rparr>"
    let ?q1 = "q\<lparr>msq_heap := (msq_heap q)(a \<mapsto> ?m)\<rparr>"
    have hd: "head_ptr ?q1 = head_ptr q" "tail_ptr ?q1 = tail_ptr q"
      by (simp_all add: head_ptr_def tail_ptr_def)
    then have l1: "\<not> lags ?q1 bs" and adv: "advances ?q1 bs = pushes"
      using l bs(4) by (simp_all add: lags_def advances_def)
    then have links: "ms_links ?q1 bs"
      using bs(2) fresh by (simp add: ms_links_def hd)
    obtain n where n: "msq_heap q (tail_ptr q) = Some n" "next_of n = nullptr"
      using ms_links_last [OF bs(2) l] by blast
    have ne: "tail_ptr q \<noteq> a" using n na by auto
    then have n1: "msq_heap ?q1 (tail_ptr ?q1) = Some n" using n hd by simp
    note k = link_node [where sp = False and t = "tp_tag (atp_load (node_next n)) + 1"
      and m = ?m and node = a, OF links l1 _ na(2) _ _ n1 refl]
    let ?q2 = "?q1\<lparr>msq_heap := (msq_heap ?q1)(tail_ptr ?q1 \<mapsto> n\<lparr>node_next := atp_store (node_next n)
        (tp_pack a (tp_tag (atp_load (node_next n)) + 1))\<rparr>),
      m_tail := (if False then m_tail ?q1 else
        atp_store (m_tail ?q1) (tp_pack a (tp_tag (atp_load (m_tail ?q1)) + 1)))\<rparr>"
    have links2: "ms_links ?q2 (bs @ [(a, x)])" "head_ptr ?q2 = head_ptr q"
      "dom (msq_heap ?q2) = dom (msq_heap ?q1)" "advances ?q2 (bs @ [(a, x)]) = pushes + 1"
      using k fresh hd adv by auto
    have "ms_try_push alloc x st q = Inr (True, ?q2)"
      using s a n na ptr ne hd
      by (simp add: ms_try_push_def ms_tail_state_def new_node_def Let_def node_addr_simps
          cas_next_strong_same atp_cas_strong_eq next_of_def)
    moreover have "ms_state ?q2 (xs @ [x]) (pushes + 1) pops"
      using links2 bs by (intro ms_stateI [of ?q2 "bs @ [(a, x)]"]) auto
    moreover have "tail_ptr ?q2 = a"
      using na by (simp add: tail_ptr_def node_addr_simps)
    then have "\<not> lags ?q2 (bs @ [(a, x)])"
      using links2(2) by (simp only: lags_def nodes_simps last_snoc fst_conv)
    ultimately show ?thesis using tail_lags_iff [OF links2(1)] by blast
  qed
  have bad: "ms_try_push alloc x st q = Inl BadAlloc"
    if s: "ms_tail_state q = st" and l: "\<not> lags q bs" and a: "alloc (msq_heap q) = None"
    using ms_links_last [OF bs(2) l] s a ptr
    by (auto simp: ms_try_push_def ms_tail_state_def new_node_def Let_def next_of_def)
  have miss: "ms_try_push alloc x st q = Inr (False, q)" if "ms_tail_state q \<noteq> st"
    using that by (simp add: ms_try_push_def ms_tail_state_def Let_def)
  show ?thesis
    unfolding tail_lags_iff [OF bs(2)]
  proof (intro conjI impI)
    assume "ms_tail_state q = st \<and> \<not> lags q bs \<and> alloc (msq_heap q) \<noteq> None"
    then obtain a where "ms_tail_state q = st" "\<not> lags q bs" "alloc (msq_heap q) = Some a"
      by blast
    then show "\<exists>q'. ms_try_push alloc x st q = Inr (True, q') \<and>
        ms_state q' (xs @ [x]) (pushes + 1) pops \<and> \<not> tail_lags q'"
      by (rule link)
  qed (use miss helps bad in simp_all)
qed

end
