(* ===== verification/MS_Queue_Spec.thy ===== *)
theory MS_Queue_Spec
  imports MS_Queue
begin

text \<open>
  What \<open>MSQueue\<close> promises: sequences of calls behave as a FIFO list with two counters, the
  versions its callers see, \<open>try_push\<close> and \<open>try_pop\<close> succeed exactly for the current version,
  the destructor frees the nodes, and the queue is a backend of the distributed container.
\<close>

section \<open>try\_pop\<close>

lemma ms_try_pop_state:
  assumes st: "ms_state q xs pushes pops"
  shows "pops \<noteq> s \<Longrightarrow> ms_try_pop e s hs q = Inr (Failure, e, hs, q)"
    and "pops = s \<Longrightarrow> xs = [] \<Longrightarrow> ms_try_pop e s hs q = Inr (EmptyQueue, e, pushes, q)"
    and "pops = s \<Longrightarrow> xs \<noteq> [] \<Longrightarrow> head_ptr q = tail_ptr q \<Longrightarrow>
      \<exists>q'. ms_try_pop e s hs q = Inr (Failure, e, hs, q') \<and> ms_state q' xs pushes pops \<and>
        head_ptr q' \<noteq> tail_ptr q'"
    and "pops = s \<Longrightarrow> xs = x # ys \<Longrightarrow> head_ptr q \<noteq> tail_ptr q \<Longrightarrow>
      \<exists>q'. ms_try_pop e s hs q = Inr (Success, x, hs, q') \<and> ms_state q' ys pushes (pops + 1)"
proof -
  obtain bs where bs: "xs = map snd bs" "ms_links q bs"
    "dom (msq_heap q) = set (nodes (head_ptr q) bs)" "advances q bs = pushes"
    "tp_tag (atp_load (m_head q)) = pops"
    using st by (auto simp: ms_state_def)
  have live: "\<exists>n. msq_heap q (head_ptr q) = Some n"
    using bs(2) by (auto simp: ms_links_def intro: chain_live)
  show "ms_try_pop e s hs q = Inr (Failure, e, hs, q)" if "pops \<noteq> s"
    using live that bs(5) by (auto simp: ms_try_pop_def Let_def head_ptr_def)
  show "ms_try_pop e s hs q = Inr (EmptyQueue, e, pushes, q)" if "pops = s" "xs = []"
  proof -
    have nil: "bs = []" using bs(1) that by simp
    then have "\<not> lags q bs" using bs(2) by (auto simp: ms_links_def)
    moreover obtain n where "msq_heap q (head_ptr q) = Some n" "next_of n = nullptr" "tail_ptr q = head_ptr q"
      using ms_links_nil bs(2) nil by metis
    ultimately show ?thesis
      using that bs(4,5)
      by (simp add: ms_try_pop_def Let_def head_ptr_def tail_ptr_def next_of_def advances_def)
  qed
  show "\<exists>q'. ms_try_pop e s hs q = Inr (Failure, e, hs, q') \<and> ms_state q' xs pushes pops \<and>
        head_ptr q' \<noteq> tail_ptr q'"
    if s: "pops = s" and ne: "xs \<noteq> []" and eq: "head_ptr q = tail_ptr q"
  proof -
    obtain b cs where b: "bs = b # cs" using ne bs(1) by (cases bs) auto
    have l: "lags q bs" using head_is_tail bs(2) b eq by blast
    obtain n where n: "msq_heap q (tail_ptr q) = Some n" "node_addr (next_of n)" "next_of n \<in> set (map fst bs)"
    proof -
      obtain ds c y n where "bs = ds @ [(c, y)]" "msq_heap q (tail_ptr q) = Some n" "next_of n = c" "node_addr c"
        using ms_links_lag [OF bs(2) l] by metis
      then show ?thesis using that [of n] by simp
    qed
    note h = help_tail [OF bs(2) l n(1) refl]
    let ?q1 = "q\<lparr>m_tail := atp_store (m_tail q) (tp_pack (next_of n) (tp_tag (atp_load (m_tail q)) + 1))\<rparr>"
    have hd: "head_ptr ?q1 = head_ptr q" by (simp add: head_ptr_def)
    have "tail_ptr ?q1 = next_of n" using n by (simp add: tail_ptr_def node_addr_simps)
    moreover have "head_ptr q \<notin> set (map fst bs)"
      using bs(2) by (simp add: ms_links_def nodes_def)
    ultimately have "head_ptr ?q1 \<noteq> tail_ptr ?q1" using n(3) hd by metis
    moreover have "ms_try_pop e s hs q = Inr (Failure, e, hs, ?q1)"
      using s n(1,2) eq bs(5)
      by (simp add: ms_try_pop_def Let_def node_addr_simps atp_cas_strong_eq
          flip: next_of_def head_ptr_def tail_ptr_def)
    moreover have "ms_state ?q1 xs pushes pops"
      using h bs hd by (intro ms_stateI [of ?q1 bs]) simp_all
    ultimately show ?thesis by blast
  qed
  show "\<exists>q'. ms_try_pop e s hs q = Inr (Success, x, hs, q') \<and> ms_state q' ys pushes (pops + 1)"
    if s: "pops = s" and xs: "xs = x # ys" and ne: "head_ptr q \<noteq> tail_ptr q"
  proof -
    obtain b cs where b: "bs = (b, x) # cs" "ys = map snd cs"
      using bs(1) xs by (cases bs) auto
    obtain n m where n: "msq_heap q (head_ptr q) = Some n" "next_of n = b" "msq_heap q b = Some m"
      "node_value m = x" "node_addr b"
      using ms_links_cons bs(2) b by metis
    let ?q' = "q\<lparr>msq_heap := (msq_heap q)(head_ptr q := None),
      m_head := atp_store (m_head q) (tp_pack b (tp_tag (atp_load (m_head q)) + 1))\<rparr>"
    note u = unlink_head [OF bs(2) [unfolded b(1)] ne refl]
    have "ms_try_pop e s hs q = Inr (Success, x, hs, ?q')"
      using s n ne bs(5)
      by (simp add: ms_try_pop_def Let_def node_addr_simps atp_cas_strong_eq delete_node_def
          flip: next_of_def head_ptr_def tail_ptr_def)
    moreover have "head_ptr q \<notin> set (nodes b cs)"
      using bs(2) b by (simp add: ms_links_def)
    then have "ms_state ?q' ys pushes (pops + 1)"
      using u bs n b by (intro ms_stateI [of ?q' cs]) (auto simp: node_addr_simps)
    ultimately show ?thesis by blast
  qed
qed

section \<open>Destruction\<close>

lemma ms_delete_loop_chain:
  assumes "ms_chain h a (cs @ ds)" "distinct (nodes a (cs @ ds))" "length cs < fuel"
  shows "ms_delete_loop fuel a (last (nodes a cs)) h = Inr (h |` (- set (nodes a cs)))"
  using assms
proof (induction cs arbitrary: a h fuel)
  case Nil
  then obtain f n where "fuel = Suc f" "h a = Some n"
    using chain_live [of next_of node_value h a ds a] by (cases fuel) auto
  then show ?case by (auto simp: delete_node_def restrict_map_def)
next
  case (Cons bx cs)
  obtain b x where bx: "bx = (b, x)" by (cases bx)
  obtain f where f: "fuel = Suc f" "length cs < f" using Cons.prems(3) by (cases fuel) auto
  obtain n where n: "h a = Some n" "next_of n = b"
    using Cons.prems(1) bx by (auto split: option.splits)
  have a: "a \<notin> set (nodes b (cs @ ds))" using Cons.prems(2) bx by simp
  have "last (nodes b cs) \<in> set (nodes b cs)" by (rule last_in_set) simp
  moreover have "set (nodes b cs) \<subseteq> set (nodes b (cs @ ds))" by (auto simp: nodes_def)
  ultimately have mem: "last (nodes b cs) \<in> set (nodes b (cs @ ds))" by (rule rev_subsetD)
  have ne: "a \<noteq> last (nodes b cs)"
  proof
    assume eq: "a = last (nodes b cs)"
    from mem have "a \<in> set (nodes b (cs @ ds))" unfolding eq [symmetric] .
    with a show False by (rule notE)
  qed
  have "ms_delete_loop f b (last (nodes b cs)) (h(a := None)) =
      Inr ((h(a := None)) |` (- set (nodes b cs)))"
    using Cons.prems bx a f by (intro Cons.IH) (simp_all add: chain_upd del: fun_upd_apply)
  moreover have "(h(a := None)) |` (- set (nodes b cs)) = h |` (- set (nodes a (bx # cs)))"
    by (auto simp: restrict_map_def bx fun_eq_iff)
  ultimately show ?case
    using f n ne bx by (simp add: delete_node_def next_of_def)
qed

lemma ms_delete_state:
  assumes st: "ms_state q xs pushes pops" and fuel: "length xs < fuel"
  shows "\<exists>h. ms_delete fuel q = Inr h \<and>
    (if tail_lags q then xs \<noteq> [] \<and> (\<exists>a n. h = [a \<mapsto> n] \<and> node_value n = last xs) else h = Map.empty)"
proof -
  obtain bs where bs: "xs = map snd bs" "ms_links q bs"
    "dom (msq_heap q) = set (nodes (head_ptr q) bs)"
    using st by (auto simp: ms_state_def)
  show ?thesis
  proof (cases "lags q bs")
    case False
    have "ms_delete fuel q = Inr (msq_heap q |` (- set (nodes (head_ptr q) bs)))"
      using ms_delete_loop_chain [of "msq_heap q" "head_ptr q" bs "[]" fuel] bs fuel False
      by (simp add: ms_delete_def ms_links_def lags_def flip: head_ptr_def tail_ptr_def)
    also have "msq_heap q |` (- set (nodes (head_ptr q) bs)) = Map.empty"
      using bs(3) by (auto simp: restrict_map_def fun_eq_iff)
    finally show ?thesis using tail_lags_iff [OF bs(2)] False by simp
  next
    case True
    obtain cs b x n where b: "bs = cs @ [(b, x)]" "tail_ptr q = last (nodes (head_ptr q) cs)"
      "msq_heap q (tail_ptr q) = Some n" "next_of n = b"
      using ms_links_lag [OF bs(2) True] by metis
    have del: "ms_delete fuel q = Inr (msq_heap q |` (- set (nodes (head_ptr q) cs)))"
      using ms_delete_loop_chain [of "msq_heap q" "head_ptr q" cs "[(b, x)]" fuel] bs fuel b
      by (simp add: ms_delete_def ms_links_def flip: head_ptr_def tail_ptr_def)
    obtain m where m: "msq_heap q b = Some m" "node_value m = x"
      using chain_snocD [of next_of node_value "msq_heap q" "head_ptr q" cs b x] bs(2) b(1) by (auto simp: ms_links_def)
    have fresh: "b \<notin> set (nodes (head_ptr q) cs)" using bs(2) b(1) by (simp add: ms_links_def)
    have "msq_heap q |` (- set (nodes (head_ptr q) cs)) = [b \<mapsto> m]"
    proof
      fix c
      have "msq_heap q c = None" if "c \<noteq> b" "c \<notin> set (nodes (head_ptr q) cs)"
        using that bs(3) b(1) by (metis UnE domIff nodes_simps(3) set_append singletonD list.set(1,2) fst_conv)
      then show "(msq_heap q |` (- set (nodes (head_ptr q) cs))) c = [b \<mapsto> m] c"
        using m fresh by (simp add: restrict_map_def)
    qed
    then have "\<exists>a n. msq_heap q |` (- set (nodes (head_ptr q) cs)) = [a \<mapsto> n] \<and> node_value n = last xs"
      using m bs(1) b(1) by auto
    moreover have "xs \<noteq> []" using bs(1) b(1) by simp
    ultimately show ?thesis using del tail_lags_iff [OF bs(2)] True by simp
  qed
qed

section \<open>Sequences of calls\<close>

text \<open>
  A sequence of calls, each with the spurious failures its loop meets. The observations are
  what the calls report: a push succeeded, or a pop delivered an element or found the queue
  empty, each with the version it wrote through \<open>head_state\<close>.
\<close>

datatype 'a ms_obs = MPushed | MPopped 'a u16 | MEmpty u16

fun ms_run ::
  "nat \<Rightarrow> 'a node alloc \<Rightarrow> 'a \<Rightarrow> ('a queue_op \<times> bool list) list \<Rightarrow> 'a msq \<Rightarrow>
   ('a ms_obs list \<times> 'a msq) result" where
  "ms_run fuel alloc e [] q = Inr ([], q)"
| "ms_run fuel alloc e ((Push x, sp) # ops) q =
     bindE (ms_push fuel sp alloc x q) (\<lambda>(_, q').
     bindE (ms_run fuel alloc e ops q') (\<lambda>(obs, q''). Inr (MPushed # obs, q'')))"
| "ms_run fuel alloc e ((Pop, sp) # ops) q =
     bindE (ms_pop fuel sp e (Some 0) q) (\<lambda>(ok, y, s, q').
     bindE (ms_run fuel alloc e ops q') (\<lambda>(obs, q'').
     Inr ((if ok then MPopped y (the s) else MEmpty (the s)) # obs, q'')))"

fun ms_spec :: "'a queue_op list \<Rightarrow> 'a list \<Rightarrow> u16 \<Rightarrow> u16 \<Rightarrow> 'a ms_obs list \<times> 'a list" where
  "ms_spec [] xs pushes pops = ([], xs)"
| "ms_spec (Push x # ops) xs pushes pops =
     (let (obs, ys) = ms_spec ops (xs @ [x]) (pushes + 1) pops in (MPushed # obs, ys))"
| "ms_spec (Pop # ops) [] pushes pops =
     (let (obs, ys) = ms_spec ops [] pushes pops in (MEmpty pushes # obs, ys))"
| "ms_spec (Pop # ops) (x # xs) pushes pops =
     (let (obs, ys) = ms_spec ops xs pushes (pops + 1) in (MPopped x pops # obs, ys))"

lemma ms_state_card:
  assumes "ms_state q xs pushes pops"
  shows "finite (dom (msq_heap q)) \<and> card (dom (msq_heap q)) = Suc (length xs)"
proof -
  obtain bs where bs: "xs = map snd bs" "ms_links q bs"
    "dom (msq_heap q) = set (nodes (head_ptr q) bs)"
    using assms by (auto simp: ms_state_def)
  then have "card (dom (msq_heap q)) = length (nodes (head_ptr q) bs)"
    by (simp only: distinct_card ms_links_def)
  then show ?thesis using bs by (simp add: nodes_def)
qed

lemma ms_run_state:
  assumes "ms_state q xs pushes pops" "alloc_room n alloc"
    and "\<forall>(op, sp) \<in> set ops. length sp + 2 < fuel" "length xs + length ops < n"
  shows "\<exists>q' pushes' pops'. ms_run fuel alloc e ops q =
      Inr (fst (ms_spec (map fst ops) xs pushes pops), q') \<and>
    ms_state q' (snd (ms_spec (map fst ops) xs pushes pops)) pushes' pops'"
  using assms
proof (induction ops arbitrary: q xs pushes pops)
  case Nil
  then show ?case by auto
next
  case (Cons c ops)
  obtain op sp where c: "c = (op, sp)" by (cases c)
  have fuel: "length sp + 2 < fuel" and fuels: "\<forall>(op, sp) \<in> set ops. length sp + 2 < fuel"
    using Cons.prems(3) c by auto
  have ok: "alloc_ok alloc" using Cons.prems(2) by (simp add: alloc_room_def)
  show ?case
  proof (cases op)
    case (Push x)
    have "alloc (msq_heap q) \<noteq> None"
      using ms_state_card [OF Cons.prems(1)] Cons.prems(2,4) by (simp add: alloc_room_def)
    then obtain q1 where q1: "ms_push fuel sp alloc x q = Inr (True, q1)"
      "ms_state q1 (xs @ [x]) (pushes + 1) pops"
      using ms_push_state [OF Cons.prems(1) ok fuel] by blast
    have "length (xs @ [x]) + length ops < n" using Cons.prems(4) by simp
    from Cons.IH [OF q1(2) Cons.prems(2) fuels this]
    show ?thesis by (elim exE conjE) (simp add: q1(1) c Push split_def Let_def, blast)
  next
    case Pop
    have fuel': "length sp + 1 < fuel" using fuel by simp
    show ?thesis
    proof (cases xs)
      case Nil
      have q1: "ms_pop fuel sp e (Some 0) q = Inr (False, e, Some pushes, q)"
        using ms_pop_state(1) [OF Cons.prems(1) fuel' Nil] by simp
      have "length xs + length ops < n" using Cons.prems(4) by simp
      from Cons.IH [OF Cons.prems(1,2) fuels this]
      obtain q' pushes' pops' where
        "ms_run fuel alloc e ops q = Inr (fst (ms_spec (map fst ops) [] pushes pops), q')"
        "ms_state q' (snd (ms_spec (map fst ops) [] pushes pops)) pushes' pops'"
        unfolding Nil by blast
      then show ?thesis by (intro exI conjI) (simp_all add: q1 c Pop Nil split_def Let_def)
    next
      case (Cons y ys)
      then obtain q1 where q1: "ms_pop fuel sp e (Some 0) q = Inr (True, y, Some pops, q1)"
        "ms_state q1 ys pushes (pops + 1)"
        using ms_pop_state(2) [OF Cons.prems(1) fuel' Cons, of e "Some 0"] by auto
      have "length ys + length ops < n" using Cons.prems(4) Cons by simp
      from Cons.IH [OF q1(2) Cons.prems(2) fuels this]
      show ?thesis by (elim exE conjE) (simp add: q1(1) c Pop Cons split_def Let_def, blast)
    qed
  qed
qed

lemma ms_repI: "ms_state q xs pushes pops \<Longrightarrow> ms_rep q xs"
  by (auto simp: ms_rep_state)

section \<open>A backend of the distributed container\<close>

definition ms_ops :: "bool list \<Rightarrow> 'a node alloc \<Rightarrow> 'a \<Rightarrow> ('a msq, 'a) backend_ops" where
  "ms_ops sp alloc dflt = \<lparr>
     backend_new = ms_new alloc dflt,
     backend_put = queue_put (length sp + 3) sp alloc,
     backend_get = queue_get (length sp + 3) sp,
     backend_pop = (\<lambda>e s q. bindE (ms_pop (length sp + 3) sp e (Some s) q)
       (\<lambda>(ok, e', s', q'). Inr (ok, e', the s', q'))),
     backend_empty = ms_empty 1,
     backend_tail_state = ms_tail_state\<rparr>"

lemma ms_backend_new:
  assumes "alloc_ok alloc"
  shows "backend_new (ms_ops sp alloc dflt) = Inl BadAlloc \<or>
    (\<exists>q. backend_new (ms_ops sp alloc dflt) = Inr q \<and> ms_rep q [])"
  using ms_new_total [OF assms, of dflt] ms_new_state [OF assms, of dflt]
  by (auto simp: ms_ops_def ms_rep_state)

lemma ms_backend_put:
  assumes "alloc_ok alloc" "ms_rep q xs"
  shows "backend_put (ms_ops sp alloc dflt) x q = Inl BadAlloc \<or>
    (\<exists>q'. backend_put (ms_ops sp alloc dflt) x q = Inr (True, q') \<and> ms_rep q' (xs @ [x]))"
proof -
  obtain pushes pops where st: "ms_state q xs pushes pops" using assms(2) by (auto simp: ms_rep_state)
  have fuel: "length sp + 2 < length sp + 3" by simp
  show ?thesis
    using ms_push_state [OF st assms(1) fuel, of x]
    by (cases "alloc (msq_heap q) = None") (auto simp: ms_ops_def queue_put_def ms_rep_state)
qed

lemma ms_backend_pop_nil:
  assumes "ms_rep q []"
  shows "backend_get (ms_ops sp alloc dflt) e q = Inr (False, e, q)"
    and "backend_pop (ms_ops sp alloc dflt) e s q =
      Inr (False, e, backend_tail_state (ms_ops sp alloc dflt) q, q)"
proof -
  obtain pushes pops where st: "ms_state q [] pushes pops" using assms by (auto simp: ms_rep_state)
  have fuel: "length sp + 1 < length sp + 3" by simp
  have "ms_tail_state q = pushes"
    using st by (auto simp: ms_state_def ms_tail_state_def advances_def ms_links_def)
  then show "backend_get (ms_ops sp alloc dflt) e q = Inr (False, e, q)"
    and "backend_pop (ms_ops sp alloc dflt) e s q =
      Inr (False, e, backend_tail_state (ms_ops sp alloc dflt) q, q)"
    using ms_pop_state(1) [OF st fuel] by (simp_all add: ms_ops_def queue_get_def)
qed

lemma ms_backend_pop_cons:
  assumes "ms_rep q (x # xs)"
  shows "\<exists>q'. backend_get (ms_ops sp alloc dflt) e q = Inr (True, x, q') \<and> ms_rep q' xs"
    and "\<exists>s' q'. backend_pop (ms_ops sp alloc dflt) e s q = Inr (True, x, s', q') \<and> ms_rep q' xs"
proof -
  obtain pushes pops where st: "ms_state q (x # xs) pushes pops"
    using assms by (auto simp: ms_rep_state)
  have fuel: "length sp + 1 < length sp + 3" by simp
  note pop = ms_pop_state(2) [OF st fuel refl, of e]
  show "\<exists>q'. backend_get (ms_ops sp alloc dflt) e q = Inr (True, x, q') \<and> ms_rep q' xs"
    using pop [of None] by (auto simp: ms_ops_def queue_get_def intro: ms_repI)
  show "\<exists>s' q'. backend_pop (ms_ops sp alloc dflt) e s q = Inr (True, x, s', q') \<and> ms_rep q' xs"
    using pop [of "Some s"] by (auto simp: ms_ops_def intro: ms_repI)
qed

lemma ms_backend:
  assumes "alloc_ok alloc"
  shows "backend (ms_ops sp alloc dflt) ms_rep"
proof
  show "backend_empty (ms_ops sp alloc dflt) q = Inr (xs = [])" if "ms_rep q xs" for q xs
    using that ms_empty_state [of q xs _ _ 1] by (auto simp: ms_ops_def ms_rep_state)
qed (rule ms_backend_new ms_backend_put ms_backend_pop_nil ms_backend_pop_cons assms | assumption)+

section \<open>Interpretation\<close>

interpretation ms: backend "ms_ops sp (checked_alloc alloc) dflt" ms_rep for sp alloc dflt
  by (rule ms_backend) (rule checked_alloc_ok)

text \<open>
  Without spurious failures the tail never lags between calls, and its state counts the pushes.
\<close>

definition settled :: "'a msq \<Rightarrow> 'a list \<Rightarrow> bool" where
  "settled q xs \<longleftrightarrow> ms_rep q xs \<and> \<not> tail_lags q"

lemma ms_state_settled: "ms_state q xs pushes pops \<Longrightarrow> \<not> tail_lags q \<Longrightarrow> ms_tail_state q = pushes"
  using tail_lags_iff by (fastforce simp: ms_state_def advances_def ms_tail_state_def)

lemma settled_state:
  "settled q xs \<longleftrightarrow> (\<exists>pops. ms_state q xs (ms_tail_state q) pops \<and> \<not> tail_lags q)"
  by (auto simp: settled_def ms_rep_state dest: ms_state_settled)

lemma ms_push_settled:
  assumes "settled q xs" "alloc_ok alloc"
  shows "ms_push (Suc fuel) [] alloc x q = ms_try_push alloc x (ms_tail_state q) q"
proof -
  obtain bs where bs: "ms_links q bs" using assms(1) by (auto simp: settled_def ms_rep_def)
  then have "\<not> lags q bs" using assms(1) tail_lags_iff by (auto simp: settled_def)
  then obtain n where n: "msq_heap q (tail_ptr q) = Some n" "next_of n = nullptr"
    using ms_links_last [OF bs] by blast
  show ?thesis
  proof (cases "alloc (msq_heap q)")
    case None
    then show ?thesis
      using n by (simp add: ms_push_def ms_try_push_def new_node_def ms_tail_state_def Let_def
          flip: tail_ptr_def next_of_def)
  next
    case (Some a)
    then have "msq_heap q a = None" "take_bit 48 a = a"
      using assms(2) by (auto simp: alloc_ok_def)
    moreover from this have "a \<noteq> tail_ptr q" using n by auto
    moreover note calculation
    ultimately show ?thesis
      using n Some by (simp add: ms_push_def ms_try_push_def new_node_def ms_tail_state_def Let_def
          cas_next_weak_def cas_next_strong_def atp_cas_weak_eq atp_cas_strong_eq spurious_def
          flip: tail_ptr_def next_of_def)
  qed
qed

lemma ms_pop_settled:
  assumes "settled q xs"
  shows "\<exists>ok e' s' q'. ms_pop (Suc fuel) [] e s q = Inr (ok, e', s', q') \<and> m_tail q' = m_tail q \<and>
    \<not> tail_lags q'"
proof -
  obtain bs where bs: "ms_links q bs" using assms by (auto simp: settled_def ms_rep_def)
  then have nl: "\<not> lags q bs" using assms tail_lags_iff by (auto simp: settled_def)
  show ?thesis
  proof (cases bs)
    case Nil
    then obtain n where "msq_heap q (head_ptr q) = Some n" "next_of n = nullptr" "tail_ptr q = head_ptr q"
      using ms_links_nil bs by metis
    then have "\<exists>s'. ms_pop (Suc fuel) [] e s q = Inr (False, e, s', q)"
      by (simp add: ms_pop_def Let_def flip: head_ptr_def tail_ptr_def next_of_def)
    then show ?thesis using assms by (auto simp: settled_def)
  next
    case (Cons bx cs)
    obtain b x where bx: "bx = (b, x)" by (cases bx)
    have ne: "head_ptr q \<noteq> tail_ptr q" using head_is_tail bs nl Cons by metis
    obtain n m where n: "msq_heap q (head_ptr q) = Some n" "next_of n = b" "msq_heap q b = Some m"
      "node_value m = x" "node_addr b"
      using ms_links_cons bs Cons bx by metis
    obtain k where "msq_heap q (tail_ptr q) = Some k" "next_of k = nullptr"
      using ms_links_last [OF bs nl] by blast
    then have "\<exists>e' s' q'. ms_pop (Suc fuel) [] e s q = Inr (True, e', s', q') \<and> m_tail q' = m_tail q \<and>
        \<not> tail_lags q'"
      using n ne by (simp add: ms_pop_def Let_def node_addr_simps atp_cas_weak_eq spurious_def
          delete_node_def tail_lags_def tail_ptr_def flip: head_ptr_def next_of_def)
    then show ?thesis by blast
  qed
qed

lemma settled_push:
  assumes "settled q xs" "alloc_ok alloc"
  shows "ms_push (Suc fuel) [] alloc x q = Inl BadAlloc \<or>
    (\<exists>q'. ms_push (Suc fuel) [] alloc x q = Inr (True, q') \<and> settled q' (xs @ [x]) \<and>
       ms_tail_state q' = ms_tail_state q + 1)"
proof -
  obtain pops where st: "ms_state q xs (ms_tail_state q) pops" "\<not> tail_lags q"
    using assms(1) by (auto simp: settled_state)
  have "ms_try_push alloc x (ms_tail_state q) q = Inl BadAlloc \<or>
    (\<exists>q'. ms_try_push alloc x (ms_tail_state q) q = Inr (True, q') \<and>
       ms_state q' (xs @ [x]) (ms_tail_state q + 1) pops \<and> \<not> tail_lags q')"
    using ms_try_push_state [OF st(1) assms(2), of "ms_tail_state q" x] st(2) by blast
  then show ?thesis
    unfolding ms_push_settled [OF assms] by (auto simp: settled_def intro: ms_repI dest: ms_state_settled)
qed

lemma settled_pop:
  assumes "settled q xs"
  shows "xs = [] \<Longrightarrow> ms_pop (Suc (Suc fuel)) [] e hs q = Inr (False, e, map_option (\<lambda>_. ms_tail_state q) hs, q)"
    and "xs = x # ys \<Longrightarrow> \<exists>s' q'. ms_pop (Suc (Suc fuel)) [] e hs q = Inr (True, x, map_option (\<lambda>_. s') hs, q') \<and>
      settled q' ys \<and> ms_tail_state q' = ms_tail_state q"
proof -
  obtain pops where st: "ms_state q xs (ms_tail_state q) pops" "\<not> tail_lags q"
    using assms(1) by (auto simp: settled_state)
  have fuel: "length [] + 1 < Suc (Suc fuel)" by simp
  show "ms_pop (Suc (Suc fuel)) [] e hs q = Inr (False, e, map_option (\<lambda>_. ms_tail_state q) hs, q)"
    if "xs = []"
    by (rule ms_pop_state(1) [OF st(1) fuel that])
  show "\<exists>s' q'. ms_pop (Suc (Suc fuel)) [] e hs q = Inr (True, x, map_option (\<lambda>_. s') hs, q') \<and>
      settled q' ys \<and> ms_tail_state q' = ms_tail_state q" if xs: "xs = x # ys"
  proof -
    obtain q' where q': "ms_pop (Suc (Suc fuel)) [] e hs q = Inr (True, x, map_option (\<lambda>_. pops) hs, q')"
      "ms_state q' ys (ms_tail_state q) (pops + 1)"
      using ms_pop_state(2) [OF st(1) fuel xs, of e hs] by metis
    have "m_tail q' = m_tail q" "\<not> tail_lags q'"
      using ms_pop_settled [OF assms, of "Suc fuel" e hs] q'(1) by auto
    then show ?thesis
      using q' by (auto simp: settled_def ms_tail_state_def intro: ms_repI)
  qed
qed

lemma ms_versioned_backend:
  assumes ok: "alloc_ok alloc"
  shows "versioned_backend (ms_ops [] alloc dflt) settled"
proof -
  let ?ops = "ms_ops [] alloc dflt"
  have new: "backend_new ?ops = Inl BadAlloc \<or> (\<exists>b. backend_new ?ops = Inr b \<and> settled b [])"
  proof (cases "ms_new alloc dflt")
    case (Inl e)
    then show ?thesis using ms_new_total [OF ok, of dflt] by (auto simp: ms_ops_def)
  next
    case (Inr q)
    have "ms_state q [] 0 0" by (rule ms_new_state [OF ok Inr])
    moreover from this have "ms_links q []" by (auto simp: ms_state_def)
    then have "\<not> tail_lags q" using tail_lags_iff [of q "[]"] by (auto simp: ms_links_def)
    ultimately show ?thesis using Inr by (auto simp: ms_ops_def settled_def intro: ms_repI)
  qed
  have three: "length [] + 3 = Suc (Suc (Suc 0))" by simp
  note defs = ms_ops_def queue_put_def queue_get_def three
  have put: "backend_put ?ops x q = Inl BadAlloc \<or>
      (\<exists>q'. backend_put ?ops x q = Inr (True, q') \<and> settled q' (xs @ [x]) \<and>
         backend_tail_state ?ops q' = backend_tail_state ?ops q + 1)" if "settled q xs" for q xs x
    using settled_push [OF that ok, of "Suc (Suc 0)" x] by (auto simp: defs simp del: list.size)
  have nil: "backend_get ?ops e q = Inr (False, e, q)"
    "backend_pop ?ops e st q = Inr (False, e, backend_tail_state ?ops q, q)" if "settled q []" for q e st
    using settled_pop(1) [OF that refl, of "Suc 0" e] by (simp_all add: defs del: list.size)
  have cons: "\<exists>q'. backend_get ?ops e q = Inr (True, x, q') \<and> settled q' xs \<and>
      backend_tail_state ?ops q' = backend_tail_state ?ops q"
    "\<exists>s' q'. backend_pop ?ops e st q = Inr (True, x, s', q') \<and> settled q' xs \<and>
      backend_tail_state ?ops q' = backend_tail_state ?ops q" if "settled q (x # xs)" for q x xs e st
    using settled_pop(2) [OF that refl, of "Suc 0" e None] settled_pop(2) [OF that refl, of "Suc 0" e "Some st"]
    by (auto simp: defs simp del: list.size)
  show ?thesis
  proof (unfold_locales)
    show "backend_empty ?ops q = Inr (xs = [])" if "settled q xs" for q xs
      using that ms_empty_state [of q xs _ _ 1] by (auto simp: ms_ops_def settled_state)
    show "backend_tail_state ?ops q' = backend_tail_state ?ops q"
      if "settled q xs" "backend_get ?ops e q = Inr (ok, e', q')" for q xs e ok e' q'
      using that nil(1) [of q e] cons(1) [of q "hd xs" "tl xs" e] by (cases xs) auto
    show "backend_tail_state ?ops q' = backend_tail_state ?ops q"
      if "settled q xs" "backend_pop ?ops e st q = Inr (ok, e', s', q')" for q xs e st ok e' s' q'
      using that nil(2) [of q e st] cons(2) [of q "hd xs" "tl xs" e st] by (cases xs) auto
    show "backend_tail_state ?ops q' = backend_tail_state ?ops q + 1"
      if "settled q xs" "backend_put ?ops x q = Inr (ok, q')" for q xs x ok q'
      using put [OF that(1), of x] that(2) by auto
    show "backend_get ?ops e q = Inr (False, e, q)" if "settled q []" for q e
      by (rule nil(1) [OF that])
    show "backend_pop ?ops e st q = Inr (False, e, backend_tail_state ?ops q, q)" if "settled q []" for q e st
      by (rule nil(2) [OF that])
    show "\<exists>q'. backend_get ?ops e q = Inr (True, x, q') \<and> settled q' xs" if "settled q (x # xs)" for q x xs e
      using cons(1) [OF that] by blast
    show "\<exists>s' q'. backend_pop ?ops e st q = Inr (True, x, s', q') \<and> settled q' xs"
      if "settled q (x # xs)" for q x xs e st
      using cons(2) [OF that] by blast
    show "backend_put ?ops x q = Inl BadAlloc \<or>
        (\<exists>q'. backend_put ?ops x q = Inr (True, q') \<and> settled q' (xs @ [x]))" if "settled q xs" for q xs x
      using put [OF that] by blast
  qed (rule new)
qed

interpretation quiet: versioned_backend "ms_ops [] (checked_alloc alloc) dflt" settled for alloc dflt
  by (rule ms_versioned_backend) (rule checked_alloc_ok)

lemma ms_new_room:
  assumes "alloc_ok alloc" "alloc (\<lambda>_. None) \<noteq> None"
  shows "\<exists>q. ms_new alloc dflt = Inr q"
proof -
  obtain a where a: "alloc (\<lambda>_. None) = Some a" using assms(2) by auto
  then have "take_bit 48 a = a" using assms(1) by (auto simp: alloc_ok_def)
  then have "tp_of_value a = Inr (tp_pack a 0)" by (simp add: tp_of_value_Inr_iff)
  then show ?thesis using a by (simp add: ms_new_def new_node_def)
qed

section \<open>Properties\<close>

text \<open>
  C3: From construction on, any sequence of calls of \<open>push\<close> and \<open>pop\<close> gives exactly the results
  of a FIFO list: elements come out in the order they went in, each once, \<open>pop\<close> fails exactly
  when the list is empty, and the version it writes is the number of pops (of pushes, on an
  empty queue) modulo \<open>2 ^ 16\<close>. This holds however often a weak compare-exchange fails
  spuriously; every loop ends within three more iterations than it has such failures, and no
  call touches a freed node or fails an assertion. \<open>empty\<close> then tells whether the list is
  empty.
\<close>

theorem ms_queue_refines_fifo:
  assumes "alloc_room n alloc" "length ops < n" "\<forall>(op, sp) \<in> set ops. length sp + 2 < fuel"
  shows "\<exists>q q'. ms_new alloc dflt = Inr q \<and>
    ms_run fuel alloc dflt ops q = Inr (fst (ms_spec (map fst ops) [] 0 0), q') \<and>
    ms_empty 1 q' = Inr (snd (ms_spec (map fst ops) [] 0 0) = [])"
proof -
  have ok: "alloc_ok alloc" "alloc (\<lambda>_. None) \<noteq> None"
    using assms(1,2) by (auto simp: alloc_room_def)
  obtain q where q: "ms_new alloc dflt = Inr q"
    using ms_new_room [OF ok, of dflt] by blast
  have "length ([] :: 'a list) + length ops < n" using assms(2) by simp
  from ms_run_state [OF ms_new_state [OF ok(1) q] assms(1,3) this, of dflt]
  obtain q' pushes pops where
    "ms_run fuel alloc dflt ops q = Inr (fst (ms_spec (map fst ops) [] 0 0), q')"
    "ms_state q' (snd (ms_spec (map fst ops) [] 0 0)) pushes pops" by blast
  then show ?thesis using q ms_empty_state [of q' _ pushes pops 1] by auto
qed

theorem ms_queue_refines_fifo_witness:
  "\<exists>q q'. ms_new (pool_alloc [1, 2, 3, 4]) (0 :: nat) = Inr q \<and>
    ms_run 6 (pool_alloc [1, 2, 3, 4]) 0 [(Push 5, [False, True]), (Pop, [True]), (Pop, [])] q =
      Inr ([MPushed, MPopped 5 0, MEmpty 1], q') \<and> ms_empty 1 q' = Inr True"
proof -
  have "alloc_room 4 (pool_alloc [1, 2, 3, 4] :: nat node alloc)"
    by (rule pool_alloc_four)
  from ms_queue_refines_fifo [OF this, of "[(Push 5, [False, True]), (Pop, [True]), (Pop, [])]" 6 0]
  show ?thesis by simp
qed

text \<open>A queue with one element whose push met a spurious failure: the tail lags.\<close>

definition demo_queue :: "nat msq" where
  "demo_queue = \<lparr>
     msq_heap = [1 \<mapsto> \<lparr>node_value = 0, node_next = atp_store atp_default (tp_pack 2 1)\<rparr>,
                 2 \<mapsto> \<lparr>node_value = 5, node_next = atp_default\<rparr>],
     m_head = atp_store atp_default (tp_pack 1 0), m_tail = atp_store atp_default (tp_pack 1 0)\<rparr>"

lemma demo_queue_state: "ms_state demo_queue [5] 1 0"
proof -
  have p: "head_ptr demo_queue = 1" "tail_ptr demo_queue = 1"
    by (simp_all add: head_ptr_def tail_ptr_def demo_queue_def)
  have l: "lags demo_queue [(2, 5)]" by (simp add: lags_def p)
  have "ms_links demo_queue [(2, 5)]"
    using l by (simp add: ms_links_def p) (simp add: demo_queue_def next_of_def node_addr_def)
  then show ?thesis
    using l by (intro ms_stateI [of _ "[(2, 5)]"]) (auto simp: p advances_def, auto simp: demo_queue_def split: if_splits)
qed

lemma demo_queue_lags: "tail_lags demo_queue"
  by (simp add: tail_lags_def tail_ptr_def) (simp add: demo_queue_def next_of_def)

text \<open>
  C31: \<open>try_push\<close> succeeds exactly when the given version is the current \<open>tail_state\<close> and the tail
  is the last node; it then appends the element and leaves the tail on it. With an outdated
  version it changes nothing; with a lagging tail it fails but moves the tail on; when the
  allocation throws, nothing is changed.
\<close>

theorem ms_try_push_correct:
  assumes "ms_state q xs pushes pops" "alloc_ok alloc"
  shows "(ms_tail_state q \<noteq> s \<longrightarrow> ms_try_push alloc x s q = Inr (False, q)) \<and>
    (ms_tail_state q = s \<and> tail_lags q \<longrightarrow>
      (\<exists>q'. ms_try_push alloc x s q = Inr (False, q') \<and> ms_state q' xs pushes pops \<and>
        \<not> tail_lags q')) \<and>
    (ms_tail_state q = s \<and> \<not> tail_lags q \<and> alloc (msq_heap q) = None \<longrightarrow>
      ms_try_push alloc x s q = Inl BadAlloc) \<and>
    (ms_tail_state q = s \<and> \<not> tail_lags q \<and> alloc (msq_heap q) \<noteq> None \<longrightarrow>
      (\<exists>q'. ms_try_push alloc x s q = Inr (True, q') \<and> ms_state q' (xs @ [x]) (pushes + 1) pops \<and>
        \<not> tail_lags q'))"
  by (rule ms_try_push_state [OF assms])

theorem ms_try_push_correct_witness:
  "\<exists>q'. ms_try_push (pool_alloc [1, 2, 3, 4]) 7 0 demo_queue = Inr (False, q') \<and>
    ms_state q' [5] 1 0 \<and> \<not> tail_lags q'"
proof -
  have "alloc_room 4 (pool_alloc [1, 2, 3, 4] :: nat node alloc)"
    by (rule pool_alloc_four)
  then have ok: "alloc_ok (pool_alloc [1, 2, 3, 4] :: nat node alloc)" by (simp add: alloc_room_def)
  have "ms_tail_state demo_queue = 0" by (simp add: ms_tail_state_def demo_queue_def)
  then show ?thesis
    using ms_try_push_correct [OF demo_queue_state ok, of 0 7] demo_queue_lags by blast
qed



text \<open>
  C33: The destructor ends after at most one iteration per element and one more, and touches no
  freed node. It frees every node exactly when the tail is the last node; when the tail lags
  (a weak compare-exchange of \<open>push\<close> failed spuriously), the last node, which holds the newest
  element, is never freed.
\<close>

theorem ms_delete_frees:
  assumes "ms_state q xs pushes pops" "length xs < fuel"
  shows "\<exists>h. ms_delete fuel q = Inr h \<and>
    (if tail_lags q then xs \<noteq> [] \<and> (\<exists>a n. h = [a \<mapsto> n] \<and> node_value n = last xs) else h = Map.empty)"
  by (rule ms_delete_state [OF assms])

theorem ms_delete_frees_witness:
  "\<exists>a n. ms_delete 2 demo_queue = Inr [a \<mapsto> n] \<and> node_value n = 5"
  using ms_delete_frees [OF demo_queue_state, of 2] demo_queue_lags by auto

end
