(* ===== verification/MS_Concurrent.thy ===== *)
theory MS_Concurrent
  imports MS_Queue
begin

text \<open>
  \<^verbatim>\<open>include/ni/cds/ms_queue.hh\<close> with any number of threads running at the same time. Every
  operation is cut at its accesses to shared memory: \<open>m_head\<close>, \<open>m_tail\<close>, the \<open>next\<close> cells,
  the allocator. What a thread holds in local variables is in its program point, and a
  schedule interleaves the accesses of the threads in any order. Memory is sequentially
  consistent.

  The second part is the specification: a FIFO queue with two counters, on which the
  operations take effect at once, each between its call and its return.
\<close>

section \<open>Program points\<close>

text \<open>
  A program point is named after the access that comes next and holds the local variables
  that are still used: \<open>node\<close>, \<open>old_head\<close>, \<open>old_tail\<close>, \<open>next\<close>, the element.
\<close>

datatype 'a push_pc =
    PushNew 'a
  | PushTail addr
  | PushNext addr tagged_ptr
  | PushCheck addr tagged_ptr tagged_ptr
  | PushLink addr tagged_ptr tagged_ptr
  | PushSwing addr tagged_ptr
  | PushHelp addr tagged_ptr tagged_ptr

datatype 'a try_push_pc =
    TryPushTail 'a u16
  | TryPushNext 'a tagged_ptr
  | TryPushNew 'a tagged_ptr tagged_ptr
  | TryPushLink addr tagged_ptr tagged_ptr
  | TryPushSwing addr tagged_ptr
  | TryPushHelp tagged_ptr tagged_ptr
  | TryPushFree addr

datatype 'a pop_pc =
    PopHead
  | PopTail tagged_ptr
  | PopNext tagged_ptr tagged_ptr
  | PopCheck tagged_ptr tagged_ptr tagged_ptr
  | PopHelp tagged_ptr tagged_ptr
  | PopValue tagged_ptr tagged_ptr
  | PopCas tagged_ptr tagged_ptr 'a
  | PopFree tagged_ptr 'a

datatype 'a try_pop_pc =
    TryPopHead u16
  | TryPopTail u16 tagged_ptr
  | TryPopNext u16 tagged_ptr tagged_ptr
  | TryPopHelp tagged_ptr tagged_ptr
  | TryPopValue tagged_ptr tagged_ptr
  | TryPopCas tagged_ptr tagged_ptr 'a
  | TryPopFree tagged_ptr 'a

datatype empty_pc =
    EmptyHead
  | EmptyTail tagged_ptr
  | EmptyNext tagged_ptr tagged_ptr
  | EmptyCheck tagged_ptr tagged_ptr tagged_ptr

text \<open>
  The operations with their arguments, and what they return: \<open>push\<close>, \<open>try_push\<close> and \<open>empty\<close> a
  \<open>bool\<close>; \<open>tail_state\<close> a state; \<open>pop\<close> the element and the state it stores when it returns
  true, and the state alone when it returns false; \<open>try_pop\<close> a \<open>PopResult\<close> with the element of a
  success and the state of an empty queue.
\<close>

datatype 'a ms_op =
    OpPush 'a
  | OpTryPush 'a u16
  | OpTailState
  | OpPop
  | OpTryPop u16
  | OpEmpty

datatype 'a ms_ret =
    RBool bool
  | RState u16
  | RPopped 'a u16
  | RNone u16
  | RTaken 'a
  | RFailure

text \<open>
  Steps are observed as events. \<open>EPush\<close> marks the step that links a node, \<open>EPop\<close> the step that
  moves the head, \<open>ELook\<close> the reads at which an operation learns whether the queue is empty.
\<close>

datatype 'a ms_event = ECall "'a ms_op" | EPush | EPop | ELook | ERet "'a ms_ret"

type_synonym ('p, 'a) outcome = "('p + 'a ms_ret) \<times> 'a msq \<times> 'a ms_event list"

section \<open>The accesses of the operations\<close>

text \<open>
  \<open>new Node(element)\<close> returns the address \<open>a\<close>, if that is one the allocator may return, and
  otherwise throws. \<open>delete\<close> frees the node if \<open>reclaim\<close> holds, as the code does. With \<open>reclaim\<close>
  false nodes are never freed, as if memory were reclaimed only after the last use.
\<close>

definition new_node_at :: "addr option \<Rightarrow> 'a \<Rightarrow> (addr \<rightharpoonup> 'a node) \<Rightarrow> (addr \<times> (addr \<rightharpoonup> 'a node)) result" where
  "new_node_at a x h = new_node (checked_alloc (\<lambda>_. a)) x h"

definition free_node :: "bool \<Rightarrow> addr \<Rightarrow> (addr \<rightharpoonup> 'a node) \<Rightarrow> (addr \<rightharpoonup> 'a node) result" where
  "free_node reclaim a h =
     (if reclaim then delete_node a h else if h a = None then Inl (BadDeref a) else Inr h)"

text \<open>\<open>sp\<close> says whether a weak compare-exchange in this step fails spuriously.\<close>

fun push_go :: "bool \<Rightarrow> addr option \<Rightarrow> 'a push_pc \<Rightarrow> 'a msq \<Rightarrow> ('a push_pc, 'a) outcome result" where
  "push_go sp a (PushNew x) q =
     bindE (new_node_at a x (msq_heap q)) (\<lambda>(node, h).
     Inr (Inl (PushTail node), q\<lparr>msq_heap := h\<rparr>, []))"
| "push_go sp a (PushTail node) q = Inr (Inl (PushNext node (atp_load (m_tail q))), q, [])"
| "push_go sp a (PushNext node old_tail) q =
     bindE (load_next (msq_heap q) (tp_value old_tail)) (\<lambda>next.
     Inr (Inl (PushCheck node old_tail next), q, []))"
| "push_go sp a (PushCheck node old_tail next) q =
     Inr (if tp_neq (atp_load (m_tail q)) old_tail then Inl (PushTail node)
          else if tp_value next = nullptr then Inl (PushLink node old_tail next)
          else Inl (PushHelp node old_tail next), q, [])"
| "push_go sp a (PushLink node old_tail next) q =
     bindE (tp_make node (tp_tag next + 1)) (\<lambda>linked.
     bindE (cas_next_weak sp (tp_value old_tail) next linked (msq_heap q)) (\<lambda>(ok, _, h).
     Inr (if ok then (Inl (PushSwing node old_tail), q\<lparr>msq_heap := h\<rparr>, [EPush])
          else (Inl (PushTail node), q\<lparr>msq_heap := h\<rparr>, []))))"
| "push_go sp a (PushSwing node old_tail) q =
     bindE (tp_make node (tp_tag old_tail + 1)) (\<lambda>desired.
     let (_, cell, _) = atp_cas_weak sp (m_tail q) old_tail desired
     in Inr (Inr (RBool True), q\<lparr>m_tail := cell\<rparr>, []))"
| "push_go sp a (PushHelp node old_tail next) q =
     bindE (tp_make (tp_value next) (tp_tag old_tail + 1)) (\<lambda>desired.
     let (_, cell, old_tail') = atp_cas_weak sp (m_tail q) old_tail desired
     in Inr (Inl (PushNext node old_tail'), q\<lparr>m_tail := cell\<rparr>, []))"

fun try_push_go ::
  "bool \<Rightarrow> addr option \<Rightarrow> 'a try_push_pc \<Rightarrow> 'a msq \<Rightarrow> ('a try_push_pc, 'a) outcome result" where
  "try_push_go reclaim a (TryPushTail x old_tail_state) q =
     (let old_tail = atp_load (m_tail q) in
      Inr (if tp_tag old_tail = old_tail_state then Inl (TryPushNext x old_tail)
           else Inr (RBool False), q, []))"
| "try_push_go reclaim a (TryPushNext x old_tail) q =
     bindE (load_next (msq_heap q) (tp_value old_tail)) (\<lambda>next.
     Inr (if tp_value next = nullptr then Inl (TryPushNew x old_tail next)
          else Inl (TryPushHelp old_tail next), q, []))"
| "try_push_go reclaim a (TryPushNew x old_tail next) q =
     bindE (new_node_at a x (msq_heap q)) (\<lambda>(node, h).
     Inr (Inl (TryPushLink node old_tail next), q\<lparr>msq_heap := h\<rparr>, []))"
| "try_push_go reclaim a (TryPushLink node old_tail next) q =
     bindE (tp_make node (tp_tag next + 1)) (\<lambda>linked.
     bindE (cas_next_strong (tp_value old_tail) next linked (msq_heap q)) (\<lambda>(ok, _, h).
     Inr (if ok then (Inl (TryPushSwing node old_tail), q\<lparr>msq_heap := h\<rparr>, [EPush])
          else (Inl (TryPushFree node), q\<lparr>msq_heap := h\<rparr>, []))))"
| "try_push_go reclaim a (TryPushSwing node old_tail) q =
     bindE (tp_make node (tp_tag old_tail + 1)) (\<lambda>desired.
     let (_, cell, _) = atp_cas_strong (m_tail q) old_tail desired
     in Inr (Inr (RBool True), q\<lparr>m_tail := cell\<rparr>, []))"
| "try_push_go reclaim a (TryPushHelp old_tail next) q =
     bindE (tp_make (tp_value next) (tp_tag old_tail + 1)) (\<lambda>desired.
     let (_, cell, _) = atp_cas_strong (m_tail q) old_tail desired
     in Inr (Inr (RBool False), q\<lparr>m_tail := cell\<rparr>, []))"
| "try_push_go reclaim a (TryPushFree node) q =
     bindE (free_node reclaim node (msq_heap q)) (\<lambda>h.
     Inr (Inr (RBool False), q\<lparr>msq_heap := h\<rparr>, []))"

fun pop_go :: "bool \<Rightarrow> bool \<Rightarrow> 'a pop_pc \<Rightarrow> 'a msq \<Rightarrow> ('a pop_pc, 'a) outcome result" where
  "pop_go reclaim sp PopHead q = Inr (Inl (PopTail (atp_load (m_head q))), q, [])"
| "pop_go reclaim sp (PopTail old_head) q = Inr (Inl (PopNext old_head (atp_load (m_tail q))), q, [])"
| "pop_go reclaim sp (PopNext old_head old_tail) q =
     bindE (load_next (msq_heap q) (tp_value old_head)) (\<lambda>next.
     Inr (Inl (PopCheck old_head old_tail next), q, [ELook]))"
| "pop_go reclaim sp (PopCheck old_head old_tail next) q =
     Inr (if tp_neq (atp_load (m_head q)) old_head then Inl PopHead
          else if tp_value old_head = tp_value old_tail then
            if tp_value next = nullptr then Inr (RNone (tp_tag old_tail))
            else Inl (PopHelp old_tail next)
          else Inl (PopValue old_head next), q, [])"
| "pop_go reclaim sp (PopHelp old_tail next) q =
     bindE (tp_make (tp_value next) (tp_tag old_tail + 1)) (\<lambda>desired.
     let (_, cell, _) = atp_cas_weak sp (m_tail q) old_tail desired
     in Inr (Inl PopHead, q\<lparr>m_tail := cell\<rparr>, []))"
| "pop_go reclaim sp (PopValue old_head next) q =
     bindE (load_value (msq_heap q) (tp_value next)) (\<lambda>element.
     Inr (Inl (PopCas old_head next element), q, []))"
| "pop_go reclaim sp (PopCas old_head next element) q =
     bindE (tp_make (tp_value next) (tp_tag old_head + 1)) (\<lambda>desired.
     let (ok, cell, _) = atp_cas_weak sp (m_head q) old_head desired
     in Inr (if ok then (Inl (PopFree old_head element), q\<lparr>m_head := cell\<rparr>, [EPop])
             else (Inl PopHead, q\<lparr>m_head := cell\<rparr>, [])))"
| "pop_go reclaim sp (PopFree old_head element) q =
     bindE (free_node reclaim (tp_value old_head) (msq_heap q)) (\<lambda>h.
     Inr (Inr (RPopped element (tp_tag old_head)), q\<lparr>msq_heap := h\<rparr>, []))"

fun try_pop_go :: "bool \<Rightarrow> 'a try_pop_pc \<Rightarrow> 'a msq \<Rightarrow> ('a try_pop_pc, 'a) outcome result" where
  "try_pop_go reclaim (TryPopHead st) q = Inr (Inl (TryPopTail st (atp_load (m_head q))), q, [])"
| "try_pop_go reclaim (TryPopTail st old_head) q =
     Inr (Inl (TryPopNext st old_head (atp_load (m_tail q))), q, [])"
| "try_pop_go reclaim (TryPopNext st old_head old_tail) q =
     bindE (load_next (msq_heap q) (tp_value old_head)) (\<lambda>next.
     Inr (if tp_tag old_head = st then
            if tp_value old_head = tp_value old_tail then
              if tp_value next = nullptr then Inr (RNone (tp_tag old_tail))
              else Inl (TryPopHelp old_tail next)
            else Inl (TryPopValue old_head next)
          else Inr RFailure, q, [ELook]))"
| "try_pop_go reclaim (TryPopHelp old_tail next) q =
     bindE (tp_make (tp_value next) (tp_tag old_tail + 1)) (\<lambda>desired.
     let (_, cell, _) = atp_cas_strong (m_tail q) old_tail desired
     in Inr (Inr RFailure, q\<lparr>m_tail := cell\<rparr>, []))"
| "try_pop_go reclaim (TryPopValue old_head next) q =
     bindE (load_value (msq_heap q) (tp_value next)) (\<lambda>element.
     Inr (Inl (TryPopCas old_head next element), q, []))"
| "try_pop_go reclaim (TryPopCas old_head next element) q =
     bindE (tp_make (tp_value next) (tp_tag old_head + 1)) (\<lambda>desired.
     let (ok, cell, _) = atp_cas_strong (m_head q) old_head desired
     in Inr (if ok then (Inl (TryPopFree old_head element), q\<lparr>m_head := cell\<rparr>, [EPop])
             else (Inr RFailure, q\<lparr>m_head := cell\<rparr>, [])))"
| "try_pop_go reclaim (TryPopFree old_head element) q =
     bindE (free_node reclaim (tp_value old_head) (msq_heap q)) (\<lambda>h.
     Inr (Inr (RTaken element), q\<lparr>msq_heap := h\<rparr>, []))"

fun empty_go :: "empty_pc \<Rightarrow> 'a msq \<Rightarrow> (empty_pc, 'a) outcome result" where
  "empty_go EmptyHead q = Inr (Inl (EmptyTail (atp_load (m_head q))), q, [])"
| "empty_go (EmptyTail old_head) q = Inr (Inl (EmptyNext old_head (atp_load (m_tail q))), q, [])"
| "empty_go (EmptyNext old_head old_tail) q =
     bindE (load_next (msq_heap q) (tp_value old_head)) (\<lambda>next.
     Inr (Inl (EmptyCheck old_head old_tail next), q, [ELook]))"
| "empty_go (EmptyCheck old_head old_tail next) q =
     Inr (if tp_eq (atp_load (m_head q)) old_head
          then Inr (RBool (tp_value old_head = tp_value old_tail \<and> tp_value next = nullptr))
          else Inl EmptyHead, q, [ELook])"

definition tail_state_go :: "'a msq \<Rightarrow> (unit, 'a) outcome result" where
  "tail_state_go q = Inr (Inr (RState (tp_tag (atp_load (m_tail q)))), q, [ELook])"

section \<open>Threads\<close>

datatype 'a ms_pc =
    Ready
  | InPush "'a push_pc"
  | InTryPush "'a try_push_pc"
  | InTailState
  | InPop "'a pop_pc"
  | InTryPop "'a try_pop_pc"
  | InEmpty empty_pc

record ('t, 'a) ms_threads =
  the_queue :: "'a msq"
  pc_of :: "'t \<Rightarrow> 'a ms_pc"

fun ms_begin :: "'a ms_op \<Rightarrow> 'a ms_pc" where
  "ms_begin (OpPush x) = InPush (PushNew x)"
| "ms_begin (OpTryPush x st) = InTryPush (TryPushTail x st)"
| "ms_begin OpTailState = InTailState"
| "ms_begin OpPop = InPop PopHead"
| "ms_begin (OpTryPop st) = InTryPop (TryPopHead st)"
| "ms_begin OpEmpty = InEmpty EmptyHead"

text \<open>Going on after an access: at another program point, or out of the operation.\<close>

definition go_on ::
  "('p \<Rightarrow> 'a ms_pc) \<Rightarrow> ('p, 'a) outcome result \<Rightarrow> ('a ms_pc \<times> 'a msq \<times> 'a ms_event list) result" where
  "go_on wrap r =
     bindE r (\<lambda>(k, q, es).
     Inr (case k of Inl p \<Rightarrow> (wrap p, q, es) | Inr v \<Rightarrow> (Ready, q, es @ [ERet v])))"

fun ms_go :: "bool \<Rightarrow> bool \<Rightarrow> addr option \<Rightarrow> 'a ms_pc \<Rightarrow> 'a msq \<Rightarrow>
    ('a ms_pc \<times> 'a msq \<times> 'a ms_event list) result" where
  "ms_go reclaim sp a Ready q = Inr (Ready, q, [])"
| "ms_go reclaim sp a (InPush p) q = go_on InPush (push_go sp a p q)"
| "ms_go reclaim sp a (InTryPush p) q = go_on InTryPush (try_push_go reclaim a p q)"
| "ms_go reclaim sp a InTailState q = go_on (\<lambda>_. InTailState) (tail_state_go q)"
| "ms_go reclaim sp a (InPop p) q = go_on InPop (pop_go reclaim sp p q)"
| "ms_go reclaim sp a (InTryPop p) q = go_on InTryPop (try_pop_go reclaim p q)"
| "ms_go reclaim sp a (InEmpty p) q = go_on InEmpty (empty_go p q)"

text \<open>
  A schedule is a list of choices: a thread that is not in a call begins one, or a thread makes
  its next access, with what the environment decides in it.
\<close>

datatype ('t, 'a) ms_choice = Call 't "'a ms_op" | Access 't bool "addr option"

fun ms_next :: "bool \<Rightarrow> ('t, 'a) ms_choice \<Rightarrow> ('t, 'a) ms_threads \<Rightarrow>
    (('t, 'a) ms_threads \<times> ('t \<times> 'a ms_event) list) result" where
  "ms_next reclaim (Call t op) s =
     Inr (if pc_of s t = Ready
          then (s\<lparr>pc_of := (pc_of s)(t := ms_begin op)\<rparr>, [(t, ECall op)]) else (s, []))"
| "ms_next reclaim (Access t sp a) s =
     bindE (ms_go reclaim sp a (pc_of s t) (the_queue s)) (\<lambda>(p, q, es).
     Inr (s\<lparr>the_queue := q, pc_of := (pc_of s)(t := p)\<rparr>, map (Pair t) es))"

fun ms_exec :: "bool \<Rightarrow> ('t, 'a) ms_choice list \<Rightarrow> ('t, 'a) ms_threads \<Rightarrow>
    (('t, 'a) ms_threads \<times> ('t \<times> 'a ms_event) list) result" where
  "ms_exec reclaim [] s = Inr (s, [])"
| "ms_exec reclaim (c # cs) s =
     bindE (ms_next reclaim c s) (\<lambda>(s', es).
     bindE (ms_exec reclaim cs s') (\<lambda>(s'', es').
     Inr (s'', es @ es')))"

definition ms_threads_init :: "'a msq \<Rightarrow> ('t, 'a) ms_threads" where
  "ms_threads_init q = \<lparr>the_queue = q, pc_of = \<lambda>_. Ready\<rparr>"

section \<open>The specification\<close>

text \<open>
  A FIFO queue with the numbers, modulo \<open>2 ^ 16\<close>, of elements pushed and popped so far, and for
  every thread what its call has done and seen: a running call collects what it saw, whether
  the queue was empty and how many elements had been pushed.
\<close>

record 'a fifo =
  items :: "'a list"
  n_push :: u16
  n_pop :: u16

datatype 'a status = Idle | Running "'a ms_op" "(bool \<times> u16) list" | Done "'a ms_op" "'a ms_ret"

text \<open>What a call that changes nothing may return, after what it saw.\<close>

fun may_return :: "'a ms_op \<Rightarrow> (bool \<times> u16) list \<Rightarrow> 'a ms_ret \<Rightarrow> bool" where
  "may_return (OpPush x) seen r = False"
| "may_return (OpTryPush x st) seen r = (r = RBool False)"
| "may_return OpTailState seen r = (\<exists>(b, v) \<in> set seen. r = RState v \<or> r = RState (v - 1))"
| "may_return OpPop seen r = (\<exists>(b, v) \<in> set seen. b \<and> r = RNone v)"
| "may_return (OpTryPop st) seen r = (r = RFailure \<or> (\<exists>(b, v) \<in> set seen. b \<and> r = RNone v))"
| "may_return OpEmpty seen r = (\<exists>(b, v) \<in> set seen. r = RBool b)"

fun fifo_go :: "'a ms_event \<Rightarrow> 'a fifo \<Rightarrow> 'a status \<Rightarrow> ('a fifo \<times> 'a status) option" where
  "fifo_go (ECall op) f Idle = Some (f, Running op [])"
| "fifo_go EPush f (Running (OpPush x) seen) =
     Some (f\<lparr>items := items f @ [x], n_push := n_push f + 1\<rparr>, Done (OpPush x) (RBool True))"
| "fifo_go EPush f (Running (OpTryPush x st) seen) =
     (if st = n_push f
      then Some (f\<lparr>items := items f @ [x], n_push := n_push f + 1\<rparr>, Done (OpTryPush x st) (RBool True))
      else None)"
| "fifo_go EPop f (Running OpPop seen) =
     (case items f of [] \<Rightarrow> None
      | x # xs \<Rightarrow> Some (f\<lparr>items := xs, n_pop := n_pop f + 1\<rparr>, Done OpPop (RPopped x (n_pop f))))"
| "fifo_go EPop f (Running (OpTryPop st) seen) =
     (case items f of [] \<Rightarrow> None
      | x # xs \<Rightarrow>
          if st = n_pop f
          then Some (f\<lparr>items := xs, n_pop := n_pop f + 1\<rparr>, Done (OpTryPop st) (RTaken x)) else None)"
| "fifo_go ELook f (Running op seen) =
     Some (f, Running op (seen @ [(items f = [], n_push f)]))"
| "fifo_go (ERet r) f (Done op r') = (if r = r' then Some (f, Idle) else None)"
| "fifo_go (ERet r) f (Running op seen) = (if may_return op seen r then Some (f, Idle) else None)"
| "fifo_go _ f _ = None"

fun fifo_run :: "'a ms_event list \<Rightarrow> 'a fifo \<Rightarrow> 'a status \<Rightarrow> ('a fifo \<times> 'a status) option" where
  "fifo_run [] f st = Some (f, st)"
| "fifo_run (e # es) f st =
     (case fifo_go e f st of None \<Rightarrow> None | Some (f', st') \<Rightarrow> fifo_run es f' st')"

text \<open>\<open>fifo_trace\<close> says that the events of all threads are a run of the specification.\<close>

fun fifo_trace :: "('t \<times> 'a ms_event) list \<Rightarrow> 'a fifo \<Rightarrow> ('t \<Rightarrow> 'a status) \<Rightarrow> ('a fifo \<times> ('t \<Rightarrow> 'a status)) option" where
  "fifo_trace [] f st = Some (f, st)"
| "fifo_trace ((t, e) # es) f st =
     (case fifo_go e f (st t) of None \<Rightarrow> None | Some (f', x) \<Rightarrow> fifo_trace es f' (st(t := x)))"

definition fifo_init :: "'a fifo" where
  "fifo_init = \<lparr>items = [], n_push = 0, n_pop = 0\<rparr>"

lemma fifo_trace_append:
  "fifo_trace (es @ es') f st =
    (case fifo_trace es f st of None \<Rightarrow> None | Some (f', st') \<Rightarrow> fifo_trace es' f' st')"
  by (induction es arbitrary: f st) (auto split: option.splits)

lemma fifo_trace_thread:
  "fifo_trace (map (Pair t) es) f st =
    (case fifo_run es f (st t) of None \<Rightarrow> None | Some (f', x) \<Rightarrow> Some (f', st(t := x)))"
  by (induction es arbitrary: f st) (auto split: option.splits)

lemma fifo_run_append:
  "fifo_run (es @ es') f st =
    (case fifo_run es f st of None \<Rightarrow> None | Some (f', st') \<Rightarrow> fifo_run es' f' st')"
  by (induction es arbitrary: f st) (auto split: option.splits)

end
