(* ===== verification/MS_Linear.thy ===== *)
theory MS_Linear
  imports MS_Concurrent
begin

text \<open>
  Every interleaving of the operations of \<^verbatim>\<open>include/ni/cds/ms_queue.hh\<close> is a run of the FIFO
  specification of \<open>MS_Concurrent\<close>, as long as no thread touches a freed node. The proof
  keeps the list of all nodes ever linked; a pointer that a thread has read is a position in
  it, and what the thread knows about the position stays true whatever the others do.
\<close>

text \<open>What a call may return, from one thing it saw.\<close>

lemma may_return_seen [simp]:
  "(True, v) \<in> set seen \<Longrightarrow> may_return OpPop seen (RNone v)"
  "(True, v) \<in> set seen \<Longrightarrow> may_return (OpTryPop s) seen (RNone v)"
  "(b, v) \<in> set seen \<Longrightarrow> may_return OpEmpty seen (RBool b)"
  "(b, v) \<in> set seen \<Longrightarrow> may_return OpTailState seen (RState v)"
  "(b, v) \<in> set seen \<Longrightarrow> may_return OpTailState seen (RState (v - 1))"
  "may_return (OpTryPush x s) seen (RBool False)"
  "may_return (OpTryPop s) seen RFailure"
  by force+

declare may_return.simps [simp del]

section \<open>The linked nodes\<close>

text \<open>All nodes linked so far, in this order, and the positions of head and tail in the list.\<close>

record trail =
  g_nodes :: "addr list"
  g_head :: nat
  g_tail :: nat

definition snap_at :: "trail \<Rightarrow> nat \<Rightarrow> tagged_ptr \<Rightarrow> bool" where
  "snap_at g i w \<longleftrightarrow>
     i < length (g_nodes g) \<and> g_nodes g ! i = tp_value w \<and> tp_tag w = of_nat i"

definition succ_of :: "trail \<Rightarrow> nat \<Rightarrow> addr" where
  "succ_of g i = (if Suc i < length (g_nodes g) then g_nodes g ! Suc i else nullptr)"

lemma trail_upd [simp]:
  "snap_at (g\<lparr>g_head := k\<rparr>) i w = snap_at g i w" "snap_at (g\<lparr>g_tail := k\<rparr>) i w = snap_at g i w"
  "succ_of (g\<lparr>g_head := k\<rparr>) i = succ_of g i" "succ_of (g\<lparr>g_tail := k\<rparr>) i = succ_of g i"
  by (simp_all add: snap_at_def succ_of_def)

definition value_at :: "'a msq \<Rightarrow> addr \<Rightarrow> 'a option" where
  "value_at q a = map_option node_value (msq_heap q a)"

definition trail_inv :: "trail \<Rightarrow> 'a msq \<Rightarrow> bool" where
  "trail_inv g q \<longleftrightarrow>
     distinct (g_nodes g) \<and> (\<forall>a \<in> set (g_nodes g). node_addr a) \<and>
     g_head g \<le> g_tail g \<and> length (g_nodes g) \<le> g_tail g + 2 \<and>
     snap_at g (g_head g) (atp_load (m_head q)) \<and> snap_at g (g_tail g) (atp_load (m_tail q)) \<and>
     (\<forall>i < length (g_nodes g).
        \<exists>n. msq_heap q (g_nodes g ! i) = Some n \<and> next_of n = succ_of g i)"

definition rep :: "trail \<Rightarrow> 'a msq \<Rightarrow> 'a fifo \<Rightarrow> bool" where
  "rep g q f \<longleftrightarrow> trail_inv g q \<and>
     map Some (items f) = map (value_at q) (drop (Suc (g_head g)) (g_nodes g)) \<and>
     n_push f = of_nat (length (g_nodes g)) - 1 \<and> n_pop f = of_nat (g_head g)"

text \<open>
  The facts a thread relies on: what it has read from the tail, from \<open>next\<close>, from head and tail;
  that a node follows the tail it read (\<open>swing\<close>) or the head it read (\<open>ready\<close>); and that a node
  is its own.
\<close>

definition tail_snap :: "trail \<Rightarrow> tagged_ptr \<Rightarrow> bool" where
  "tail_snap g w \<longleftrightarrow> (\<exists>j \<le> g_tail g. snap_at g j w)"

definition head_snap :: "trail \<Rightarrow> tagged_ptr \<Rightarrow> bool" where
  "head_snap g w \<longleftrightarrow> (\<exists>i \<le> g_head g. snap_at g i w)"

definition next_snap :: "trail \<Rightarrow> tagged_ptr \<Rightarrow> tagged_ptr \<Rightarrow> bool" where
  "next_snap g p nx \<longleftrightarrow> tp_value nx = nullptr \<or>
     (\<exists>i. Suc i < length (g_nodes g) \<and> g_nodes g ! i = tp_value p \<and> g_nodes g ! Suc i = tp_value nx)"

definition head_tail :: "trail \<Rightarrow> tagged_ptr \<Rightarrow> tagged_ptr \<Rightarrow> bool" where
  "head_tail g oh ot \<longleftrightarrow>
     (\<exists>i j. i \<le> g_head g \<and> i \<le> j \<and> j \<le> g_tail g \<and> snap_at g i oh \<and> snap_at g j ot)"

definition swing :: "trail \<Rightarrow> tagged_ptr \<Rightarrow> addr \<Rightarrow> bool" where
  "swing g ot a \<longleftrightarrow>
     (\<exists>j \<le> g_tail g. Suc j < length (g_nodes g) \<and> snap_at g j ot \<and> g_nodes g ! Suc j = a)"

definition ready :: "trail \<Rightarrow> tagged_ptr \<Rightarrow> addr \<Rightarrow> bool" where
  "ready g oh a \<longleftrightarrow>
     (\<exists>i \<le> g_head g. Suc i \<le> g_tail g \<and> Suc i < length (g_nodes g) \<and> snap_at g i oh \<and>
        g_nodes g ! Suc i = a)"

definition own :: "trail \<Rightarrow> 'a msq \<Rightarrow> 'a \<Rightarrow> addr \<Rightarrow> bool" where
  "own g q x a \<longleftrightarrow> a \<notin> set (g_nodes g) \<and> node_addr a \<and>
     (\<exists>n. msq_heap q a = Some n \<and> next_of n = nullptr \<and> node_value n = x)"

lemmas snap_defs = tail_snap_def head_snap_def next_snap_def head_tail_def swing_def ready_def

text \<open>What a step of any thread does to the trail: nodes are added, head and tail move on.\<close>

definition ext :: "trail \<Rightarrow> 'a msq \<Rightarrow> trail \<Rightarrow> 'a msq \<Rightarrow> bool" where
  "ext g q g' q' \<longleftrightarrow>
     (\<exists>as. g_nodes g' = g_nodes g @ as) \<and> g_head g \<le> g_head g' \<and> g_tail g \<le> g_tail g' \<and>
     (\<forall>a \<in> set (g_nodes g). value_at q' a = value_at q a) \<and>
     (\<forall>a. a \<notin> set (g_nodes g') \<and> msq_heap q a \<noteq> None \<longrightarrow> msq_heap q' a = msq_heap q a)"

lemma ext_refl: "ext g q g q"
  by (simp add: ext_def)

lemma ext_nth:
  assumes "ext g q g' q'" "i < length (g_nodes g)"
  shows "g_nodes g' ! i = g_nodes g ! i" "i < length (g_nodes g')"
  using assms by (auto simp: ext_def nth_append)

lemma snap_at_ext:
  assumes "ext g q g' q'" "snap_at g i w"
  shows "snap_at g' i w"
  using assms(2) ext_nth [OF assms(1), of i] by (simp add: snap_at_def)

lemma ext_le: "ext g q g' q' \<Longrightarrow> g_head g \<le> g_head g'" "ext g q g' q' \<Longrightarrow> g_tail g \<le> g_tail g'"
  by (simp_all add: ext_def)

lemma tail_snap_ext:
  assumes "ext g q g' q'" "tail_snap g w"
  shows "tail_snap g' w"
  using assms(2) ext_le [OF assms(1)] snap_at_ext [OF assms(1)] unfolding tail_snap_def
  by (meson le_trans)

lemma head_snap_ext:
  assumes "ext g q g' q'" "head_snap g w"
  shows "head_snap g' w"
  using assms(2) ext_le [OF assms(1)] snap_at_ext [OF assms(1)] unfolding head_snap_def
  by (meson le_trans)

lemma next_snap_ext:
  assumes "ext g q g' q'" "next_snap g p nx"
  shows "next_snap g' p nx"
proof (cases "tp_value nx = nullptr")
  case False
  then obtain i where "Suc i < length (g_nodes g)" "g_nodes g ! i = tp_value p"
    "g_nodes g ! Suc i = tp_value nx"
    using assms(2) by (auto simp: next_snap_def)
  then have "Suc i < length (g_nodes g') \<and> g_nodes g' ! i = tp_value p \<and> g_nodes g' ! Suc i = tp_value nx"
    using ext_nth [OF assms(1), of i] ext_nth [OF assms(1), of "Suc i"] by simp
  then show ?thesis unfolding next_snap_def by blast
qed (simp add: next_snap_def)

lemma head_tail_ext:
  assumes e: "ext g q g' q'" and "head_tail g oh ot"
  shows "head_tail g' oh ot"
proof -
  obtain i j where "i \<le> g_head g" "i \<le> j" "j \<le> g_tail g" "snap_at g i oh" "snap_at g j ot"
    using assms(2) by (auto simp: head_tail_def)
  then show ?thesis
    unfolding head_tail_def using ext_le [OF e] snap_at_ext [OF e]
    by (intro exI [of _ i] exI [of _ j]) simp
qed

lemma swing_ext:
  assumes e: "ext g q g' q'" and "swing g ot a"
  shows "swing g' ot a"
proof -
  obtain j where j: "j \<le> g_tail g" "Suc j < length (g_nodes g)" "snap_at g j ot" "g_nodes g ! Suc j = a"
    using assms(2) by (auto simp: swing_def)
  then show ?thesis
    unfolding swing_def using ext_le [OF e] snap_at_ext [OF e] ext_nth [OF e j(2)]
    by (intro exI [of _ j]) simp
qed

lemma ready_ext:
  assumes e: "ext g q g' q'" and "ready g oh a"
  shows "ready g' oh a"
proof -
  obtain i where i: "i \<le> g_head g" "Suc i \<le> g_tail g" "Suc i < length (g_nodes g)"
    "snap_at g i oh" "g_nodes g ! Suc i = a"
    using assms(2) by (auto simp: ready_def)
  then show ?thesis
    unfolding ready_def using ext_le [OF e] snap_at_ext [OF e] ext_nth [OF e i(3)]
    by (intro exI [of _ i]) simp
qed

lemma own_ext:
  assumes "ext g q g' q'" "own g q x a" "a \<notin> set (g_nodes g')"
  shows "own g' q' x a"
  using assms by (auto simp: own_def ext_def)

lemma value_at_ext:
  "ext g q g' q' \<Longrightarrow> a \<in> set (g_nodes g) \<Longrightarrow> value_at q' a = value_at q a"
  by (simp add: ext_def)

lemmas snap_ext = tail_snap_ext head_snap_ext next_snap_ext head_tail_ext swing_ext ready_ext

section \<open>Reading\<close>

lemma snap_at_node:
  assumes "rep g q f" "snap_at g i w"
  obtains n where "msq_heap q (tp_value w) = Some n" "next_of n = succ_of g i"
  using assms by (auto simp: rep_def trail_inv_def snap_at_def)

lemma rep_nth_inj:
  assumes "rep g q f" "i < length (g_nodes g)" "j < length (g_nodes g)" "g_nodes g ! i = g_nodes g ! j"
  shows "i = j"
proof -
  have "distinct (g_nodes g)" using assms by (simp add: rep_def trail_inv_def)
  then show ?thesis using assms(2-4) nth_eq_iff_index_eq by blast
qed

lemma snap_at_inj:
  assumes "rep g q f" "snap_at g i w" "snap_at g j w'" "tp_value w = tp_value w'"
  shows "i = j"
  using assms(2-4) by (intro rep_nth_inj [OF assms(1)]) (simp_all add: snap_at_def)

lemma rep_trail: "rep g q f \<Longrightarrow> trail_inv g q"
  by (simp add: rep_def)

lemma rep_bounds:
  assumes "rep g q f"
  shows "g_head g \<le> g_tail g" "g_tail g < length (g_nodes g)" "length (g_nodes g) \<le> g_tail g + 2"
    "snap_at g (g_head g) (atp_load (m_head q))" "snap_at g (g_tail g) (atp_load (m_tail q))"
  using assms by (auto simp: rep_def trail_inv_def snap_at_def)

lemma rep_addr: "rep g q f \<Longrightarrow> i < length (g_nodes g) \<Longrightarrow> node_addr (g_nodes g ! i)"
  by (simp add: rep_def trail_inv_def)

lemma rep_length: "rep g q f \<Longrightarrow> length (items f) = length (g_nodes g) - Suc (g_head g)"
  unfolding rep_def by (metis length_drop length_map)

lemma rep_empty: "rep g q f \<Longrightarrow> items f = [] \<longleftrightarrow> Suc (g_head g) = length (g_nodes g)"
  using rep_length [of g q f] rep_bounds [of g q f] by auto

lemma tail_snap_load: "rep g q f \<Longrightarrow> tail_snap g (atp_load (m_tail q))"
  using rep_bounds [of g q f] by (auto simp: tail_snap_def)

lemma head_snap_load: "rep g q f \<Longrightarrow> head_snap g (atp_load (m_head q))"
  using rep_bounds [of g q f] by (auto simp: head_snap_def)

lemma head_tail_load:
  assumes "rep g q f" "head_snap g oh"
  shows "head_tail g oh (atp_load (m_tail q))"
  using assms rep_bounds [OF assms(1)] unfolding head_snap_def head_tail_def by (meson le_trans order_refl)

lemma tail_snap_next:
  assumes "rep g q f" "tail_snap g ot"
  obtains n where "msq_heap q (tp_value ot) = Some n" "next_snap g ot (atp_load (node_next n))"
proof -
  obtain j where j: "snap_at g j ot" using assms by (auto simp: tail_snap_def)
  obtain n where n: "msq_heap q (tp_value ot) = Some n" "next_of n = succ_of g j"
    using snap_at_node [OF assms(1) j] .
  have "next_snap g ot (atp_load (node_next n))"
    using n j by (auto simp: next_snap_def next_of_def succ_of_def snap_at_def)
  then show ?thesis using n that by blast
qed

lemma head_tail_next:
  assumes "rep g q f" "head_tail g oh ot"
  obtains n where "msq_heap q (tp_value oh) = Some n" "next_snap g oh (atp_load (node_next n))"
    "tp_value (atp_load (node_next n)) = nullptr \<Longrightarrow>
       items f = [] \<and> tp_value oh = tp_value ot \<and> tp_tag ot = n_push f"
proof -
  obtain i j where ij: "i \<le> g_head g" "i \<le> j" "j \<le> g_tail g" "snap_at g i oh" "snap_at g j ot"
    using assms(2) by (auto simp: head_tail_def)
  note b = rep_bounds [OF assms(1)]
  obtain n where n: "msq_heap q (tp_value oh) = Some n" "next_of n = succ_of g i"
    using snap_at_node [OF assms(1) ij(4)] .
  have "next_snap g oh (atp_load (node_next n))"
    using n ij(4) by (auto simp: next_snap_def next_of_def succ_of_def snap_at_def)
  moreover have "items f = [] \<and> tp_value oh = tp_value ot \<and> tp_tag ot = n_push f"
    if nul: "tp_value (atp_load (node_next n)) = nullptr"
  proof -
    have "\<not> Suc i < length (g_nodes g)"
      using n nul rep_addr [OF assms(1), of "Suc i"]
      by (auto simp: next_of_def succ_of_def node_addr_def split: if_splits)
    then have "Suc i = length (g_nodes g)" "i = g_head g" "j = i"
      using ij b by (auto simp: snap_at_def)
    moreover from this have "of_nat (length (g_nodes g)) = (of_nat i :: u16) + 1"
      by (metis of_nat_Suc add.commute)
    ultimately show ?thesis
      using rep_empty [OF assms(1)] ij(4,5) assms(1) by (simp add: snap_at_def rep_def)
  qed
  ultimately show ?thesis using n that by blast
qed

lemma next_snap_swing:
  assumes r: "rep g q f" and "tail_snap g ot" "next_snap g ot nx" "tp_value nx \<noteq> nullptr"
  shows "swing g ot (tp_value nx)"
proof -
  obtain j where j: "j \<le> g_tail g" "snap_at g j ot" using assms by (auto simp: tail_snap_def)
  obtain i where i: "Suc i < length (g_nodes g)" "g_nodes g ! i = tp_value ot"
    "g_nodes g ! Suc i = tp_value nx"
    using assms by (auto simp: next_snap_def)
  have "i = j"
    using i j by (intro rep_nth_inj [OF r]) (simp_all add: snap_at_def)
  then show ?thesis using i j by (auto simp: swing_def)
qed

lemma head_tail_swing:
  assumes r: "rep g q f" and "head_tail g oh ot" "next_snap g oh nx" "tp_value nx \<noteq> nullptr"
    and "tp_value oh = tp_value ot"
  shows "swing g ot (tp_value nx)"
proof -
  have "tail_snap g ot" using assms(2) by (auto simp: head_tail_def tail_snap_def)
  moreover have "next_snap g ot nx" using assms(3,5) by (simp add: next_snap_def)
  ultimately show ?thesis using next_snap_swing assms by blast
qed

lemma head_tail_ready:
  assumes r: "rep g q f" and ht: "head_tail g oh ot" and nx: "next_snap g oh nx" "tp_value nx \<noteq> nullptr"
    and ne: "tp_value oh \<noteq> tp_value ot"
  shows "ready g oh (tp_value nx)"
proof -
  obtain i j where ij: "i \<le> g_head g" "i \<le> j" "j \<le> g_tail g" "snap_at g i oh" "snap_at g j ot"
    using ht by (auto simp: head_tail_def)
  obtain k where k: "Suc k < length (g_nodes g)" "g_nodes g ! k = tp_value oh"
    "g_nodes g ! Suc k = tp_value nx"
    using nx by (auto simp: next_snap_def)
  have "k = i"
    using k ij by (intro rep_nth_inj [OF r]) (simp_all add: snap_at_def)
  moreover have "i \<noteq> j" using ij ne by (auto simp: snap_at_def)
  ultimately show ?thesis
    unfolding ready_def using ij k by (intro exI [of _ i]) simp
qed

lemma ready_value:
  assumes "rep g q f" "ready g oh a"
  obtains n where "msq_heap q a = Some n" "a \<in> set (g_nodes g)"
  using assms by (auto simp: rep_def trail_inv_def ready_def)

lemma swing_addr: "rep g q f \<Longrightarrow> swing g ot a \<Longrightarrow> node_addr a"
  using rep_addr by (auto simp: swing_def)

lemma ready_addr: "rep g q f \<Longrightarrow> ready g oh a \<Longrightarrow> node_addr a"
  using rep_addr by (auto simp: ready_def)

section \<open>Writing\<close>

lemma atp_cas_strong_weak: "atp_cas_strong c e d = atp_cas_weak False c e d"
  by (simp add: atp_cas_strong_eq atp_cas_weak_eq)

lemma cas_next_strong_weak: "cas_next_strong a e d h = cas_next_weak False a e d h"
  by (cases "h a") (simp_all add: cas_next_strong_def cas_next_weak_def atp_cas_strong_weak)

lemma rep_heap_only:
  assumes "rep g q f" "m_head q' = m_head q" "m_tail q' = m_tail q"
    and "\<And>a. a \<in> set (g_nodes g) \<Longrightarrow> msq_heap q' a = msq_heap q a"
  shows "rep g q' f"
proof -
  have "map (value_at q') (drop (Suc (g_head g)) (g_nodes g)) =
      map (value_at q) (drop (Suc (g_head g)) (g_nodes g))"
    using assms(4) by (auto simp: value_at_def dest: in_set_dropD)
  then show ?thesis
    using assms by (simp add: rep_def trail_inv_def)
qed

lemma snap_at_pack:
  assumes "i < length (g_nodes g)" "node_addr (g_nodes g ! i)"
  shows "snap_at g i (tp_pack (g_nodes g ! i) (of_nat i))"
  using assms by (simp add: snap_at_def node_addr_simps)

text \<open>The compare-exchange on \<open>m_tail\<close>, in \<open>push\<close> and wherever the tail is helped on.\<close>

lemma swing_tail:
  assumes r: "rep g q f" and sw: "swing g ot a"
    and cas: "atp_cas_weak sp (m_tail q) ot (tp_pack a (tp_tag ot + 1)) = (ok, cell, ot')"
  obtains g' where "rep g' (q\<lparr>m_tail := cell\<rparr>) f" "ext g q g' (q\<lparr>m_tail := cell\<rparr>)"
    "g_nodes g' = g_nodes g" "tail_snap g' ot'"
proof (cases "atp_load (m_tail q) = ot \<and> \<not> sp")
  case True
  obtain j where j: "Suc j < length (g_nodes g)" "snap_at g j ot" "g_nodes g ! Suc j = a"
    using sw by (auto simp: swing_def)
  have t: "g_tail g = j"
    by (rule snap_at_inj [OF r rep_bounds(5) [OF r] j(2)]) (use True in simp)
  let ?g = "g\<lparr>g_tail := Suc j\<rparr>"
  have cell: "cell = atp_store (m_tail q) (tp_pack a (tp_tag ot + 1))" "ot' = ot"
    using cas True by (auto simp: atp_cas_weak_eq)
  have tag: "tp_tag ot + 1 = of_nat (Suc j)"
    using j(2) by (simp add: snap_at_def)
  have ti: "trail_inv g q" using rep_trail [OF r] .
  have nd: "snap_at ?g (Suc j) (tp_pack a (tp_tag ot + 1))"
    unfolding tag using snap_at_pack [of "Suc j" ?g] j(1,3) rep_addr [OF r j(1)] by simp
  have "trail_inv ?g (q\<lparr>m_tail := cell\<rparr>)"
    using ti t nd cell by (simp add: trail_inv_def)
  then have "rep ?g (q\<lparr>m_tail := cell\<rparr>) f"
    using r by (simp add: rep_def value_at_def [abs_def])
  moreover have "ext g q ?g (q\<lparr>m_tail := cell\<rparr>)"
    using t by (simp add: ext_def value_at_def)
  moreover have "tail_snap ?g ot'"
    unfolding tail_snap_def cell using j(2) by (intro exI [of _ j]) simp
  ultimately show ?thesis using that [of ?g] by simp
next
  case False
  then have "cell = m_tail q" "ot' = atp_load (m_tail q)"
    using cas by (auto simp: atp_cas_weak_eq split: if_splits)
  then show ?thesis
    using that [of g] r ext_refl [of g q] tail_snap_load [OF r] by simp
qed

text \<open>The compare-exchange on the \<open>next\<close> cell of the tail, which links an own node.\<close>

lemma link_last:
  assumes r: "rep g q f" and ts: "tail_snap g ot" and nul: "tp_value nx = nullptr"
    and own: "own g q x node"
    and cas: "cas_next_weak sp (tp_value ot) nx (tp_pack node t) (msq_heap q) = Inr (True, nx', h)"
  obtains g' where "rep g' (q\<lparr>msq_heap := h\<rparr>) (f\<lparr>items := items f @ [x], n_push := n_push f + 1\<rparr>)"
    "ext g q g' (q\<lparr>msq_heap := h\<rparr>)" "g_nodes g' = g_nodes g @ [node]" "swing g' ot node"
    "tp_tag ot = n_push f"
proof -
  obtain j where j: "j \<le> g_tail g" "snap_at g j ot" using ts by (auto simp: tail_snap_def)
  obtain n where n: "msq_heap q (tp_value ot) = Some n" "next_of n = succ_of g j"
    using snap_at_node [OF r j(2)] .
  have eq: "atp_load (node_next n) = nx" and
    h: "h = (msq_heap q)(tp_value ot \<mapsto> n\<lparr>node_next := atp_store (node_next n) (tp_pack node t)\<rparr>)"
    using cas n(1) by (auto simp: cas_next_weak_def atp_cas_weak_eq split: if_splits)
  have "succ_of g j = nullptr" using eq n(2) nul by (simp add: next_of_def)
  then have "\<not> Suc j < length (g_nodes g)"
    using rep_addr [OF r, of "Suc j"] by (auto simp: succ_of_def node_addr_def)
  then have len: "length (g_nodes g) = Suc j"
    using j(2) by (simp add: snap_at_def)
  note b = rep_bounds [OF r]
  have t: "g_tail g = j" using len b(2) j(1) by simp
  obtain m where m: "msq_heap q node = Some m" "next_of m = nullptr" "node_value m = x"
    "node \<notin> set (g_nodes g)" "node_addr node"
    using own by (auto simp: own_def)
  let ?g = "g\<lparr>g_nodes := g_nodes g @ [node]\<rparr>" and ?q = "q\<lparr>msq_heap := h\<rparr>"
  have ot: "tp_value ot = g_nodes g ! j"
    using j(2) by (simp add: snap_at_def)
  moreover have "g_nodes g ! j \<in> set (g_nodes g)"
    using len by simp
  ultimately have oti: "tp_value ot \<in> set (g_nodes g)" by (simp only:)
  then have ne: "tp_value ot \<noteq> node" using m(4) by metis
  have sn: "snap_at g k w \<Longrightarrow> snap_at ?g k w" for k w by (simp add: snap_at_def nth_append)
  have ti: "trail_inv g q" using rep_trail [OF r] .
  have va: "value_at ?q a = value_at q a" for a
    using n(1) by (simp add: value_at_def h)
  have chain: "\<exists>n'. h (g_nodes ?g ! i) = Some n' \<and> next_of n' = succ_of ?g i"
    if i: "i < length (g_nodes ?g)" for i
  proof -
    consider "i < j" | "i = j" | "i = Suc j" using i len by fastforce
    then show ?thesis
    proof cases
      case 1
      then have "g_nodes g ! i \<noteq> g_nodes g ! j"
        using rep_nth_inj [OF r, of i j] len by auto
      moreover have "\<exists>n'. msq_heap q (g_nodes g ! i) = Some n' \<and> next_of n' = succ_of g i"
        using ti 1 len by (simp add: trail_inv_def)
      ultimately show ?thesis
        using 1 len ot by (simp add: h nth_append succ_of_def)
    next
      case 2
      then show ?thesis
        using len ot m(5) by (simp add: h nth_append succ_of_def next_of_def node_addr_simps)
    next
      case 3
      then show ?thesis
        using len ot ne m by (simp add: h nth_append succ_of_def)
    qed
  qed
  have tr: "trail_inv ?g ?q"
    unfolding trail_inv_def
  proof (intro conjI)
    show "distinct (g_nodes ?g)" "\<forall>a \<in> set (g_nodes ?g). node_addr a"
      "g_head ?g \<le> g_tail ?g" "length (g_nodes ?g) \<le> g_tail ?g + 2"
      using ti m t len by (auto simp: trail_inv_def)
    show "snap_at ?g (g_head ?g) (atp_load (m_head ?q))" "snap_at ?g (g_tail ?g) (atp_load (m_tail ?q))"
      using sn b(4,5) by simp_all
    show "\<forall>i < length (g_nodes ?g). \<exists>n'. msq_heap ?q (g_nodes ?g ! i) = Some n' \<and> next_of n' = succ_of ?g i"
      using chain by simp
  qed
  have "value_at q node = Some x" using m by (simp add: value_at_def)
  then have "rep ?g ?q (f\<lparr>items := items f @ [x], n_push := n_push f + 1\<rparr>)"
    using r tr b(1,2) unfolding rep_def by (simp add: va)
  moreover have "ext g q ?g ?q"
    using oti by (simp add: ext_def va) (auto simp: h)
  moreover have "swing ?g ot node"
    unfolding swing_def using t len sn [OF j(2)] by (intro exI [of _ j]) (simp add: nth_append)
  moreover have "tp_tag ot = n_push f"
    using r j(2) len by (simp add: rep_def snap_at_def)
  ultimately show ?thesis using that [of ?g] by simp
qed

text \<open>The compare-exchange on \<open>m_head\<close>, which takes the first element.\<close>

lemma take_first:
  assumes r: "rep g q f" and rd: "ready g oh a" and v: "value_at q a = Some x"
    and cas: "atp_cas_weak sp (m_head q) oh (tp_pack a (tp_tag oh + 1)) = (True, cell, oh')"
  obtains g' xs where "items f = x # xs" "n_pop f = tp_tag oh"
    "rep g' (q\<lparr>m_head := cell\<rparr>) (f\<lparr>items := xs, n_pop := n_pop f + 1\<rparr>)"
    "ext g q g' (q\<lparr>m_head := cell\<rparr>)" "g_nodes g' = g_nodes g" "head_snap g' oh"
proof -
  obtain i where i: "Suc i \<le> g_tail g" "Suc i < length (g_nodes g)" "snap_at g i oh" "g_nodes g ! Suc i = a"
    using rd by (auto simp: ready_def)
  have c: "atp_load (m_head q) = oh" "cell = atp_store (m_head q) (tp_pack a (tp_tag oh + 1))"
    using cas by (auto simp: atp_cas_weak_eq split: if_splits)
  have hd: "g_head g = i"
    by (rule snap_at_inj [OF r rep_bounds(4) [OF r] i(3)]) (use c in simp)
  let ?g = "g\<lparr>g_head := Suc i\<rparr>" and ?q = "q\<lparr>m_head := cell\<rparr>"
  have tag: "tp_tag oh + 1 = of_nat (Suc i)"
    using i(3) by (simp add: snap_at_def)
  have ti: "trail_inv g q" using rep_trail [OF r] .
  have nd: "snap_at ?g (Suc i) (tp_pack a (tp_tag oh + 1))"
    unfolding tag using snap_at_pack [of "Suc i" ?g] i(2,4) rep_addr [OF r i(2)] by simp
  have "trail_inv ?g ?q"
    using ti i(1) nd c by (simp add: trail_inv_def)
  moreover have dr: "drop (Suc i) (g_nodes g) = a # drop (Suc (Suc i)) (g_nodes g)"
    using i(2,4) by (metis Cons_nth_drop_Suc)
  have "map Some (items f) = Some x # map (value_at q) (drop (Suc (Suc i)) (g_nodes g))"
    using r v by (simp add: rep_def hd dr)
  then obtain xs where xs: "items f = x # xs"
    "map Some xs = map (value_at q) (drop (Suc (Suc i)) (g_nodes g))"
    by (cases "items f") auto
  ultimately have "rep ?g ?q (f\<lparr>items := xs, n_pop := n_pop f + 1\<rparr>)"
    using r by (simp add: rep_def hd value_at_def [abs_def])
  moreover have "ext g q ?g ?q"
    using hd by (simp add: ext_def value_at_def)
  moreover have "head_snap ?g oh"
    unfolding head_snap_def using i(3) by (intro exI [of _ i]) simp
  moreover have "n_pop f = tp_tag oh"
    using r i(3) by (simp add: rep_def hd snap_at_def)
  ultimately show ?thesis using that [of xs ?g] xs(1) by simp
qed

text \<open>A new node belongs to the thread that makes it.\<close>

lemma new_node_own:
  assumes r: "rep g q f" and new: "new_node_at a x (msq_heap q) = Inr (node, h)"
  shows "rep g (q\<lparr>msq_heap := h\<rparr>) f" "ext g q g (q\<lparr>msq_heap := h\<rparr>)"
    "own g (q\<lparr>msq_heap := h\<rparr>) x node" "msq_heap q node = None"
proof -
  have n: "msq_heap q node = None" "node_addr node"
    "h = (msq_heap q)(node \<mapsto> \<lparr>node_value = x, node_next = atp_default\<rparr>)"
    using new by (auto simp: new_node_at_def new_node_def checked_alloc_def node_addr_def
        split: option.splits if_splits)
  show "msq_heap q node = None" by (rule n)
  have live: "msq_heap q b \<noteq> None" if "b \<in> set (g_nodes g)" for b
    using that rep_trail [OF r] by (auto simp: trail_inv_def in_set_conv_nth)
  then have out: "node \<notin> set (g_nodes g)" using n by blast
  show "rep g (q\<lparr>msq_heap := h\<rparr>) f"
    using r out by (intro rep_heap_only [OF r]) (auto simp: n)
  show "ext g q g (q\<lparr>msq_heap := h\<rparr>)"
    using out n(1) by (auto simp: ext_def n(3) value_at_def)
  show "own g (q\<lparr>msq_heap := h\<rparr>) x node"
    using out n(2) by (simp add: own_def n(3))
qed

section \<open>What holds at each program point\<close>

fun push_ok :: "trail \<Rightarrow> 'a msq \<Rightarrow> 'a status \<Rightarrow> 'a push_pc \<Rightarrow> bool" where
  "push_ok g q st (PushNew x) = (\<exists>seen. st = Running (OpPush x) seen)"
| "push_ok g q st (PushTail node) = (\<exists>x seen. st = Running (OpPush x) seen \<and> own g q x node)"
| "push_ok g q st (PushNext node ot) =
     ((\<exists>x seen. st = Running (OpPush x) seen \<and> own g q x node) \<and> tail_snap g ot)"
| "push_ok g q st (PushCheck node ot nx) =
     ((\<exists>x seen. st = Running (OpPush x) seen \<and> own g q x node) \<and> tail_snap g ot \<and> next_snap g ot nx)"
| "push_ok g q st (PushLink node ot nx) =
     ((\<exists>x seen. st = Running (OpPush x) seen \<and> own g q x node) \<and> tail_snap g ot \<and>
      tp_value nx = nullptr)"
| "push_ok g q st (PushSwing node ot) = ((\<exists>x. st = Done (OpPush x) (RBool True)) \<and> swing g ot node)"
| "push_ok g q st (PushHelp node ot nx) =
     ((\<exists>x seen. st = Running (OpPush x) seen \<and> own g q x node) \<and> swing g ot (tp_value nx))"

fun try_push_ok :: "trail \<Rightarrow> 'a msq \<Rightarrow> 'a status \<Rightarrow> 'a try_push_pc \<Rightarrow> bool" where
  "try_push_ok g q st (TryPushTail x s) = (\<exists>seen. st = Running (OpTryPush x s) seen)"
| "try_push_ok g q st (TryPushNext x ot) =
     ((\<exists>seen. st = Running (OpTryPush x (tp_tag ot)) seen) \<and> tail_snap g ot)"
| "try_push_ok g q st (TryPushNew x ot nx) =
     ((\<exists>seen. st = Running (OpTryPush x (tp_tag ot)) seen) \<and> tail_snap g ot \<and> tp_value nx = nullptr)"
| "try_push_ok g q st (TryPushLink node ot nx) =
     ((\<exists>x seen. st = Running (OpTryPush x (tp_tag ot)) seen \<and> own g q x node) \<and> tail_snap g ot \<and>
      tp_value nx = nullptr)"
| "try_push_ok g q st (TryPushSwing node ot) =
     ((\<exists>x s. st = Done (OpTryPush x s) (RBool True)) \<and> swing g ot node)"
| "try_push_ok g q st (TryPushHelp ot nx) =
     ((\<exists>x s seen. st = Running (OpTryPush x s) seen) \<and> swing g ot (tp_value nx))"
| "try_push_ok g q st (TryPushFree node) =
     (\<exists>x s seen. st = Running (OpTryPush x s) seen \<and> own g q x node)"

fun pop_ok :: "trail \<Rightarrow> 'a msq \<Rightarrow> 'a status \<Rightarrow> 'a pop_pc \<Rightarrow> bool" where
  "pop_ok g q st PopHead = (\<exists>seen. st = Running OpPop seen)"
| "pop_ok g q st (PopTail oh) = ((\<exists>seen. st = Running OpPop seen) \<and> head_snap g oh)"
| "pop_ok g q st (PopNext oh ot) = ((\<exists>seen. st = Running OpPop seen) \<and> head_tail g oh ot)"
| "pop_ok g q st (PopCheck oh ot nx) =
     ((\<exists>seen. st = Running OpPop seen \<and>
        (tp_value nx = nullptr \<longrightarrow> (True, tp_tag ot) \<in> set seen \<and> tp_value oh = tp_value ot)) \<and>
      head_tail g oh ot \<and> next_snap g oh nx)"
| "pop_ok g q st (PopHelp ot nx) = ((\<exists>seen. st = Running OpPop seen) \<and> swing g ot (tp_value nx))"
| "pop_ok g q st (PopValue oh nx) = ((\<exists>seen. st = Running OpPop seen) \<and> ready g oh (tp_value nx))"
| "pop_ok g q st (PopCas oh nx x) =
     ((\<exists>seen. st = Running OpPop seen) \<and> ready g oh (tp_value nx) \<and> tp_value nx \<in> set (g_nodes g) \<and>
      value_at q (tp_value nx) = Some x)"
| "pop_ok g q st (PopFree oh x) = (st = Done OpPop (RPopped x (tp_tag oh)) \<and> head_snap g oh)"

fun try_pop_ok :: "trail \<Rightarrow> 'a msq \<Rightarrow> 'a status \<Rightarrow> 'a try_pop_pc \<Rightarrow> bool" where
  "try_pop_ok g q st (TryPopHead s) = (\<exists>seen. st = Running (OpTryPop s) seen)"
| "try_pop_ok g q st (TryPopTail s oh) = ((\<exists>seen. st = Running (OpTryPop s) seen) \<and> head_snap g oh)"
| "try_pop_ok g q st (TryPopNext s oh ot) =
     ((\<exists>seen. st = Running (OpTryPop s) seen) \<and> head_tail g oh ot)"
| "try_pop_ok g q st (TryPopHelp ot nx) =
     ((\<exists>s seen. st = Running (OpTryPop s) seen) \<and> swing g ot (tp_value nx))"
| "try_pop_ok g q st (TryPopValue oh nx) =
     ((\<exists>seen. st = Running (OpTryPop (tp_tag oh)) seen) \<and> ready g oh (tp_value nx))"
| "try_pop_ok g q st (TryPopCas oh nx x) =
     ((\<exists>seen. st = Running (OpTryPop (tp_tag oh)) seen) \<and> ready g oh (tp_value nx) \<and>
      tp_value nx \<in> set (g_nodes g) \<and> value_at q (tp_value nx) = Some x)"
| "try_pop_ok g q st (TryPopFree oh x) =
     ((\<exists>s. st = Done (OpTryPop s) (RTaken x)) \<and> head_snap g oh)"

fun empty_ok :: "trail \<Rightarrow> 'a status \<Rightarrow> empty_pc \<Rightarrow> bool" where
  "empty_ok g st EmptyHead = (\<exists>seen. st = Running OpEmpty seen)"
| "empty_ok g st (EmptyTail oh) = ((\<exists>seen. st = Running OpEmpty seen) \<and> head_snap g oh)"
| "empty_ok g st (EmptyNext oh ot) = ((\<exists>seen. st = Running OpEmpty seen) \<and> head_tail g oh ot)"
| "empty_ok g st (EmptyCheck oh ot nx) =
     ((\<exists>seen. st = Running OpEmpty seen \<and>
        (tp_value nx = nullptr \<longrightarrow> (True, tp_tag ot) \<in> set seen \<and> tp_value oh = tp_value ot)) \<and>
      head_tail g oh ot \<and> next_snap g oh nx)"

fun pc_ok :: "trail \<Rightarrow> 'a msq \<Rightarrow> 'a status \<Rightarrow> 'a ms_pc \<Rightarrow> bool" where
  "pc_ok g q st Ready = (st = Idle)"
| "pc_ok g q st (InPush p) = push_ok g q st p"
| "pc_ok g q st (InTryPush p) = try_push_ok g q st p"
| "pc_ok g q st InTailState = (\<exists>seen. st = Running OpTailState seen)"
| "pc_ok g q st (InPop p) = pop_ok g q st p"
| "pc_ok g q st (InTryPop p) = try_pop_ok g q st p"
| "pc_ok g q st (InEmpty p) = empty_ok g st p"

text \<open>The node a thread has made and not linked.\<close>

fun owned :: "'a ms_pc \<Rightarrow> addr option" where
  "owned (InPush (PushTail node)) = Some node"
| "owned (InPush (PushNext node ot)) = Some node"
| "owned (InPush (PushCheck node ot nx)) = Some node"
| "owned (InPush (PushLink node ot nx)) = Some node"
| "owned (InPush (PushHelp node ot nx)) = Some node"
| "owned (InTryPush (TryPushLink node ot nx)) = Some node"
| "owned (InTryPush (TryPushFree node)) = Some node"
| "owned p = None"

lemma owned_own:
  assumes "pc_ok g q st p" "owned p = Some a"
  shows "\<exists>x. own g q x a"
  using assms by (induction p rule: owned.induct) auto

lemma pc_ok_ext:
  assumes ok: "pc_ok g q st p" and e: "ext g q g' q'"
    and o: "\<And>a. owned p = Some a \<Longrightarrow> a \<notin> set (g_nodes g')"
  shows "pc_ok g' q' st p"
proof -
  note x = snap_ext [OF e] own_ext [OF e]
  have mem: "a \<in> set (g_nodes g')" if "a \<in> set (g_nodes g)" for a
    using e that by (auto simp: ext_def)
  show ?thesis
  proof (cases p)
    case (InPush r) with ok o show ?thesis by (cases r) (auto intro: x)
  next
    case (InTryPush r) with ok o show ?thesis by (cases r) (auto intro: x)
  next
    case (InPop r) with ok show ?thesis by (cases r) (auto intro: x mem simp: value_at_ext [OF e])
  next
    case (InTryPop r) with ok show ?thesis by (cases r) (auto intro: x mem simp: value_at_ext [OF e])
  next
    case (InEmpty r) with ok show ?thesis by (cases r) (auto intro: x)
  qed (use ok in auto)
qed

section \<open>One step of one thread\<close>

definition moves ::
  "trail \<Rightarrow> 'a msq \<Rightarrow> 'a fifo \<Rightarrow> 'a status \<Rightarrow> 'a ms_pc \<Rightarrow> ('a ms_pc \<times> 'a msq \<times> 'a ms_event list) result \<Rightarrow> bool"
  where
  "moves g q f st p r \<longleftrightarrow> r = Inl BadAlloc \<or>
     (\<exists>k q' es g' f' st'. r = Inr (k, q', es) \<and> fifo_run es f st = Some (f', st') \<and>
        rep g' q' f' \<and> ext g q g' q' \<and> pc_ok g' q' st' k \<and>
        (\<forall>a \<in> set (g_nodes g'). a \<in> set (g_nodes g) \<or> owned p = Some a) \<and>
        (\<forall>a. owned k = Some a \<longrightarrow> owned p = Some a \<or> msq_heap q a = None))"

lemma moves_fail: "moves g q f st p (Inl BadAlloc)"
  by (simp add: moves_def)

lemma movesI:
  assumes "fifo_run es f st = Some (f', st')" "rep g' q' f'" "ext g q g' q'" "pc_ok g' q' st' k"
    and "\<And>a. a \<in> set (g_nodes g') \<Longrightarrow> a \<in> set (g_nodes g) \<or> owned p = Some a"
    and "\<And>a. owned k = Some a \<Longrightarrow> owned p = Some a \<or> msq_heap q a = None"
  shows "moves g q f st p (Inr (k, q', es))"
  unfolding moves_def using assms by blast

text \<open>A step that writes nothing.\<close>

lemma moves_read:
  assumes "rep g q f" "fifo_run es f st = Some (f, st')" "pc_ok g q st' k"
    and "owned k = owned p \<or> owned k = None"
  shows "moves g q f st p (Inr (k, q, es))"
  using assms ext_refl by (intro movesI [where g' = g and f' = f and st' = st']) auto

lemma go_on_simps [simp]:
  "go_on wrap (Inl e) = Inl e"
  "go_on wrap (Inr (Inl p, q, es)) = Inr (wrap p, q, es)"
  "go_on wrap (Inr (Inr v, q, es)) = Inr (Ready, q, es @ [ERet v])"
  by (simp_all add: go_on_def)

text \<open>A step that moves the tail.\<close>

lemma moves_swing:
  assumes r: "rep g q f" and sw: "swing g ot a"
    and cas: "atp_cas_weak sp (m_tail q) ot (tp_pack a (tp_tag ot + 1)) = (ok, cell, ot')"
    and run: "fifo_run es f st = Some (f, st')"
    and k: "\<And>g' q'. ext g q g' q' \<Longrightarrow> g_nodes g' = g_nodes g \<Longrightarrow> tail_snap g' ot' \<Longrightarrow> pc_ok g' q' st' k"
    and o: "owned k = owned p \<or> owned k = None"
  shows "moves g q f st p (Inr (k, q\<lparr>m_tail := cell\<rparr>, es))"
proof -
  obtain g' where g: "rep g' (q\<lparr>m_tail := cell\<rparr>) f" "ext g q g' (q\<lparr>m_tail := cell\<rparr>)"
    "g_nodes g' = g_nodes g" "tail_snap g' ot'"
    using swing_tail [OF r sw cas] .
  show ?thesis
    using o g(3) by (intro movesI [OF run g(1,2) k [OF g(2-4)]]) auto
qed

lemma swing_make: "rep g q f \<Longrightarrow> swing g ot a \<Longrightarrow> tp_make a t = Inr (tp_pack a t)"
  by (simp add: node_addr_simps [OF swing_addr])

lemma ready_make: "rep g q f \<Longrightarrow> ready g ot a \<Longrightarrow> tp_make a t = Inr (tp_pack a t)"
  by (simp add: node_addr_simps [OF ready_addr])

lemma own_make: "own g q x a \<Longrightarrow> tp_make a t = Inr (tp_pack a t)"
  using node_addr_simps by (simp add: own_def)

lemma own_fresh: "own g q x a \<Longrightarrow> a \<notin> set (g_nodes g)"
  by (simp add: own_def)

text \<open>A compare-exchange on a \<open>next\<close> cell that fails leaves the heap alone.\<close>

lemma cas_next_weak_False:
  assumes "cas_next_weak sp a e d h = Inr (False, nx, h')"
  shows "h' = h"
  using assms by (cases "h a") (auto simp: cas_next_weak_def atp_cas_weak_eq split: if_splits)

lemma cas_next_weak_live:
  assumes "h a = Some n"
  shows "\<exists>ok nx h'. cas_next_weak sp a e d h = Inr (ok, nx, h')"
  using assms by (simp add: cas_next_weak_def Let_def split: prod.split)

lemma tail_snap_live:
  assumes "rep g q f" "tail_snap g ot"
  obtains n where "msq_heap q (tp_value ot) = Some n"
  using tail_snap_next [OF assms] by metis

lemma new_node_at_cases:
  "new_node_at a x h = Inl BadAlloc \<or> (\<exists>node h'. new_node_at a x h = Inr (node, h'))"
  by (simp add: new_node_at_def new_node_def split: option.split)

lemma push_moves:
  assumes r: "rep g q f" and ok: "push_ok g q st p"
  shows "moves g q f st (InPush p) (go_on InPush (push_go sp a p q))"
proof (cases p)
  case (PushNew x)
  consider (bad) "new_node_at a x (msq_heap q) = Inl BadAlloc"
    | (new) node h where "new_node_at a x (msq_heap q) = Inr (node, h)"
    using new_node_at_cases [of a x "msq_heap q"] by metis
  then show ?thesis
  proof cases
    case bad
    then show ?thesis using PushNew by (simp add: moves_fail)
  next
    case (new node h)
    note n = new_node_own [OF r new]
    show ?thesis
      using PushNew new n ok by (auto intro!: movesI [where g' = g])
  qed
next
  case (PushTail node)
  then show ?thesis
    using ok tail_snap_load [OF r] by (auto intro!: moves_read [OF r])
next
  case (PushNext node ot)
  then obtain n where "msq_heap q (tp_value ot) = Some n" "next_snap g ot (atp_load (node_next n))"
    using ok tail_snap_next [OF r] by (metis push_ok.simps(3))
  then show ?thesis
    using ok PushNext by (auto intro!: moves_read [OF r])
next
  case (PushCheck node ot nx)
  have "swing g ot (tp_value nx)" if "tp_value nx \<noteq> nullptr"
    using ok PushCheck next_snap_swing [OF r] that by simp
  then show ?thesis
    using ok PushCheck by (auto intro!: moves_read [OF r])
next
  case (PushLink node ot nx)
  then obtain x seen where st: "st = Running (OpPush x) seen" and own: "own g q x node"
    and ts: "tail_snap g ot" and nul: "tp_value nx = nullptr"
    using ok by auto
  obtain n where live: "msq_heap q (tp_value ot) = Some n" using tail_snap_live [OF r ts] .
  let ?d = "tp_pack node (tp_tag nx + 1)"
  obtain w nx' h where cas: "cas_next_weak sp (tp_value ot) nx ?d (msq_heap q) = Inr (w, nx', h)"
    using cas_next_weak_live [of "msq_heap q" "tp_value ot" n sp nx ?d] live by metis
  note eq = PushLink own_make [OF own] cas
  show ?thesis
  proof (cases w)
    case True
    then obtain g' where g: "rep g' (q\<lparr>msq_heap := h\<rparr>) (f\<lparr>items := items f @ [x], n_push := n_push f + 1\<rparr>)"
      "ext g q g' (q\<lparr>msq_heap := h\<rparr>)" "g_nodes g' = g_nodes g @ [node]" "swing g' ot node"
      using link_last [OF r ts nul own] cas by metis
    have "moves g q f st (InPush p) (Inr (InPush (PushSwing node ot), q\<lparr>msq_heap := h\<rparr>, [EPush]))"
      by (rule movesI [OF _ g(1,2)]) (use st g PushLink in auto)
    then show ?thesis using True eq by simp
  next
    case False
    then have "h = msq_heap q" using cas by (auto dest: cas_next_weak_False)
    moreover have "moves g q f st (InPush p) (Inr (InPush (PushTail node), q, []))"
      using st own PushLink by (auto intro!: moves_read [OF r])
    ultimately show ?thesis using False eq by simp
  qed
next
  case (PushSwing node ot)
  then obtain x where st: "st = Done (OpPush x) (RBool True)" and sw: "swing g ot node"
    using ok by auto
  obtain w cell ot' where cas:
    "atp_cas_weak sp (m_tail q) ot (tp_pack node (tp_tag ot + 1)) = (w, cell, ot')"
    by (cases "atp_cas_weak sp (m_tail q) ot (tp_pack node (tp_tag ot + 1))") auto
  have "moves g q f st (InPush p) (Inr (Ready, q\<lparr>m_tail := cell\<rparr>, [ERet (RBool True)]))"
    using st by (intro moves_swing [OF r sw cas]) auto
  then show ?thesis using PushSwing cas swing_make [OF r sw] by simp
next
  case (PushHelp node ot nx)
  then obtain x seen where st: "st = Running (OpPush x) seen" and own: "own g q x node"
    and sw: "swing g ot (tp_value nx)"
    using ok by auto
  obtain w cell ot' where cas:
    "atp_cas_weak sp (m_tail q) ot (tp_pack (tp_value nx) (tp_tag ot + 1)) = (w, cell, ot')"
    by (cases "atp_cas_weak sp (m_tail q) ot (tp_pack (tp_value nx) (tp_tag ot + 1))") auto
  have keep: "own g' q' x node" if "ext g q g' q'" "g_nodes g' = g_nodes g" for g' q'
    using own_ext [OF that(1) own] that(2) own_fresh [OF own] by simp
  have "moves g q f st (InPush p) (Inr (InPush (PushNext node ot'), q\<lparr>m_tail := cell\<rparr>, []))"
    using st keep PushHelp by (intro moves_swing [OF r sw cas]) auto
  then show ?thesis using PushHelp cas swing_make [OF r sw] by simp
qed

lemma try_push_moves:
  assumes r: "rep g q f" and ok: "try_push_ok g q st p"
  shows "moves g q f st (InTryPush p) (go_on InTryPush (try_push_go False a p q))"
proof (cases p)
  case (TryPushTail x s)
  then show ?thesis
    using ok tail_snap_load [OF r] by (auto simp: Let_def intro!: moves_read [OF r])
next
  case (TryPushNext x ot)
  then have ts: "tail_snap g ot" using ok by simp
  obtain n where n: "msq_heap q (tp_value ot) = Some n" "next_snap g ot (atp_load (node_next n))"
    using tail_snap_next [OF r ts] .
  have "swing g ot (tp_value (atp_load (node_next n)))" if "tp_value (atp_load (node_next n)) \<noteq> nullptr"
    using next_snap_swing [OF r ts n(2) that] .
  then show ?thesis
    using ok TryPushNext n by (auto intro!: moves_read [OF r])
next
  case (TryPushNew x ot nx)
  consider (bad) "new_node_at a x (msq_heap q) = Inl BadAlloc"
    | (new) node h where "new_node_at a x (msq_heap q) = Inr (node, h)"
    using new_node_at_cases [of a x "msq_heap q"] by metis
  then show ?thesis
  proof cases
    case bad
    then show ?thesis using TryPushNew by (simp add: moves_fail)
  next
    case (new node h)
    note n = new_node_own [OF r new]
    show ?thesis
      using TryPushNew new n ok by (auto intro!: movesI [where g' = g])
  qed
next
  case (TryPushLink node ot nx)
  then obtain x seen where st: "st = Running (OpTryPush x (tp_tag ot)) seen" and own: "own g q x node"
    and ts: "tail_snap g ot" and nul: "tp_value nx = nullptr"
    using ok by auto
  obtain n where live: "msq_heap q (tp_value ot) = Some n" using tail_snap_live [OF r ts] .
  let ?d = "tp_pack node (tp_tag nx + 1)"
  obtain w nx' h where cas: "cas_next_weak False (tp_value ot) nx ?d (msq_heap q) = Inr (w, nx', h)"
    using cas_next_weak_live [of "msq_heap q" "tp_value ot" n False nx ?d] live by metis
  note eq = TryPushLink own_make [OF own] cas_next_strong_weak [of "tp_value ot" nx ?d "msq_heap q"] cas
  show ?thesis
  proof (cases w)
    case True
    then obtain g' where g: "rep g' (q\<lparr>msq_heap := h\<rparr>) (f\<lparr>items := items f @ [x], n_push := n_push f + 1\<rparr>)"
      "ext g q g' (q\<lparr>msq_heap := h\<rparr>)" "g_nodes g' = g_nodes g @ [node]" "swing g' ot node"
      "tp_tag ot = n_push f"
      using link_last [OF r ts nul own] cas by metis
    have "moves g q f st (InTryPush p) (Inr (InTryPush (TryPushSwing node ot), q\<lparr>msq_heap := h\<rparr>, [EPush]))"
      by (rule movesI [OF _ g(1,2)]) (use st g TryPushLink in auto)
    then show ?thesis using True eq by simp
  next
    case False
    then have "h = msq_heap q" using cas by (auto dest: cas_next_weak_False)
    moreover have "moves g q f st (InTryPush p) (Inr (InTryPush (TryPushFree node), q, []))"
      using st own TryPushLink by (auto intro!: moves_read [OF r])
    ultimately show ?thesis using False eq by simp
  qed
next
  case (TryPushSwing node ot)
  then obtain x s where st: "st = Done (OpTryPush x s) (RBool True)" and sw: "swing g ot node"
    using ok by auto
  obtain w cell ot' where cas:
    "atp_cas_weak False (m_tail q) ot (tp_pack node (tp_tag ot + 1)) = (w, cell, ot')"
    by (cases "atp_cas_weak False (m_tail q) ot (tp_pack node (tp_tag ot + 1))") auto
  have "moves g q f st (InTryPush p) (Inr (Ready, q\<lparr>m_tail := cell\<rparr>, [ERet (RBool True)]))"
    using st by (intro moves_swing [OF r sw cas]) auto
  then show ?thesis using TryPushSwing cas swing_make [OF r sw] by (simp add: atp_cas_strong_weak)
next
  case (TryPushHelp ot nx)
  then obtain x s seen where st: "st = Running (OpTryPush x s) seen" and sw: "swing g ot (tp_value nx)"
    using ok by auto
  obtain w cell ot' where cas:
    "atp_cas_weak False (m_tail q) ot (tp_pack (tp_value nx) (tp_tag ot + 1)) = (w, cell, ot')"
    by (cases "atp_cas_weak False (m_tail q) ot (tp_pack (tp_value nx) (tp_tag ot + 1))") auto
  have "moves g q f st (InTryPush p) (Inr (Ready, q\<lparr>m_tail := cell\<rparr>, [ERet (RBool False)]))"
    using st by (intro moves_swing [OF r sw cas]) auto
  then show ?thesis using TryPushHelp cas swing_make [OF r sw] by (simp add: atp_cas_strong_weak)
next
  case (TryPushFree node)
  then obtain x s seen n where "st = Running (OpTryPush x s) seen" "msq_heap q node = Some n"
    using ok by (auto simp: own_def)
  then show ?thesis
    using TryPushFree by (auto simp: free_node_def intro!: moves_read [OF r])
qed

lemma pop_moves:
  assumes r: "rep g q f" and ok: "pop_ok g q st p"
  shows "moves g q f st (InPop p) (go_on InPop (pop_go False sp p q))"
proof (cases p)
  case PopHead
  then show ?thesis
    using ok head_snap_load [OF r] by (auto intro!: moves_read [OF r])
next
  case (PopTail oh)
  then show ?thesis
    using ok head_tail_load [OF r] by (auto intro!: moves_read [OF r])
next
  case (PopNext oh ot)
  then have ht: "head_tail g oh ot" using ok by simp
  obtain n where n: "msq_heap q (tp_value oh) = Some n" "next_snap g oh (atp_load (node_next n))"
    "tp_value (atp_load (node_next n)) = nullptr \<Longrightarrow>
       items f = [] \<and> tp_value oh = tp_value ot \<and> tp_tag ot = n_push f"
    using head_tail_next [OF r ht] by metis
  then show ?thesis
    using ok PopNext by (auto intro!: moves_read [OF r])
next
  case (PopCheck oh ot nx)
  then obtain seen where st: "st = Running OpPop seen" and ht: "head_tail g oh ot"
    and nx: "next_snap g oh nx"
    and nul: "tp_value nx = nullptr \<Longrightarrow> (True, tp_tag ot) \<in> set seen \<and> tp_value oh = tp_value ot"
    using ok by auto
  have "swing g ot (tp_value nx)" if "tp_value nx \<noteq> nullptr" "tp_value oh = tp_value ot"
    using head_tail_swing [OF r ht nx that] .
  moreover have "ready g oh (tp_value nx)" if "tp_value oh \<noteq> tp_value ot"
    using head_tail_ready [OF r ht nx] nul that by metis
  ultimately show ?thesis
    using PopCheck st nul by (auto intro!: moves_read [OF r])
next
  case (PopHelp ot nx)
  then obtain seen where st: "st = Running OpPop seen" and sw: "swing g ot (tp_value nx)"
    using ok by auto
  obtain w cell ot' where cas:
    "atp_cas_weak sp (m_tail q) ot (tp_pack (tp_value nx) (tp_tag ot + 1)) = (w, cell, ot')"
    by (cases "atp_cas_weak sp (m_tail q) ot (tp_pack (tp_value nx) (tp_tag ot + 1))") auto
  have "moves g q f st (InPop p) (Inr (InPop PopHead, q\<lparr>m_tail := cell\<rparr>, []))"
    using st by (intro moves_swing [OF r sw cas]) auto
  then show ?thesis using PopHelp cas swing_make [OF r sw] by simp
next
  case (PopValue oh nx)
  then have rd: "ready g oh (tp_value nx)" using ok by simp
  obtain n where n: "msq_heap q (tp_value nx) = Some n" "tp_value nx \<in> set (g_nodes g)"
    using ready_value [OF r rd] .
  then show ?thesis
    using ok PopValue by (auto simp: value_at_def intro!: moves_read [OF r])
next
  case (PopCas oh nx x)
  then obtain seen where st: "st = Running OpPop seen" and rd: "ready g oh (tp_value nx)"
    and v: "value_at q (tp_value nx) = Some x"
    using ok by auto
  obtain w cell oh' where cas:
    "atp_cas_weak sp (m_head q) oh (tp_pack (tp_value nx) (tp_tag oh + 1)) = (w, cell, oh')"
    by (cases "atp_cas_weak sp (m_head q) oh (tp_pack (tp_value nx) (tp_tag oh + 1))") auto
  note eq = PopCas cas ready_make [OF r rd]
  show ?thesis
  proof (cases w)
    case True
    obtain g' xs where g: "items f = x # xs" "n_pop f = tp_tag oh"
      "rep g' (q\<lparr>m_head := cell\<rparr>) (f\<lparr>items := xs, n_pop := n_pop f + 1\<rparr>)"
      "ext g q g' (q\<lparr>m_head := cell\<rparr>)" "g_nodes g' = g_nodes g" "head_snap g' oh"
      using take_first [OF r rd v] cas True by metis
    have "moves g q f st (InPop p) (Inr (InPop (PopFree oh x), q\<lparr>m_head := cell\<rparr>, [EPop]))"
      by (rule movesI [OF _ g(3,4)]) (use st g PopCas in auto)
    then show ?thesis using True eq by simp
  next
    case False
    then have "cell = m_head q" using cas by (auto simp: atp_cas_weak_eq split: if_splits)
    moreover have "moves g q f st (InPop p) (Inr (InPop PopHead, q, []))"
      using st PopCas by (auto intro!: moves_read [OF r])
    ultimately show ?thesis using False eq by simp
  qed
next
  case (PopFree oh x)
  then obtain i where i: "snap_at g i oh" using ok by (auto simp: head_snap_def)
  obtain n where "msq_heap q (tp_value oh) = Some n" using snap_at_node [OF r i] by metis
  then show ?thesis
    using ok PopFree by (auto simp: free_node_def intro!: moves_read [OF r])
qed

lemma try_pop_moves:
  assumes r: "rep g q f" and ok: "try_pop_ok g q st p"
  shows "moves g q f st (InTryPop p) (go_on InTryPop (try_pop_go False p q))"
proof (cases p)
  case (TryPopHead s)
  then show ?thesis
    using ok head_snap_load [OF r] by (auto intro!: moves_read [OF r])
next
  case (TryPopTail s oh)
  then show ?thesis
    using ok head_tail_load [OF r] by (auto intro!: moves_read [OF r])
next
  case (TryPopNext s oh ot)
  then have ht: "head_tail g oh ot" using ok by simp
  obtain n where n: "msq_heap q (tp_value oh) = Some n" "next_snap g oh (atp_load (node_next n))"
    "tp_value (atp_load (node_next n)) = nullptr \<Longrightarrow>
       items f = [] \<and> tp_value oh = tp_value ot \<and> tp_tag ot = n_push f"
    using head_tail_next [OF r ht] by metis
  let ?nx = "atp_load (node_next n)"
  have "swing g ot (tp_value ?nx)" if "tp_value ?nx \<noteq> nullptr" "tp_value oh = tp_value ot"
    using head_tail_swing [OF r ht n(2) that] .
  moreover have "ready g oh (tp_value ?nx)" if "tp_value oh \<noteq> tp_value ot"
    using head_tail_ready [OF r ht n(2)] n(3) that by metis
  ultimately show ?thesis
    using ok TryPopNext n by (auto intro!: moves_read [OF r])
next
  case (TryPopHelp ot nx)
  then obtain s seen where st: "st = Running (OpTryPop s) seen" and sw: "swing g ot (tp_value nx)"
    using ok by auto
  obtain w cell ot' where cas:
    "atp_cas_weak False (m_tail q) ot (tp_pack (tp_value nx) (tp_tag ot + 1)) = (w, cell, ot')"
    by (cases "atp_cas_weak False (m_tail q) ot (tp_pack (tp_value nx) (tp_tag ot + 1))") auto
  have "moves g q f st (InTryPop p) (Inr (Ready, q\<lparr>m_tail := cell\<rparr>, [ERet RFailure]))"
    using st by (intro moves_swing [OF r sw cas]) auto
  then show ?thesis using TryPopHelp cas swing_make [OF r sw] by (simp add: atp_cas_strong_weak)
next
  case (TryPopValue oh nx)
  then have rd: "ready g oh (tp_value nx)" using ok by simp
  obtain n where n: "msq_heap q (tp_value nx) = Some n" "tp_value nx \<in> set (g_nodes g)"
    using ready_value [OF r rd] .
  then show ?thesis
    using ok TryPopValue by (auto simp: value_at_def intro!: moves_read [OF r])
next
  case (TryPopCas oh nx x)
  then obtain seen where st: "st = Running (OpTryPop (tp_tag oh)) seen"
    and rd: "ready g oh (tp_value nx)" and v: "value_at q (tp_value nx) = Some x"
    using ok by auto
  obtain w cell oh' where cas:
    "atp_cas_weak False (m_head q) oh (tp_pack (tp_value nx) (tp_tag oh + 1)) = (w, cell, oh')"
    by (cases "atp_cas_weak False (m_head q) oh (tp_pack (tp_value nx) (tp_tag oh + 1))") auto
  note eq = TryPopCas cas ready_make [OF r rd] atp_cas_strong_weak
  show ?thesis
  proof (cases w)
    case True
    obtain g' xs where g: "items f = x # xs" "n_pop f = tp_tag oh"
      "rep g' (q\<lparr>m_head := cell\<rparr>) (f\<lparr>items := xs, n_pop := n_pop f + 1\<rparr>)"
      "ext g q g' (q\<lparr>m_head := cell\<rparr>)" "g_nodes g' = g_nodes g" "head_snap g' oh"
      using take_first [OF r rd v] cas True by metis
    have "moves g q f st (InTryPop p) (Inr (InTryPop (TryPopFree oh x), q\<lparr>m_head := cell\<rparr>, [EPop]))"
      by (rule movesI [OF _ g(3,4)]) (use st g TryPopCas in auto)
    then show ?thesis using True eq by simp
  next
    case False
    then have "cell = m_head q" using cas by (auto simp: atp_cas_weak_eq split: if_splits)
    moreover have "moves g q f st (InTryPop p) (Inr (Ready, q, [ERet RFailure]))"
      using st TryPopCas by (auto intro!: moves_read [OF r])
    ultimately show ?thesis using False eq by simp
  qed
next
  case (TryPopFree oh x)
  then obtain i where i: "snap_at g i oh" using ok by (auto simp: head_snap_def)
  obtain n where "msq_heap q (tp_value oh) = Some n" using snap_at_node [OF r i] by metis
  then show ?thesis
    using ok TryPopFree by (auto simp: free_node_def intro!: moves_read [OF r])
qed

lemma empty_moves:
  assumes r: "rep g q f" and ok: "empty_ok g st p"
  shows "moves g q f st (InEmpty p) (go_on InEmpty (empty_go p q))"
proof (cases p)
  case EmptyHead
  then show ?thesis
    using ok head_snap_load [OF r] by (auto intro!: moves_read [OF r])
next
  case (EmptyTail oh)
  then show ?thesis
    using ok head_tail_load [OF r] by (auto intro!: moves_read [OF r])
next
  case (EmptyNext oh ot)
  then have ht: "head_tail g oh ot" using ok by simp
  obtain n where n: "msq_heap q (tp_value oh) = Some n" "next_snap g oh (atp_load (node_next n))"
    "tp_value (atp_load (node_next n)) = nullptr \<Longrightarrow>
       items f = [] \<and> tp_value oh = tp_value ot \<and> tp_tag ot = n_push f"
    using head_tail_next [OF r ht] by metis
  then show ?thesis
    using ok EmptyNext by (auto intro!: moves_read [OF r])
next
  case (EmptyCheck oh ot nx)
  then obtain seen where st: "st = Running OpEmpty seen" and ht: "head_tail g oh ot"
    and nx: "next_snap g oh nx"
    and nul: "tp_value nx = nullptr \<Longrightarrow> (True, tp_tag ot) \<in> set seen \<and> tp_value oh = tp_value ot"
    using ok by auto
  have full: "items f \<noteq> []" if h: "atp_load (m_head q) = oh" and nn: "tp_value nx \<noteq> nullptr"
  proof -
    obtain k where k: "Suc k < length (g_nodes g)" "g_nodes g ! k = tp_value oh"
      using nx nn by (auto simp: next_snap_def)
    have "k = g_head g"
      using k h rep_bounds(4) [OF r] by (intro rep_nth_inj [OF r]) (simp_all add: snap_at_def)
    then show ?thesis using k rep_empty [OF r] by simp
  qed
  have "may_return OpEmpty (seen @ [(items f = [], n_push f)])
      (RBool (tp_value oh = tp_value ot \<and> tp_value nx = nullptr))" if "atp_load (m_head q) = oh"
  proof (cases "tp_value nx = nullptr")
    case True
    then show ?thesis
      using nul may_return_seen(3) [of True "tp_tag ot" "seen @ [(items f = [], n_push f)]"] by simp
  next
    case False
    then show ?thesis
      using full [OF that] may_return_seen(3) [of False "n_push f" "seen @ [(False, n_push f)]"] by simp
  qed
  then have "moves g q f st (InEmpty p)
      (Inr (Ready, q, [ELook, ERet (RBool (tp_value oh = tp_value ot \<and> tp_value nx = nullptr))]))"
    if "atp_load (m_head q) = oh"
    using st that by (auto intro!: moves_read [OF r])
  moreover have "moves g q f st (InEmpty p) (Inr (InEmpty EmptyHead, q, [ELook]))"
    using st by (auto intro!: moves_read [OF r])
  ultimately show ?thesis using EmptyCheck by simp
qed

lemma tail_state_moves:
  assumes r: "rep g q f"
  shows "moves g q f (Running OpTailState seen) InTailState (go_on (\<lambda>_. InTailState) (tail_state_go q))"
proof -
  note b = rep_bounds [OF r]
  let ?v = "tp_tag (atp_load (m_tail q))"
  have np: "n_push f = of_nat (length (g_nodes g)) - 1" "?v = of_nat (g_tail g)"
    using r b(5) by (simp_all add: rep_def snap_at_def)
  consider "length (g_nodes g) = g_tail g + 1" | "length (g_nodes g) = g_tail g + 2"
    using b(2,3) by linarith
  then have "?v = n_push f \<or> ?v = n_push f - 1"
    using np by cases simp_all
  then have "may_return OpTailState (seen @ [(items f = [], n_push f)]) (RState ?v)"
    using may_return_seen(4,5) [of "items f = []" "n_push f" "seen @ [(items f = [], n_push f)]"]
    by auto
  then show ?thesis
    by (auto simp: tail_state_go_def intro!: moves_read [OF r])
qed

lemma ms_go_moves:
  assumes "rep g q f" "pc_ok g q st p"
  shows "moves g q f st p (ms_go False sp a p q)"
  using assms push_moves try_push_moves pop_moves try_pop_moves empty_moves tail_state_moves
  by (cases p) (auto intro!: moves_read)

section \<open>All threads\<close>

definition threads_inv ::
  "trail \<Rightarrow> 'a fifo \<Rightarrow> ('t \<Rightarrow> 'a status) \<Rightarrow> ('t, 'a) ms_threads \<Rightarrow> bool" where
  "threads_inv g f st s \<longleftrightarrow> rep g (the_queue s) f \<and>
     (\<forall>t. pc_ok g (the_queue s) (st t) (pc_of s t)) \<and>
     (\<forall>t u a. owned (pc_of s t) = Some a \<longrightarrow> owned (pc_of s u) = Some a \<longrightarrow> t = u)"

lemma owned_begin [simp]: "owned (ms_begin op) = None"
  by (cases op) simp_all

lemma pc_ok_begin: "pc_ok g q (Running op []) (ms_begin op)"
  by (cases op) simp_all

lemma ms_next_inv:
  assumes inv: "threads_inv g f st s"
  shows "ms_next False c s = Inl BadAlloc \<or>
    (\<exists>s' es g' f' st'. ms_next False c s = Inr (s', es) \<and> fifo_trace es f st = Some (f', st') \<and>
       threads_inv g' f' st' s')"
proof (cases c)
  case (Call t op)
  show ?thesis
  proof (cases "pc_of s t = Ready")
    case True
    then have "st t = Idle" using inv by (auto simp: threads_inv_def dest: spec [of _ t])
    then have "fifo_trace [(t, ECall op)] f st = Some (f, st(t := Running op []))" by simp
    moreover have "threads_inv g f (st(t := Running op [])) (s\<lparr>pc_of := (pc_of s)(t := ms_begin op)\<rparr>)"
      using inv by (auto simp: threads_inv_def pc_ok_begin)
    ultimately show ?thesis using Call True by simp blast
  next
    case False
    have "fifo_trace [] f st = Some (f, st)" by simp
    then show ?thesis using Call False inv by simp blast
  qed
next
  case (Access t sp a)
  let ?q = "the_queue s" and ?p = "pc_of s t"
  have r: "rep g ?q f" and ok: "\<And>u. pc_ok g ?q (st u) (pc_of s u)"
    and own: "\<And>t u a. owned (pc_of s t) = Some a \<Longrightarrow> owned (pc_of s u) = Some a \<Longrightarrow> t = u"
    using inv by (auto simp: threads_inv_def)
  have "moves g ?q f (st t) ?p (ms_go False sp a ?p ?q)" by (rule ms_go_moves [OF r ok])
  then consider (bad) "ms_go False sp a ?p ?q = Inl BadAlloc"
    | (go) k q' es g' f' x where "ms_go False sp a ?p ?q = Inr (k, q', es)"
      "fifo_run es f (st t) = Some (f', x)" "rep g' q' f'" "ext g ?q g' q'" "pc_ok g' q' x k"
      "\<And>b. b \<in> set (g_nodes g') \<Longrightarrow> b \<in> set (g_nodes g) \<or> owned ?p = Some b"
      "\<And>b. owned k = Some b \<Longrightarrow> owned ?p = Some b \<or> msq_heap ?q b = None"
    unfolding moves_def by blast
  then show ?thesis
  proof cases
    case bad
    then show ?thesis using Access by simp
  next
    case go
    let ?s = "s\<lparr>the_queue := q', pc_of := (pc_of s)(t := k)\<rparr>"
    have other: "pc_ok g' q' (st u) (pc_of s u)" if "u \<noteq> t" for u
    proof (rule pc_ok_ext [OF ok go(4)])
      fix b
      assume b: "owned (pc_of s u) = Some b"
      then have "b \<notin> set (g_nodes g)" "owned ?p \<noteq> Some b"
        using owned_own [OF ok b] own [of u b t] that by (auto simp: own_def)
      then show "b \<notin> set (g_nodes g')" using go(6) by blast
    qed
    have apart: "u = t" if "owned (pc_of s u) = Some b" "owned k = Some b" for u b
    proof -
      have "msq_heap ?q b \<noteq> None" using owned_own [OF ok that(1)] by (auto simp: own_def)
      then show ?thesis using go(7) [OF that(2)] own [OF that(1)] by auto
    qed
    have "threads_inv g' f' (st(t := x)) ?s"
      unfolding threads_inv_def using go(3,5) other apart own by auto
    moreover have "fifo_trace (map (Pair t) es) f st = Some (f', st(t := x))"
      using go(2) by (simp add: fifo_trace_thread)
    moreover have "ms_next False c s = Inr (?s, map (Pair t) es)"
      using Access go(1) by simp
    ultimately show ?thesis by blast
  qed
qed

lemma ms_exec_inv:
  assumes "threads_inv g f st s"
  shows "ms_exec False cs s = Inl BadAlloc \<or>
    (\<exists>s' es g' f' st'. ms_exec False cs s = Inr (s', es) \<and> fifo_trace es f st = Some (f', st') \<and>
       threads_inv g' f' st' s')"
  using assms
proof (induction cs arbitrary: g f st s)
  case Nil
  then show ?case by auto
next
  case (Cons c cs)
  from ms_next_inv [OF Cons.prems, of c] show ?case
  proof (elim disjE exE conjE)
    fix s1 es1 g1 f1 st1
    assume h: "ms_next False c s = Inr (s1, es1)" "fifo_trace es1 f st = Some (f1, st1)"
      "threads_inv g1 f1 st1 s1"
    from Cons.IH [OF h(3)] show ?case
      using h(1,2) by (auto simp: fifo_trace_append)
  qed simp
qed

lemma threads_inv_init:
  assumes ok: "alloc_ok alloc" and new: "ms_new alloc dflt = Inr q"
  shows "threads_inv \<lparr>g_nodes = [head_ptr q], g_head = 0, g_tail = 0\<rparr> fifo_init (\<lambda>_. Idle)
    (ms_threads_init q)"
proof -
  obtain a where a: "alloc (\<lambda>_. None) = Some a" "node_addr a"
    using ok new by (auto simp: ms_new_def new_node_def alloc_ok_def node_addr_def split: option.splits)
  have p: "tp_of_value a = Inr (tp_pack a 0)"
    using a by (simp add: tp_of_value_Inr_iff node_addr_simps)
  have q: "q = \<lparr>msq_heap = [a \<mapsto> \<lparr>node_value = dflt, node_next = atp_default\<rparr>],
      m_head = atp_store atp_default (tp_pack a 0), m_tail = atp_store atp_default (tp_pack a 0)\<rparr>"
    using new a p by (simp add: ms_new_def new_node_def)
  then show ?thesis
    using a by (simp add: threads_inv_def rep_def trail_inv_def ms_threads_init_def fifo_init_def
        head_ptr_def snap_at_def succ_of_def node_addr_simps)
qed

end
