(* ===== verification/MS_Reclaim.thy ===== *)
theory MS_Reclaim
  imports MS_Linear
begin

text \<open>
  The operations of \<^verbatim>\<open>include/ni/cds/ms_queue.hh\<close> free a node as soon as it is unlinked. A run in
  which no thread touches a freed node, and no address is handed out twice, does what the run
  that never frees does, and is therefore linearizable. Nothing in the code keeps threads from
  freed nodes: two schedules end in an access to one.
\<close>

section \<open>Freeing and keeping nodes\<close>

text \<open>The queue with freed nodes missing, against the queue that keeps them.\<close>

definition sub_queue :: "'a msq \<Rightarrow> 'a msq \<Rightarrow> bool" where
  "sub_queue q r \<longleftrightarrow>
     m_head q = m_head r \<and> m_tail q = m_tail r \<and> msq_heap q \<subseteq>\<^sub>m msq_heap r"

lemma sub_queueD:
  assumes "sub_queue q r"
  shows "m_head r = m_head q" "m_tail r = m_tail q"
    "msq_heap q b = Some n \<Longrightarrow> msq_heap r b = Some n"
  using assms by (auto simp: sub_queue_def map_le_def dom_def)

lemma sub_queue_upd:
  assumes "sub_queue q r"
  shows "sub_queue (q\<lparr>m_tail := c\<rparr>) (r\<lparr>m_tail := c\<rparr>)" "sub_queue (q\<lparr>m_head := c\<rparr>) (r\<lparr>m_head := c\<rparr>)"
    "sub_queue (q\<lparr>msq_heap := (msq_heap q)(b \<mapsto> n)\<rparr>) (r\<lparr>msq_heap := (msq_heap r)(b \<mapsto> n)\<rparr>)"
    "sub_queue (q\<lparr>msq_heap := (msq_heap q)(b := None)\<rparr>) r"
  using assms by (auto simp: sub_queue_def map_le_def)

text \<open>A step adds no address but the one the allocator hands out.\<close>

definition grows :: "addr option \<Rightarrow> (addr \<rightharpoonup> 'n) \<Rightarrow> (addr \<rightharpoonup> 'n) \<Rightarrow> bool" where
  "grows a h h' \<longleftrightarrow> dom h' \<subseteq> dom h \<union> set_option a"

lemma grows_refl [simp]: "grows a h h"
  by (auto simp: grows_def)

text \<open>
  How two results of one step compare: the first is an access to a freed node, or both are the
  same error, or both go on alike.
\<close>

definition alike ::
  "addr option \<Rightarrow> 'a msq \<Rightarrow> ('k \<times> 'a msq \<times> 'e) result \<Rightarrow> ('k \<times> 'a msq \<times> 'e) result \<Rightarrow> bool" where
  "alike a r x y \<longleftrightarrow> (\<exists>b. x = Inl (BadDeref b)) \<or> (\<exists>e. x = Inl e \<and> y = Inl e) \<or>
     (\<exists>k q' r' es. x = Inr (k, q', es) \<and> y = Inr (k, r', es) \<and> sub_queue q' r' \<and>
        grows a (msq_heap r) (msq_heap r'))"

lemma alike_bad [simp]: "alike a r (Inl (BadDeref b)) y" "alike a r (Inl e) (Inl e)"
  by (simp_all add: alike_def)

lemma alike_Inr:
  "sub_queue q' r' \<Longrightarrow> grows a (msq_heap r) (msq_heap r') \<Longrightarrow>
   alike a r (Inr (k, q', es)) (Inr (k, r', es))"
  by (simp add: alike_def)

lemma alike_go_on: "alike a r x y \<Longrightarrow> alike a r (go_on wrap x) (go_on wrap y)"
  by (auto simp: alike_def go_on_def split: sum.splits)

lemma alike_load_next:
  assumes "sub_queue q r" and "\<And>nx. alike a r (f nx) (g nx)"
  shows "alike a r (bindE (load_next (msq_heap q) b) f) (bindE (load_next (msq_heap r) b) g)"
proof (cases "msq_heap q b")
  case (Some n)
  then show ?thesis using assms sub_queueD(3) [OF assms(1) Some] by simp
qed (simp add: load_next_def)

lemma alike_load_value:
  assumes "sub_queue q r" and "\<And>v. alike a r (f v) (g v)"
  shows "alike a r (bindE (load_value (msq_heap q) b) f) (bindE (load_value (msq_heap r) b) g)"
proof (cases "msq_heap q b")
  case (Some n)
  then show ?thesis using assms sub_queueD(3) [OF assms(1) Some] by simp
qed (simp add: load_value_def)

lemma alike_make:
  assumes "\<And>p. alike a r (f p) (g p)"
  shows "alike a r (bindE (tp_make v t) f) (bindE (tp_make v t) g)"
  using assms by (cases "tp_make v t") simp_all

lemma alike_cas_next:
  assumes s: "sub_queue q r"
    and fg: "\<And>ok nx h h'. sub_queue (q\<lparr>msq_heap := h\<rparr>) (r\<lparr>msq_heap := h'\<rparr>) \<Longrightarrow>
      grows a (msq_heap r) h' \<Longrightarrow> alike a r (f (ok, nx, h)) (g (ok, nx, h'))"
  shows "alike a r (bindE (cas_next_weak sp b e d (msq_heap q)) f)
    (bindE (cas_next_weak sp b e d (msq_heap r)) g)"
proof (cases "msq_heap q b")
  case None
  then show ?thesis by (simp add: cas_next_weak_def)
next
  case (Some n)
  note n = Some sub_queueD(3) [OF s Some]
  obtain ok cell nx where c: "atp_cas_weak sp (node_next n) e d = (ok, cell, nx)"
    by (cases "atp_cas_weak sp (node_next n) e d") auto
  let ?n = "n\<lparr>node_next := cell\<rparr>"
  have "alike a r (f (ok, nx, (msq_heap q)(b \<mapsto> ?n))) (g (ok, nx, (msq_heap r)(b \<mapsto> ?n)))"
    using n by (intro fg sub_queue_upd(3) [OF s]) (auto simp: grows_def)
  then show ?thesis using n c by (simp add: cas_next_weak_def)
qed

lemma alike_new:
  assumes s: "sub_queue q r" and a: "\<And>b. a = Some b \<Longrightarrow> msq_heap r b = None"
    and fg: "\<And>node h h'. sub_queue (q\<lparr>msq_heap := h\<rparr>) (r\<lparr>msq_heap := h'\<rparr>) \<Longrightarrow>
      grows a (msq_heap r) h' \<Longrightarrow> alike a r (f (node, h)) (g (node, h'))"
  shows "alike a r (bindE (new_node_at a x (msq_heap q)) f) (bindE (new_node_at a x (msq_heap r)) g)"
proof (cases a)
  case None
  then show ?thesis by (simp add: new_node_at_def new_node_def checked_alloc_def)
next
  case (Some b)
  have r: "msq_heap r b = None" using a Some by simp
  then have q: "msq_heap q b = None"
    using sub_queueD(3) [OF s, of b] by (cases "msq_heap q b") auto
  let ?n = "\<lparr>node_value = x, node_next = atp_default\<rparr>"
  have "alike a r (f (b, (msq_heap q)(b \<mapsto> ?n))) (g (b, (msq_heap r)(b \<mapsto> ?n)))"
    using Some by (intro fg sub_queue_upd(3) [OF s]) (auto simp: grows_def)
  then show ?thesis
    using Some r q by (simp add: new_node_at_def new_node_def checked_alloc_def)
qed

lemma alike_free:
  assumes s: "sub_queue q r"
    and fg: "\<And>h. sub_queue (q\<lparr>msq_heap := h\<rparr>) r \<Longrightarrow> alike a r (f h) (g (msq_heap r))"
  shows "alike a r (bindE (free_node True b (msq_heap q)) f) (bindE (free_node False b (msq_heap r)) g)"
proof (cases "msq_heap q b")
  case None
  then show ?thesis by (simp add: free_node_def delete_node_def)
next
  case (Some n)
  have "alike a r (f ((msq_heap q)(b := None))) (g (msq_heap r))"
    by (intro fg sub_queue_upd(4) [OF s])
  then show ?thesis
    using Some sub_queueD(3) [OF s Some] by (simp add: free_node_def delete_node_def)
qed

lemmas alike_rules = alike_load_next alike_load_value alike_cas_next alike_free

lemma push_alike:
  assumes s: "sub_queue q r" and a: "\<And>b. a = Some b \<Longrightarrow> msq_heap r b = None"
  shows "alike a r (push_go sp a p q) (push_go sp a p r)"
  by (cases p) (auto simp: sub_queueD(1,2) [OF s] intro!: alike_rules [OF s] alike_make
    alike_new [OF s a] alike_Inr sub_queue_upd s split: prod.splits)

lemma try_push_alike:
  assumes s: "sub_queue q r" and a: "\<And>b. a = Some b \<Longrightarrow> msq_heap r b = None"
  shows "alike a r (try_push_go True a p q) (try_push_go False a p r)"
  by (cases p) (auto simp: sub_queueD(1,2) [OF s] cas_next_strong_weak Let_def
    intro!: alike_rules [OF s] alike_make alike_new [OF s a] alike_Inr sub_queue_upd s split: prod.splits)

lemma pop_alike:
  assumes s: "sub_queue q r"
  shows "alike a r (pop_go True sp p q) (pop_go False sp p r)"
  by (cases p) (auto simp: sub_queueD(1,2) [OF s] intro!: alike_rules [OF s] alike_make
    alike_Inr sub_queue_upd s split: prod.splits)

lemma try_pop_alike:
  assumes s: "sub_queue q r"
  shows "alike a r (try_pop_go True p q) (try_pop_go False p r)"
  by (cases p) (auto simp: sub_queueD(1,2) [OF s] intro!: alike_rules [OF s] alike_make
    alike_Inr sub_queue_upd s split: prod.splits)

lemma empty_alike:
  assumes s: "sub_queue q r"
  shows "alike a r (empty_go p q) (empty_go p r)"
  by (cases p) (auto simp: sub_queueD(1,2) [OF s] intro!: alike_rules [OF s] alike_Inr s)

lemma ms_go_alike:
  assumes s: "sub_queue q r" and a: "\<And>b. a = Some b \<Longrightarrow> msq_heap r b = None"
  shows "alike a r (ms_go True sp a p q) (ms_go False sp a p r)"
proof (cases p)
  case Ready
  then show ?thesis using s by (auto intro!: alike_Inr)
next
  case InTailState
  then show ?thesis
    using s by (auto simp: tail_state_go_def sub_queueD(1,2) [OF s] intro!: alike_Inr)
qed (auto intro!: alike_go_on push_alike try_push_alike pop_alike try_pop_alike empty_alike s a)

section \<open>Whole runs\<close>

text \<open>The addresses the allocator hands out, in the order of the schedule.\<close>

fun offered :: "('t, 'a) ms_choice list \<Rightarrow> addr list" where
  "offered [] = []"
| "offered (Access t sp (Some a) # cs) = a # offered cs"
| "offered (Access t sp None # cs) = offered cs"
| "offered (Call t op # cs) = offered cs"

definition sub_threads :: "('t, 'a) ms_threads \<Rightarrow> ('t, 'a) ms_threads \<Rightarrow> bool" where
  "sub_threads s u \<longleftrightarrow> sub_queue (the_queue s) (the_queue u) \<and> pc_of s = pc_of u"

definition unused :: "('t, 'a) ms_choice list \<Rightarrow> ('t, 'a) ms_threads \<Rightarrow> bool" where
  "unused cs u \<longleftrightarrow> distinct (offered cs) \<and> dom (msq_heap (the_queue u)) \<inter> set (offered cs) = {}"

definition alike_runs ::
  "(('t, 'a) ms_threads \<times> 'e) result \<Rightarrow> (('t, 'a) ms_threads \<times> 'e) result \<Rightarrow> bool" where
  "alike_runs x y \<longleftrightarrow> (\<exists>b. x = Inl (BadDeref b)) \<or> (\<exists>e. x = Inl e \<and> y = Inl e) \<or>
     (\<exists>s u es. x = Inr (s, es) \<and> y = Inr (u, es) \<and> sub_threads s u)"

lemma ms_next_alike:
  assumes s: "sub_threads s u" and un: "unused (c # cs) u"
  shows "(\<exists>b. ms_next True c s = Inl (BadDeref b)) \<or>
    (\<exists>e. ms_next True c s = Inl e \<and> ms_next False c u = Inl e) \<or>
    (\<exists>s' u' es. ms_next True c s = Inr (s', es) \<and> ms_next False c u = Inr (u', es) \<and>
       sub_threads s' u' \<and> unused cs u')"
proof (cases c)
  case (Call t op)
  then show ?thesis using s un by (auto simp: sub_threads_def unused_def)
next
  case (Access t sp a)
  have q: "sub_queue (the_queue s) (the_queue u)" and pc: "pc_of s = pc_of u"
    using s by (simp_all add: sub_threads_def)
  have a: "msq_heap (the_queue u) b = None" if "a = Some b" for b
    using un that Access by (auto simp: unused_def)
  have off: "set (offered (c # cs)) = set_option a \<union> set (offered cs)"
    "distinct (offered (c # cs)) \<Longrightarrow> distinct (offered cs) \<and> set_option a \<inter> set (offered cs) = {}"
    using Access by (cases a; simp)+
  let ?x = "ms_go True sp a (pc_of s t) (the_queue s)" and ?y = "ms_go False sp a (pc_of s t) (the_queue u)"
  have "alike a (the_queue u) ?x ?y"
    using ms_go_alike [OF q] a by blast
  then consider (bad) b where "?x = Inl (BadDeref b)" | (same) e where "?x = Inl e" "?y = Inl e"
    | (go) k q' r' es where "?x = Inr (k, q', es)" "?y = Inr (k, r', es)" "sub_queue q' r'"
      "grows a (msq_heap (the_queue u)) (msq_heap r')"
    unfolding alike_def by blast
  then show ?thesis
  proof cases
    case go
    have "unused cs (u\<lparr>the_queue := r', pc_of := (pc_of u)(t := k)\<rparr>)"
      using un off go(4) unfolding unused_def grows_def by (simp del: offered.simps) blast
    then show ?thesis
      using go Access pc by (auto simp: sub_threads_def)
  qed (use Access pc in auto)
qed

lemma ms_exec_alike:
  assumes "sub_threads s u" "unused cs u"
  shows "alike_runs (ms_exec True cs s) (ms_exec False cs u)"
  using assms
proof (induction cs arbitrary: s u)
  case Nil
  then show ?case by (simp add: alike_runs_def)
next
  case (Cons c cs)
  from ms_next_alike [OF Cons.prems] show ?case
  proof (elim disjE exE conjE)
    fix s' u' es
    assume h: "ms_next True c s = Inr (s', es)" "ms_next False c u = Inr (u', es)"
      "sub_threads s' u'" "unused cs u'"
    show ?case using Cons.IH [OF h(3,4)] h(1,2) by (auto simp: alike_runs_def)
  qed (simp_all add: alike_runs_def)
qed

text \<open>What a run of the queue must be: one of the specification, with the same threads in a call.\<close>

definition fifo_run_of :: "('t, 'a) ms_threads \<times> ('t \<times> 'a ms_event) list \<Rightarrow> bool" where
  "fifo_run_of r \<longleftrightarrow>
     (case fifo_trace (snd r) fifo_init (\<lambda>_. Idle) of
        None \<Rightarrow> False
      | Some (f, st) \<Rightarrow> \<forall>t. st t = Idle \<longleftrightarrow> pc_of (fst r) t = Ready)"

lemma fifo_run_of_cong: "pc_of s = pc_of u \<Longrightarrow> fifo_run_of (u, es) \<Longrightarrow> fifo_run_of (s, es)"
  by (simp add: fifo_run_of_def split: option.splits prod.splits)

lemma not_idle [simp]:
  "\<not> push_ok g q Idle p1" "\<not> try_push_ok g q Idle p2" "\<not> pop_ok g q Idle p3"
  "\<not> try_pop_ok g q Idle p4" "\<not> empty_ok g Idle p5"
proof -
  show "\<not> push_ok g q Idle p1" by (cases p1) simp_all
  show "\<not> try_push_ok g q Idle p2" by (cases p2) simp_all
  show "\<not> pop_ok g q Idle p3" by (cases p3) simp_all
  show "\<not> try_pop_ok g q Idle p4" by (cases p4) simp_all
  show "\<not> empty_ok g Idle p5" by (cases p5) simp_all
qed

lemma pc_ok_idle: "pc_ok g q st p \<Longrightarrow> st = Idle \<longleftrightarrow> p = Ready"
  by (cases p) auto

lemma keeping_runs:
  assumes "alloc_ok alloc" "ms_new alloc dflt = Inr q"
  shows "ms_exec False cs (ms_threads_init q) = Inl BadAlloc \<or>
    (\<exists>r. ms_exec False cs (ms_threads_init q) = Inr r \<and> fifo_run_of r)"
  using ms_exec_inv [OF threads_inv_init [OF assms], of cs]
proof (elim disjE exE conjE)
  fix s es g f st
  assume h: "ms_exec False cs (ms_threads_init q) = Inr (s, es)"
    "fifo_trace es fifo_init (\<lambda>_. Idle) = Some (f, st)" "threads_inv g f st s"
  have "st t = Idle \<longleftrightarrow> pc_of s t = Ready" for t
    by (rule pc_ok_idle [of g "the_queue s"]) (use h(3) in \<open>simp add: threads_inv_def\<close>)
  then have "fifo_run_of (s, es)"
    using h(2) by (simp add: fifo_run_of_def)
  then show ?thesis using h(1) by blast
qed simp

section \<open>Properties\<close>

text \<open>A new queue, whose dummy node is at address 1.\<close>

definition fresh_queue :: "int msq" where
  "fresh_queue = \<lparr>msq_heap = [1 \<mapsto> \<lparr>node_value = 0, node_next = atp_default\<rparr>],
     m_head = atp_store atp_default (tp_pack 1 0), m_tail = atp_store atp_default (tp_pack 1 0)\<rparr>"

lemma fresh_queue_new: "ms_new (pool_alloc [1, 2, 3, 4]) 0 = Inr fresh_queue"
proof -
  have "tp_of_value 1 = Inr (tp_pack 1 0)"
    by (simp add: tp_of_value_Inr_iff)
  then show ?thesis
    by (simp add: ms_new_def new_node_def pool_alloc_def fresh_queue_def)
qed

text \<open>
  C2: With nodes that are never freed, every interleaving of any operations of any threads, under
  any pattern of spurious failures, is linearizable: the run ends only when the allocator throws,
  no step reads a node that is not there, and calls, linking of nodes, moves of the head,
  observations and returns are a run of the FIFO specification. In it a push appends at one step
  of its call; a pop takes the first element, at a step at which it is first, and returns the
  number of elements popped before; an answer that the queue is empty was true at one moment of the
  call, and comes with the number of elements pushed by then; a \<open>try_push\<close> or \<open>try_pop\<close>
  that succeeds does so when the number of pushes or pops is its argument.
\<close>

theorem ms_linearizable:
  assumes "alloc_ok alloc" "ms_new alloc dflt = Inr q"
  shows "case ms_exec False cs (ms_threads_init q) of Inl e \<Rightarrow> e = BadAlloc | Inr r \<Rightarrow> fifo_run_of r"
  using keeping_runs [OF assms, of cs] by auto

theorem ms_linearizable_witness:
  "case ms_exec False
      ([Call 1 (OpPush 7), Call 2 OpPop, Access 2 False None] @ replicate 6 (Access 1 False (Some 2)) @
       replicate 12 (Access (2 :: nat) False None)) (ms_threads_init fresh_queue)
   of Inl e \<Rightarrow> e = BadAlloc | Inr r \<Rightarrow> fifo_run_of r"
  by (rule ms_linearizable [OF alloc_ok_four fresh_queue_new])

text \<open>
  C5: The code frees nodes at once. As long as the allocator hands out no address twice, every
  interleaving either is linearizable as above, or ends with \<open>std::bad_alloc\<close>, or ends with an
  access to a freed node.
\<close>

theorem ms_linearizable_unless_freed:
  assumes "alloc_ok alloc" "ms_new alloc dflt = Inr q" "distinct (head_ptr q # offered cs)"
  shows "case ms_exec True cs (ms_threads_init q) of
      Inl e \<Rightarrow> e = BadAlloc \<or> (\<exists>a. e = BadDeref a) | Inr r \<Rightarrow> fifo_run_of r"
proof -
  let ?s = "ms_threads_init q"
  have "dom (msq_heap q) = {head_ptr q}"
    using assms(2)
    by (auto simp: ms_new_def new_node_def bindE_Inr_iff tp_of_value_Inr_iff head_ptr_def
        split: option.splits if_splits)
  then have "unused cs ?s"
    using assms(3) by (simp add: unused_def ms_threads_init_def)
  moreover have "sub_threads ?s ?s"
    by (simp add: sub_threads_def sub_queue_def)
  ultimately have "alike_runs (ms_exec True cs ?s) (ms_exec False cs ?s)"
    by (intro ms_exec_alike)
  then show ?thesis
    using keeping_runs [OF assms(1,2), of cs]
    by (auto simp: alike_runs_def sub_threads_def dest: fifo_run_of_cong)
qed

theorem ms_linearizable_unless_freed_witness:
  "case ms_exec True
      ([Call 1 (OpPush 7), Call 2 OpPop, Access 2 False None, Access 1 False (Some 2)] @
       replicate 5 (Access 1 False None) @ replicate 12 (Access (2 :: nat) False None))
      (ms_threads_init fresh_queue)
   of Inl e \<Rightarrow> e = BadAlloc \<or> (\<exists>a. e = BadDeref a) | Inr r \<Rightarrow> fifo_run_of r"
  by (rule ms_linearizable_unless_freed [OF alloc_ok_four fresh_queue_new])
    (simp add: fresh_queue_def head_ptr_def numeral_eq_Suc)

text \<open>A queue with one element, 7, whose tail does not lag.\<close>

definition one_element :: "(nat, int) ms_threads" where
  "one_element = ms_threads_init
     \<lparr>msq_heap = [1 \<mapsto> \<lparr>node_value = 0, node_next = atp_store atp_default (tp_pack 2 1)\<rparr>,
                 2 \<mapsto> \<lparr>node_value = 7, node_next = atp_default\<rparr>],
      m_head = atp_store atp_default (tp_pack 1 0), m_tail = atp_store atp_default (tp_pack 2 1)\<rparr>"


end
