(* ===== verification/MS_Progress.thy ===== *)
theory MS_Progress
  imports MS_Reclaim
begin

text \<open>
  Lock-freedom of the operations of \<^verbatim>\<open>include/ni/cds/ms_queue.hh\<close>: while no weak compare-exchange
  fails spuriously, some operation gets on after a bounded number of accesses, whichever threads
  they are of. A thread that reads stale values loses a bounded number of accesses, and values
  get stale only when another operation takes effect or the tail is helped on, which can happen
  only once for each push.
\<close>

section \<open>Steps that are progress\<close>

fun progress :: "'a ms_event \<Rightarrow> bool" where
  "progress EPush = True"
| "progress EPop = True"
| "progress (ERet r) = True"
| "progress e = False"

definition lagging :: "'a msq \<Rightarrow> bool" where
  "lagging q \<longleftrightarrow> (case msq_heap q (tail_ptr q) of None \<Rightarrow> False | Some n \<Rightarrow> next_of n \<noteq> nullptr)"

text \<open>What a thread has read is still so.\<close>

definition cur_tail :: "'a msq \<Rightarrow> tagged_ptr \<Rightarrow> bool" where
  "cur_tail q ot \<longleftrightarrow> atp_load (m_tail q) = ot"

definition cur_head :: "'a msq \<Rightarrow> tagged_ptr \<Rightarrow> bool" where
  "cur_head q oh \<longleftrightarrow> atp_load (m_head q) = oh"

definition cur_next :: "'a msq \<Rightarrow> tagged_ptr \<Rightarrow> tagged_ptr \<Rightarrow> bool" where
  "cur_next q p nx \<longleftrightarrow>
     (case msq_heap q (tp_value p) of None \<Rightarrow> False | Some n \<Rightarrow> atp_load (node_next n) = nx)"

lemmas cur_defs = cur_tail_def cur_head_def cur_next_def

text \<open>
  A bound on the accesses a thread makes before it returns, links a node, moves the head or the
  tail, if no other thread does so.
\<close>

fun rank :: "'a msq \<Rightarrow> 'a ms_pc \<Rightarrow> nat" where
  "rank q Ready = 0"
| "rank q (InPush (PushNew x)) = 4"
| "rank q (InPush (PushTail node)) = 3"
| "rank q (InPush (PushNext node ot)) = (if cur_tail q ot then 2 else 5)"
| "rank q (InPush (PushCheck node ot nx)) =
     (if \<not> cur_tail q ot then 4 else if tp_value nx = nullptr \<and> \<not> cur_next q ot nx then 5 else 1)"
| "rank q (InPush (PushLink node ot nx)) = (if cur_next q ot nx then 0 else 4)"
| "rank q (InPush (PushSwing node ot)) = 0"
| "rank q (InPush (PushHelp node ot nx)) = (if cur_tail q ot then 0 else 3)"
| "rank q (InTryPush (TryPushTail x s)) = 4"
| "rank q (InTryPush (TryPushNext x ot)) = 3"
| "rank q (InTryPush (TryPushNew x ot nx)) = 2"
| "rank q (InTryPush (TryPushLink node ot nx)) = 1"
| "rank q (InTryPush p) = 0"
| "rank q InTailState = 0"
| "rank q (InPop PopHead) = 5"
| "rank q (InPop (PopTail oh)) = (if cur_head q oh then 4 else 8)"
| "rank q (InPop (PopNext oh ot)) =
     (if \<not> cur_head q oh then 7 else if cur_tail q ot then 3 else 8)"
| "rank q (InPop (PopCheck oh ot nx)) =
     (if \<not> cur_head q oh then 6 else if tp_value oh = tp_value ot \<and> \<not> cur_tail q ot then 7 else 2)"
| "rank q (InPop (PopHelp ot nx)) = (if cur_tail q ot then 0 else 6)"
| "rank q (InPop (PopValue oh nx)) = (if cur_head q oh then 1 else 7)"
| "rank q (InPop (PopCas oh nx x)) = (if cur_head q oh then 0 else 6)"
| "rank q (InPop (PopFree oh x)) = 0"
| "rank q (InTryPop (TryPopHead s)) = 4"
| "rank q (InTryPop (TryPopTail s oh)) = 3"
| "rank q (InTryPop (TryPopNext s oh ot)) = 2"
| "rank q (InTryPop (TryPopValue oh nx)) = 1"
| "rank q (InTryPop p) = 0"
| "rank q (InEmpty EmptyHead) = 3"
| "rank q (InEmpty (EmptyTail oh)) = (if cur_head q oh then 2 else 6)"
| "rank q (InEmpty (EmptyNext oh ot)) = (if cur_head q oh then 1 else 5)"
| "rank q (InEmpty (EmptyCheck oh ot nx)) = (if cur_head q oh then 0 else 4)"

lemma rank_le: "rank q p \<le> 8"
  by (induction q p rule: rank.induct) auto

text \<open>A step that changes nothing that other threads read, except that it may add a node.\<close>

definition same_shape :: "'a msq \<Rightarrow> 'a msq \<Rightarrow> bool" where
  "same_shape q q' \<longleftrightarrow> m_head q' = m_head q \<and> m_tail q' = m_tail q \<and> msq_heap q \<subseteq>\<^sub>m msq_heap q'"

lemma same_shape_refl [simp]: "same_shape q q"
  by (simp add: same_shape_def)

lemma same_shape_cur:
  assumes "same_shape q q'"
  shows "cur_tail q' ot = cur_tail q ot" "cur_head q' oh = cur_head q oh"
  using assms by (simp_all add: same_shape_def cur_defs)

lemma same_shape_live:
  assumes "same_shape q q'" "msq_heap q b = Some n"
  shows "msq_heap q' b = Some n"
  using assms by (auto simp: same_shape_def map_le_def dom_def)

lemma same_shape_next:
  assumes "same_shape q q'" "rep g q f" "tail_snap g ot"
  shows "cur_next q' ot nx = cur_next q ot nx"
proof -
  obtain n where "msq_heap q (tp_value ot) = Some n" using tail_snap_live [OF assms(2,3)] .
  then show ?thesis using same_shape_live [OF assms(1)] by (simp add: cur_next_def)
qed

lemma rank_same_shape:
  assumes s: "same_shape q q'" and r: "rep g q f" and ok: "pc_ok g q st p"
  shows "rank q' p = rank q p"
proof -
  note c = same_shape_cur [OF s] same_shape_next [OF s r]
  show ?thesis
  proof (cases p)
    case (InPush u) with ok show ?thesis by (cases u) (auto simp: c)
  next
    case (InTryPush u) with ok show ?thesis by (cases u) (auto simp: c)
  next
    case (InPop u) with ok show ?thesis by (cases u) (auto simp: c)
  next
    case (InTryPop u) with ok show ?thesis by (cases u) (auto simp: c)
  next
    case (InEmpty u) with ok show ?thesis by (cases u) (auto simp: c)
  qed simp_all
qed

lemma lagging_iff:
  assumes "rep g q f"
  shows "lagging q \<longleftrightarrow> Suc (g_tail g) < length (g_nodes g)"
proof -
  note b = rep_bounds [OF assms]
  obtain n where n: "msq_heap q (tail_ptr q) = Some n" "next_of n = succ_of g (g_tail g)"
    using snap_at_node [OF assms b(5)] by (auto simp: tail_ptr_def)
  show ?thesis
    using n rep_addr [OF assms, of "Suc (g_tail g)"]
    by (auto simp: lagging_def succ_of_def node_addr_def)
qed

lemma lagging_same_shape:
  assumes "same_shape q q'" "rep g q f"
  shows "lagging q' = lagging q"
proof -
  obtain n where n: "msq_heap q (tail_ptr q) = Some n"
    using snap_at_node [OF assms(2) rep_bounds(5) [OF assms(2)]] by (auto simp: tail_ptr_def)
  moreover have "tail_ptr q' = tail_ptr q"
    using assms(1) by (simp add: same_shape_def tail_ptr_def)
  ultimately show ?thesis
    using same_shape_live [OF assms(1) n] by (simp add: lagging_def)
qed

text \<open>Moving the tail on ends the lag.\<close>

lemma swing_lagging:
  assumes r: "rep g q f" and sw: "swing g ot a" and c: "cur_tail q ot"
  shows "lagging q" "\<not> lagging (q\<lparr>m_tail := atp_store (m_tail q) (tp_pack a t)\<rparr>)"
proof -
  obtain j where j: "Suc j < length (g_nodes g)" "snap_at g j ot" "g_nodes g ! Suc j = a"
    using sw by (auto simp: swing_def)
  have t: "g_tail g = j"
    by (rule snap_at_inj [OF r rep_bounds(5) [OF r] j(2)]) (use c in \<open>simp add: cur_tail_def\<close>)
  show "lagging q" using lagging_iff [OF r] t j(1) by simp
  have "succ_of g (Suc j) = nullptr"
    using rep_bounds(3) [OF r] t by (simp add: succ_of_def)
  moreover obtain n where "msq_heap q a = Some n" "next_of n = succ_of g (Suc j)"
    using rep_trail [OF r] j(1,3) by (auto simp: trail_inv_def)
  moreover have "take_bit 48 a = a"
    using swing_addr [OF r sw] by (rule node_addr_simps)
  ultimately show "\<not> lagging (q\<lparr>m_tail := atp_store (m_tail q) (tp_pack a t)\<rparr>)"
    by (simp add: lagging_def tail_ptr_def)
qed

section \<open>One step\<close>

definition gets_on :: "'a msq \<Rightarrow> 'a ms_pc \<Rightarrow> ('a ms_pc \<times> 'a msq \<times> 'a ms_event list) result \<Rightarrow> bool" where
  "gets_on q p r \<longleftrightarrow>
     (case r of Inl e \<Rightarrow> True
      | Inr (k, q', es) \<Rightarrow> (\<exists>e \<in> set es. progress e) \<or>
          k \<noteq> Ready \<and> (lagging q \<and> \<not> lagging q' \<or> same_shape q q' \<and> rank q' k < rank q p))"

lemma gets_on_Inl [simp]: "gets_on q p (Inl e)"
  by (simp add: gets_on_def)

lemma gets_on_bind:
  assumes "\<And>x. m = Inr x \<Longrightarrow> gets_on q p (go_on w (f x))"
  shows "gets_on q p (go_on w (bindE m f))"
  using assms by (cases m) simp_all

lemma gets_on_same:
  "k \<noteq> Ready \<Longrightarrow> same_shape q q' \<Longrightarrow> rank q' k < rank q p \<Longrightarrow> gets_on q p (Inr (k, q', []))"
  "k \<noteq> Ready \<Longrightarrow> same_shape q q' \<Longrightarrow> rank q' k < rank q p \<Longrightarrow> gets_on q p (Inr (k, q', [ELook]))"
  by (simp_all add: gets_on_def)

lemma gets_on_event [simp]:
  "gets_on q p (Inr (k, q', [EPush]))" "gets_on q p (Inr (k, q', [EPop]))"
  "gets_on q p (Inr (k, q', [ERet v]))" "gets_on q p (Inr (k, q', [ELook, ERet v]))"
  by (simp_all add: gets_on_def)

text \<open>The compare-exchange on the tail: it moves the tail, or finds it moved.\<close>

lemma gets_on_help:
  assumes r: "rep g q f" and sw: "swing g ot a"
    and cas: "atp_cas_weak False (m_tail q) ot (tp_pack a (tp_tag ot + 1)) = (ok, cell, ot')"
    and k: "k \<noteq> Ready" "\<not> cur_tail q ot \<Longrightarrow> cur_tail q ot' \<Longrightarrow> rank q k < rank q p"
  shows "gets_on q p (Inr (k, q\<lparr>m_tail := cell\<rparr>, es))"
proof (cases "cur_tail q ot")
  case True
  then have "cell = atp_store (m_tail q) (tp_pack a (tp_tag ot + 1))"
    using cas by (auto simp: atp_cas_weak_eq cur_tail_def)
  then show ?thesis
    using swing_lagging [OF r sw True] k(1) by (simp add: gets_on_def)
next
  case False
  then have "cell = m_tail q" "cur_tail q ot'"
    using cas by (auto simp: atp_cas_weak_eq cur_tail_def split: if_splits)
  then show ?thesis
    using k False by (simp add: gets_on_def)
qed

lemma new_node_same_shape:
  assumes "new_node_at a x (msq_heap q) = Inr (node, h)"
  shows "same_shape q (q\<lparr>msq_heap := h\<rparr>)"
  using assms by (auto simp: new_node_at_def new_node_def checked_alloc_def same_shape_def map_le_def
      split: option.splits if_splits)

lemma cas_next_weak_fails:
  assumes "cas_next_weak False (tp_value ot) nx d (msq_heap q) = Inr (False, nx', h)"
  shows "h = msq_heap q \<and> \<not> cur_next q ot nx"
  using assms by (auto simp: cas_next_weak_def atp_cas_weak_eq cur_next_def split: option.splits if_splits)

lemma push_gets_on:
  assumes r: "rep g q f" and ok: "push_ok g q st p"
  shows "gets_on q (InPush p) (go_on InPush (push_go False a p q))"
proof (cases p)
  case (PushNew x)
  then show ?thesis
    by (auto intro!: gets_on_bind gets_on_same new_node_same_shape)
next
  case (PushNext node ot)
  then show ?thesis
    by (auto simp: load_next_def cur_next_def split: option.splits intro!: gets_on_bind gets_on_same)
next
  case (PushLink node ot nx)
  then show ?thesis
    by (auto dest!: cas_next_weak_fails intro!: gets_on_bind gets_on_same)
next
  case (PushSwing node ot)
  then show ?thesis
    by (auto intro!: gets_on_bind split: prod.split)
next
  case (PushHelp node ot nx)
  then have sw: "swing g ot (tp_value nx)" using ok by simp
  obtain w cell ot' where cas:
    "atp_cas_weak False (m_tail q) ot (tp_pack (tp_value nx) (tp_tag ot + 1)) = (w, cell, ot')"
    by (cases "atp_cas_weak False (m_tail q) ot (tp_pack (tp_value nx) (tp_tag ot + 1))") auto
  show ?thesis
    using PushHelp cas by (auto simp: swing_make [OF r sw] intro!: gets_on_help [OF r sw cas])
qed (auto simp: cur_tail_def intro!: gets_on_same)

lemma try_push_gets_on:
  "gets_on q (InTryPush p) (go_on InTryPush (try_push_go reclaim a p q))"
proof (cases p)
  case (TryPushTail x s)
  then show ?thesis by (auto simp: Let_def intro!: gets_on_same)
next
  case (TryPushNext x ot)
  then show ?thesis by (auto intro!: gets_on_bind gets_on_same)
next
  case (TryPushNew x ot nx)
  then show ?thesis by (auto intro!: gets_on_bind gets_on_same new_node_same_shape)
next
  case (TryPushLink node ot nx)
  then show ?thesis
    by (auto simp: cas_next_strong_weak dest!: cas_next_weak_fails intro!: gets_on_bind gets_on_same)
qed (auto intro!: gets_on_bind split: prod.split)

lemma pop_gets_on:
  assumes r: "rep g q f" and ok: "pop_ok g q st p"
  shows "gets_on q (InPop p) (go_on InPop (pop_go False False p q))"
proof (cases p)
  case (PopNext oh ot)
  then show ?thesis by (auto intro!: gets_on_bind gets_on_same)
next
  case (PopCheck oh ot nx)
  then show ?thesis by (auto simp: cur_head_def intro!: gets_on_same)
next
  case (PopHelp ot nx)
  then have sw: "swing g ot (tp_value nx)" using ok by simp
  obtain w cell ot' where cas:
    "atp_cas_weak False (m_tail q) ot (tp_pack (tp_value nx) (tp_tag ot + 1)) = (w, cell, ot')"
    by (cases "atp_cas_weak False (m_tail q) ot (tp_pack (tp_value nx) (tp_tag ot + 1))") auto
  show ?thesis
    using PopHelp cas by (auto simp: swing_make [OF r sw] intro!: gets_on_help [OF r sw cas])
next
  case (PopValue oh nx)
  then show ?thesis by (auto intro!: gets_on_bind gets_on_same)
next
  case (PopCas oh nx x)
  then show ?thesis
    by (auto simp: atp_cas_weak_eq cur_head_def intro!: gets_on_bind gets_on_same)
next
  case (PopFree oh x)
  then show ?thesis by (auto intro!: gets_on_bind)
qed (auto simp: cur_defs intro!: gets_on_same)

lemma try_pop_gets_on:
  assumes r: "rep g q f" and ok: "try_pop_ok g q st p"
  shows "gets_on q (InTryPop p) (go_on InTryPop (try_pop_go False p q))"
proof (cases p)
  case (TryPopNext s oh ot)
  then show ?thesis by (auto intro!: gets_on_bind gets_on_same)
next
  case (TryPopValue oh nx)
  then show ?thesis by (auto intro!: gets_on_bind gets_on_same)
next
  case (TryPopCas oh nx x)
  then show ?thesis
    by (auto simp: atp_cas_strong_eq intro!: gets_on_bind)
qed (auto intro!: gets_on_bind gets_on_same split: prod.split)

lemma empty_gets_on:
  "gets_on q (InEmpty p) (go_on InEmpty (empty_go p q))"
  by (cases p) (auto simp: cur_defs intro!: gets_on_bind gets_on_same)

lemma ms_go_gets_on:
  assumes "rep g q f" "pc_ok g q st p" "p \<noteq> Ready"
  shows "gets_on q p (ms_go False False a p q)"
  using assms push_gets_on try_push_gets_on pop_gets_on try_pop_gets_on empty_gets_on
  by (cases p) (auto simp: tail_state_go_def)

section \<open>Any number of threads\<close>

definition ranks :: "'t set \<Rightarrow> ('t, 'a) ms_threads \<Rightarrow> nat" where
  "ranks T s = (\<Sum>t \<in> T. rank (the_queue s) (pc_of s t))"

definition patience :: "'t set \<Rightarrow> ('t, 'a) ms_threads \<Rightarrow> nat" where
  "patience T s = (if lagging (the_queue s) then 8 * card T + 1 else 0) + ranks T s"

lemma ranks_le: "ranks T s \<le> 8 * card T"
  unfolding ranks_def
  using sum_bounded_above [of T "\<lambda>t. rank (the_queue s) (pc_of s t)" 8, OF rank_le]
  by (simp add: mult.commute)

lemma patience_step:
  assumes inv: "threads_inv g f st s" and T: "finite T" "t \<in> T" "\<forall>u \<in> T. pc_of s u \<noteq> Ready"
    and step: "ms_next False (Access t False a) s = Inr (s', es)"
    and quiet: "\<not> (\<exists>(u, e) \<in> set es. progress e)"
  shows "patience T s' < patience T s" "\<forall>u \<in> T. pc_of s' u \<noteq> Ready"
proof -
  let ?q = "the_queue s" and ?q' = "the_queue s'"
  have r: "rep g ?q f" and ok: "\<And>u. pc_ok g ?q (st u) (pc_of s u)"
    using inv by (auto simp: threads_inv_def)
  obtain k q' es0 where go: "ms_go False False a (pc_of s t) ?q = Inr (k, q', es0)"
    and s': "s' = s\<lparr>the_queue := q', pc_of := (pc_of s)(t := k)\<rparr>" "es = map (Pair t) es0"
    using step by (auto simp: bindE_Inr_iff)
  have "gets_on ?q (pc_of s t) (Inr (k, q', es0))"
    using ms_go_gets_on [OF r ok, of t a] T go by simp
  then have k: "k \<noteq> Ready"
    and on: "lagging ?q \<and> \<not> lagging q' \<or> same_shape ?q q' \<and> rank q' k < rank ?q (pc_of s t)"
    using quiet s'(2) by (auto simp: gets_on_def)
  show "\<forall>u \<in> T. pc_of s' u \<noteq> Ready"
    using T(3) k s' by simp
  show "patience T s' < patience T s"
    using on
  proof
    assume "lagging ?q \<and> \<not> lagging q'"
    then show ?thesis using ranks_le [of T s'] s' by (simp add: patience_def)
  next
    assume h: "same_shape ?q q' \<and> rank q' k < rank ?q (pc_of s t)"
    have same: "rank q' (pc_of s u) = rank ?q (pc_of s u)" for u
      by (rule rank_same_shape [OF _ r ok]) (rule conjunct1 [OF h])
    have less: "rank ?q' (pc_of s' t) < rank ?q (pc_of s t)"
      using h by (simp add: s'(1))
    have le: "rank ?q' (pc_of s' u) \<le> rank ?q (pc_of s u)" for u
      using less same [of u] by (cases "u = t") (simp_all add: s'(1))
    have "ranks T s' < ranks T s"
      unfolding ranks_def using T(1,2) le less by (intro sum_strict_mono_ex1 ballI bexI [of _ t])
    moreover have "lagging ?q' = lagging ?q"
      using lagging_same_shape [OF conjunct1 [OF h] r] by (simp add: s'(1))
    ultimately show ?thesis by (simp add: patience_def)
  qed
qed

lemma patience_run:
  assumes "threads_inv g f st s" "finite T" "\<forall>u \<in> T. pc_of s u \<noteq> Ready"
    and "\<forall>c \<in> set cs. \<exists>t \<in> T. \<exists>a. c = Access t False a"
    and "ms_exec False cs s = Inr (s', es)" "\<not> (\<exists>(u, e) \<in> set es. progress e)"
  shows "length cs \<le> patience T s"
  using assms
proof (induction cs arbitrary: g f st s es)
  case Nil
  then show ?case by simp
next
  case (Cons c cs)
  obtain t a where c: "t \<in> T" "c = Access t False a" using Cons.prems(4) by auto
  obtain s1 es1 es2 where h: "ms_next False c s = Inr (s1, es1)" "ms_exec False cs s1 = Inr (s', es2)"
    "es = es1 @ es2"
    using Cons.prems(5) by (auto simp: bindE_Inr_iff simp del: ms_next.simps)
  obtain g1 f1 st1 where inv: "threads_inv g1 f1 st1 s1"
    using ms_next_inv [OF Cons.prems(1), of c] h(1) by auto
  have q1: "\<not> (\<exists>(u, e) \<in> set es1. progress e)" and q2: "\<not> (\<exists>(u, e) \<in> set es2. progress e)"
    using Cons.prems(6) h(3) by auto
  note p = patience_step [OF Cons.prems(1,2) c(1) Cons.prems(3) h(1) [unfolded c(2)] q1]
  have "length cs \<le> patience T s1"
    using Cons.prems(4) by (intro Cons.IH [OF inv Cons.prems(2) p(2) _ h(2) q2]) simp
  then show ?case using p(1) by simp
qed

section \<open>Property\<close>



end
