(* ===== verification/MS_Protocol.thy ===== *)
theory MS_Protocol
  imports MS_Concurrent
begin

text \<open>
  The typing discipline of the threads of \<open>MS_Concurrent\<close>: a thread in a call runs the code of
  the operation it called, links a node only in a push and moves the head only in a pop, and
  returns a value of the operation's type. It holds for every memory, reclaimed or not.
\<close>

text \<open>The values an operation returns; \<open>push\<close> always returns true.\<close>

fun ret_fits :: "'a ms_op \<Rightarrow> 'a ms_ret \<Rightarrow> bool" where
  "ret_fits (OpPush x) r = (r = RBool True)"
| "ret_fits (OpTryPush x st) r = (case r of RBool _ \<Rightarrow> True | _ \<Rightarrow> False)"
| "ret_fits OpTailState r = (case r of RState _ \<Rightarrow> True | _ \<Rightarrow> False)"
| "ret_fits OpPop r = (case r of RPopped _ _ \<Rightarrow> True | RNone _ \<Rightarrow> True | _ \<Rightarrow> False)"
| "ret_fits (OpTryPop st) r = (case r of RTaken _ \<Rightarrow> True | RNone _ \<Rightarrow> True | RFailure \<Rightarrow> True | _ \<Rightarrow> False)"
| "ret_fits OpEmpty r = (case r of RBool _ \<Rightarrow> True | _ \<Rightarrow> False)"

text \<open>The code a call is in.\<close>

fun in_code :: "'a ms_op \<Rightarrow> 'a ms_pc \<Rightarrow> bool" where
  "in_code (OpPush x) p = (case p of InPush _ \<Rightarrow> True | _ \<Rightarrow> False)"
| "in_code (OpTryPush x st) p = (case p of InTryPush _ \<Rightarrow> True | _ \<Rightarrow> False)"
| "in_code OpTailState p = (p = InTailState)"
| "in_code OpPop p = (case p of InPop _ \<Rightarrow> True | _ \<Rightarrow> False)"
| "in_code (OpTryPop st) p = (case p of InTryPop _ \<Rightarrow> True | _ \<Rightarrow> False)"
| "in_code OpEmpty p = (case p of InEmpty _ \<Rightarrow> True | _ \<Rightarrow> False)"

definition at_code :: "'a ms_op option \<Rightarrow> 'a ms_pc \<Rightarrow> bool" where
  "at_code c p \<longleftrightarrow> (case c of None \<Rightarrow> p = Ready | Some op \<Rightarrow> in_code op p)"

text \<open>What an event does to the call a thread is in; \<open>None\<close> when it is out of place.\<close>

fun call_go :: "'a ms_event \<Rightarrow> 'a ms_op option \<Rightarrow> 'a ms_op option option" where
  "call_go (ECall op) None = Some (Some op)"
| "call_go (ERet r) (Some op) = (if ret_fits op r then Some None else None)"
| "call_go EPush (Some op) = (case op of OpPush _ \<Rightarrow> Some (Some op) | OpTryPush _ _ \<Rightarrow> Some (Some op) | _ \<Rightarrow> None)"
| "call_go EPop (Some op) = (case op of OpPop \<Rightarrow> Some (Some op) | OpTryPop _ \<Rightarrow> Some (Some op) | _ \<Rightarrow> None)"
| "call_go ELook (Some op) = Some (Some op)"
| "call_go _ _ = None"

fun call_run :: "'a ms_event list \<Rightarrow> 'a ms_op option \<Rightarrow> 'a ms_op option option" where
  "call_run [] c = Some c"
| "call_run (e # es) c = (case call_go e c of None \<Rightarrow> None | Some c \<Rightarrow> call_run es c)"

fun call_trace :: "('t \<times> 'a ms_event) list \<Rightarrow> ('t \<Rightarrow> 'a ms_op option) \<Rightarrow> ('t \<Rightarrow> 'a ms_op option) option" where
  "call_trace [] c = Some c"
| "call_trace ((t, e) # es) c =
     (case call_go e (c t) of None \<Rightarrow> None | Some d \<Rightarrow> call_trace es (c(t := d)))"

lemma call_trace_append:
  "call_trace (es @ es') c =
    (case call_trace es c of None \<Rightarrow> None | Some c' \<Rightarrow> call_trace es' c')"
  by (induction es arbitrary: c) (auto split: option.splits)

lemma call_trace_thread:
  "call_trace (map (Pair t) es) c =
    (case call_run es (c t) of None \<Rightarrow> None | Some d \<Rightarrow> Some (c(t := d)))"
  by (induction es arbitrary: c) (auto split: option.splits)

text \<open>A step of the code of an operation stays in it or returns a fitting value.\<close>

definition stays :: "'a ms_op \<Rightarrow> ('a ms_pc \<times> 'a msq \<times> 'a ms_event list) result \<Rightarrow> bool" where
  "stays op r \<longleftrightarrow> (case r of Inl _ \<Rightarrow> True | Inr (k, q, es) \<Rightarrow>
     (\<exists>d. call_run es (Some op) = Some d \<and> at_code d k))"

lemma stays_bind: "(\<And>x. stays op (go_on w (f x))) \<Longrightarrow> stays op (go_on w (bindE m f))"
  by (cases m) (simp_all add: go_on_def stays_def)

lemma stays_Inr: "stays op (go_on w (Inr (k, q, es))) \<longleftrightarrow>
    (case k of
       Inl p \<Rightarrow> (\<exists>d. call_run es (Some op) = Some d \<and> at_code d (w p))
     | Inr v \<Rightarrow> (\<exists>d. call_run (es @ [ERet v]) (Some op) = Some d \<and> at_code d Ready))"
  by (simp add: stays_def go_on_def split: sum.split)

lemmas stays_defs = stays_Inr at_code_def

lemma push_stays: "stays (OpPush x) (go_on InPush (push_go sp a p q))"
  by (cases p) (auto simp: stays_defs intro!: stays_bind split: prod.split)

lemma try_push_stays: "stays (OpTryPush x st) (go_on InTryPush (try_push_go reclaim a p q))"
  by (cases p) (auto simp: stays_defs Let_def intro!: stays_bind split: prod.split)

lemma pop_stays: "stays OpPop (go_on InPop (pop_go reclaim sp p q))"
  by (cases p) (auto simp: stays_defs intro!: stays_bind split: prod.split)

lemma try_pop_stays: "stays (OpTryPop st) (go_on InTryPop (try_pop_go reclaim p q))"
  by (cases p) (auto simp: stays_defs intro!: stays_bind split: prod.split)

lemma empty_stays: "stays OpEmpty (go_on InEmpty (empty_go p q))"
  by (cases p) (auto simp: stays_defs intro!: stays_bind split: prod.split)

lemma tail_state_stays: "stays OpTailState (go_on w (tail_state_go q))"
  by (simp add: stays_defs tail_state_go_def)

lemma ms_go_stays: "in_code op p \<Longrightarrow> stays op (ms_go reclaim sp a p q)"
  by (cases op; cases p)
    (simp_all add: push_stays try_push_stays pop_stays try_pop_stays empty_stays tail_state_stays)

lemma ms_go_at_code:
  assumes "at_code c p" "ms_go reclaim sp a p q = Inr (k, q', es)"
  shows "\<exists>d. call_run es c = Some d \<and> at_code d k"
proof (cases c)
  case None
  then show ?thesis using assms by (simp add: at_code_def)
next
  case (Some op)
  then have "stays op (Inr (k, q', es))"
    using assms ms_go_stays [of op p reclaim sp a q] by (simp add: at_code_def)
  then show ?thesis using Some by (simp add: stays_def)
qed

lemma ms_next_at_code:
  assumes at: "\<And>t. at_code (c t) (pc_of s t)" and step: "ms_next reclaim ch s = Inr (s', es)"
  shows "\<exists>d. call_trace es c = Some d \<and> (\<forall>t. at_code (d t) (pc_of s' t))"
proof (cases ch)
  case (Call t op)
  have enter: "at_code (Some op) (ms_begin op)" by (cases op) (simp_all add: at_code_def)
  have "c t = None" if "pc_of s t = Ready"
  proof (cases "c t")
    case (Some op')
    then show ?thesis using at [of t] that by (cases op') (simp_all add: at_code_def)
  qed simp
  then show ?thesis
    using Call step at enter by (cases "pc_of s t = Ready") auto
next
  case (Access t sp a)
  then obtain k q' es0 where go: "ms_go reclaim sp a (pc_of s t) (the_queue s) = Inr (k, q', es0)"
    and s': "s' = s\<lparr>the_queue := q', pc_of := (pc_of s)(t := k)\<rparr>" "es = map (Pair t) es0"
    using step by (auto simp: bindE_Inr_iff)
  obtain d where d: "call_run es0 (c t) = Some d" "at_code d k"
    using ms_go_at_code [OF at go] by blast
  then have "call_trace es c = Some (c(t := d)) \<and> (\<forall>u. at_code ((c(t := d)) u) (pc_of s' u))"
    using s' at by (simp add: call_trace_thread)
  then show ?thesis by (intro exI [of _ "c(t := d)"])
qed

lemma ms_exec_at_code:
  assumes "\<And>t. at_code (c t) (pc_of s t)" "ms_exec reclaim cs s = Inr (s', es)"
  shows "\<exists>d. call_trace es c = Some d \<and> (\<forall>t. at_code (d t) (pc_of s' t))"
  using assms
proof (induction cs arbitrary: c s es)
  case Nil
  then show ?case by auto
next
  case (Cons ch cs)
  obtain s1 es1 es2 where h: "ms_next reclaim ch s = Inr (s1, es1)"
    "ms_exec reclaim cs s1 = Inr (s', es2)" "es = es1 @ es2"
    using Cons.prems(2) by (auto simp: bindE_Inr_iff simp del: ms_next.simps)
  obtain c1 where c1: "call_trace es1 c = Some c1" "\<And>t. at_code (c1 t) (pc_of s1 t)"
    using ms_next_at_code [OF Cons.prems(1) h(1)] by blast
  then show ?case using Cons.IH [OF c1(2) h(2)] h(3) by (simp add: call_trace_append)
qed


end
