(* ===== verification/Linked_List.thy ===== *)
theory Linked_List
  imports Node_Heap Ring_Buffer
begin

text \<open>
  \<^verbatim>\<open>include/ni/cds/spsc_linked_list.hh\<close> (class \<open>SPSCLinkedList<T, Empty, Fill>\<close>): an
  unbounded queue as a linked list behind a dummy node, with a ring of removed nodes that
  \<open>push\<close> takes its nodes from. The calls run one after the other
  (\<open>List_Concurrent\<close> interleaves them). The list is a FIFO queue
  until a push takes a node from the ring: such a node keeps its old value and its old
  successor, as the last theorems show.
\<close>

section \<open>State and operations\<close>

record 'a lnode =
  ln_data :: 'a
  ln_next :: addr

record 'a llist =
  ll_heap :: "addr \<rightharpoonup> 'a lnode"
  ll_head :: addr
  ll_tail :: addr
  ll_cache :: "addr ring"

definition new_lnode :: "'a lnode alloc \<Rightarrow> 'a \<Rightarrow> (addr \<rightharpoonup> 'a lnode) \<Rightarrow> (addr \<times> (addr \<rightharpoonup> 'a lnode)) result" where
  "new_lnode alloc x h =
     (case alloc h of
        None \<Rightarrow> Inl BadAlloc
      | Some a \<Rightarrow> Inr (a, h(a \<mapsto> \<lparr>ln_data = x, ln_next = nullptr\<rparr>)))"

definition read_next :: "(addr \<rightharpoonup> 'a lnode) \<Rightarrow> addr \<Rightarrow> addr result" where
  "read_next h a = (case h a of None \<Rightarrow> Inl (BadDeref a) | Some n \<Rightarrow> Inr (ln_next n))"

definition read_data :: "(addr \<rightharpoonup> 'a lnode) \<Rightarrow> addr \<Rightarrow> 'a result" where
  "read_data h a = (case h a of None \<Rightarrow> Inl (BadDeref a) | Some n \<Rightarrow> Inr (ln_data n))"

definition write_next :: "(addr \<rightharpoonup> 'a lnode) \<Rightarrow> addr \<Rightarrow> addr \<Rightarrow> (addr \<rightharpoonup> 'a lnode) result" where
  "write_next h a b =
     (case h a of None \<Rightarrow> Inl (BadDeref a) | Some n \<Rightarrow> Inr (h(a \<mapsto> n\<lparr>ln_next := b\<rparr>)))"

text \<open>The loop of the constructor, with the number of iterations left.\<close>

fun ll_fill :: "nat \<Rightarrow> 'a lnode alloc \<Rightarrow> 'a \<Rightarrow> 'a llist \<Rightarrow> 'a llist result" where
  "ll_fill 0 alloc dflt l = Inr l"
| "ll_fill (Suc i) alloc dflt l =
     bindE (new_lnode alloc dflt (ll_heap l)) (\<lambda>(n, h).
     let (_, cache) = ring_push nullptr n (ll_cache l)
     in ll_fill i alloc dflt (l\<lparr>ll_heap := h, ll_cache := cache\<rparr>))"

definition ll_new :: "int \<Rightarrow> u64 \<Rightarrow> bool \<Rightarrow> 'a lnode alloc \<Rightarrow> 'a \<Rightarrow> 'a llist result" where
  "ll_new rc cache_size fill_cache alloc dflt =
     bindE (ptr_ring_new rc cache_size) (\<lambda>cache.
     bindE (new_lnode alloc dflt (\<lambda>_. None)) (\<lambda>(n, h).
     let l = \<lparr>ll_heap = h, ll_head = n, ll_tail = n, ll_cache = cache\<rparr> in
     if fill_cache then ll_fill (unat cache_size) alloc dflt l else Inr l))"

fun ll_drop_cache ::
  "nat \<Rightarrow> addr ring \<Rightarrow> (addr \<rightharpoonup> 'a lnode) \<Rightarrow> (addr ring \<times> (addr \<rightharpoonup> 'a lnode)) result" where
  "ll_drop_cache 0 cache h = Inl OutOfFuel"
| "ll_drop_cache (Suc fuel) cache h =
     (let (p, cache') = ring_pop nullptr cache in
      if p \<noteq> nullptr then bindE (delete_node p h) (\<lambda>h'. ll_drop_cache fuel cache' h')
      else Inr (cache', h))"

fun ll_drop_list ::
  "nat \<Rightarrow> addr \<Rightarrow> addr \<Rightarrow> (addr \<rightharpoonup> 'a lnode) \<Rightarrow> (addr \<times> (addr \<rightharpoonup> 'a lnode)) result" where
  "ll_drop_list 0 head tail h = Inl OutOfFuel"
| "ll_drop_list (Suc fuel) head tail h =
     (if head \<noteq> tail then
        bindE (read_next h head) (\<lambda>next.
        bindE (delete_node head h) (\<lambda>h'. ll_drop_list fuel next tail h'))
      else Inr (head, h))"

definition ll_delete :: "nat \<Rightarrow> 'a llist \<Rightarrow> (addr \<rightharpoonup> 'a lnode) result" where
  "ll_delete fuel l =
     bindE (ll_drop_cache fuel (ll_cache l) (ll_heap l)) (\<lambda>(_, h).
     bindE (ll_drop_list fuel (ll_head l) (ll_tail l) h) (\<lambda>(head, h').
     if head \<noteq> nullptr then delete_node head h' else Inr h'))"

definition ll_push :: "'a lnode alloc \<Rightarrow> 'a \<Rightarrow> 'a llist \<Rightarrow> 'a llist result" where
  "ll_push alloc element l =
     (let (n, cache) = ring_pop nullptr (ll_cache l) in
      bindE (if n = nullptr then new_lnode alloc element (ll_heap l) else Inr (n, ll_heap l))
        (\<lambda>(n, h).
      bindE (write_next h (ll_tail l) n) (\<lambda>h'.
      Inr (l\<lparr>ll_heap := h', ll_tail := n, ll_cache := cache\<rparr>))))"

definition ll_pop :: "'a \<Rightarrow> 'a llist \<Rightarrow> ('a \<times> 'a llist) result" where
  "ll_pop emp l =
     bindE (read_next (ll_heap l) (ll_head l)) (\<lambda>next.
     if next = nullptr then Inr (emp, l)
     else
       bindE (read_data (ll_heap l) next) (\<lambda>element.
       let n = ll_head l; (kept, cache) = ring_push nullptr n (ll_cache l) in
       bindE (if kept then Inr (ll_heap l) else delete_node n (ll_heap l)) (\<lambda>h.
       Inr (element, l\<lparr>ll_heap := h, ll_head := next, ll_cache := cache\<rparr>))))"

section \<open>Representation\<close>

text \<open>
  \<open>ll_rep l xs cs\<close>: the nodes behind the dummy hold \<open>xs\<close>, the ring holds the removed nodes
  \<open>cs\<close>, and the live nodes are these.
\<close>

definition ll_rep :: "'a llist \<Rightarrow> 'a list \<Rightarrow> addr list \<Rightarrow> bool" where
  "ll_rep l xs cs \<longleftrightarrow> (\<exists>bs. xs = map snd bs \<and> chain ln_next ln_data (ll_heap l) (ll_head l) bs \<and>
     ll_tail l = last (nodes (ll_head l) bs) \<and>
     distinct (nodes (ll_head l) bs @ cs) \<and> nullptr \<notin> set (nodes (ll_head l) bs @ cs) \<and>
     ring_rep nullptr (ll_cache l) cs \<and> dom (ll_heap l) = set (nodes (ll_head l) bs @ cs))"

lemma heap_access_simps [simp]:
  "h a = Some n \<Longrightarrow> read_next h a = Inr (ln_next n)"
  "h a = Some n \<Longrightarrow> read_data h a = Inr (ln_data n)"
  "h a = Some n \<Longrightarrow> write_next h a b = Inr (h(a \<mapsto> n\<lparr>ln_next := b\<rparr>))"
  "h a = Some n \<Longrightarrow> delete_node a h = Inr (h(a := None))"
  by (simp_all add: read_next_def read_data_def write_next_def delete_node_def)

lemma alloc_okD: "alloc_ok alloc \<Longrightarrow> alloc h = Some a \<Longrightarrow> h a = None \<and> a \<noteq> nullptr"
  by (auto simp: alloc_ok_def)

lemma ll_new_rep:
  assumes "alloc_ok alloc" "ll_new rc sz False alloc dflt = Inr l"
  shows "ll_rep l [] [] \<and> ring_capacity (ll_cache l) = unat sz"
proof -
  obtain cache a where c: "ptr_ring_new rc sz = Inr cache" "alloc (\<lambda>_. None) = Some a"
    "l = \<lparr>ll_heap = [a \<mapsto> \<lparr>ln_data = dflt, ln_next = nullptr\<rparr>], ll_head = a, ll_tail = a, ll_cache = cache\<rparr>"
    using assms(2) by (auto simp: ll_new_def bindE_Inr_iff new_lnode_def Let_def split: option.splits)
  then show ?thesis
    using alloc_okD [OF assms(1) c(2)] ptr_ring_new_rep [OF c(1)]
    by (auto simp: ll_rep_def ring_capacity_def)
qed

lemma ll_push_fresh:
  assumes rep: "ll_rep l xs []" and a: "alloc_ok alloc" "alloc (ll_heap l) = Some a"
  shows "\<exists>l'. ll_push alloc x l = Inr l' \<and> ll_rep l' (xs @ [x]) [] \<and>
    ring_capacity (ll_cache l') = ring_capacity (ll_cache l) \<and> card (dom (ll_heap l')) = Suc (card (dom (ll_heap l)))"
proof -
  obtain bs where bs: "xs = map snd bs" "chain ln_next ln_data (ll_heap l) (ll_head l) bs"
    "ll_tail l = last (nodes (ll_head l) bs)" "distinct (nodes (ll_head l) bs)"
    "nullptr \<notin> set (nodes (ll_head l) bs)" "ring_rep nullptr (ll_cache l) []"
    "dom (ll_heap l) = set (nodes (ll_head l) bs)"
    using rep by (auto simp: ll_rep_def)
  let ?m = "\<lparr>ln_data = x, ln_next = nullptr\<rparr>"
  let ?h = "(ll_heap l)(a \<mapsto> ?m)"
  have fresh: "ll_heap l a = None" "a \<noteq> nullptr" using alloc_okD [OF a] by simp_all
  then have nin: "a \<notin> set (nodes (ll_head l) bs)" using bs(7) by auto
  obtain n where n: "ll_heap l (ll_tail l) = Some n" using chain_last [OF bs(2)] bs(3) by auto
  then have n': "?h (last (nodes (ll_head l) bs)) = Some n" using fresh bs(3) by auto
  let ?l' = "l\<lparr>ll_heap := ?h(ll_tail l \<mapsto> n\<lparr>ln_next := a\<rparr>), ll_tail := a\<rparr>"
  have "chain ln_next ln_data (?h(last (nodes (ll_head l) bs) \<mapsto> n\<lparr>ln_next := a\<rparr>)) (ll_head l) (bs @ [(a, x)])"
    using bs(2,4) nin n' by (intro chain_append [where m = ?m]) simp_all
  moreover have "ll_tail l \<in> dom (ll_heap l)" using n by (rule domI)
  then have dom: "dom (ll_heap ?l') = insert a (dom (ll_heap l))" by auto
  ultimately have "ll_rep ?l' (xs @ [x]) []"
    unfolding ll_rep_def using bs nin fresh
    by (intro exI [of _ "bs @ [(a, x)]"] conjI) simp_all
  moreover have "ll_push alloc x l = Inr ?l'"
    using n' bs(3) a(2) ring.pop_nil [OF bs(6)] by (simp add: ll_push_def new_lnode_def)
  moreover have "finite (dom (ll_heap l))" using bs(7) by simp
  then have "card (dom (ll_heap ?l')) = Suc (card (dom (ll_heap l)))"
    unfolding dom using fresh(1) by (intro card_insert_disjoint) (simp_all add: domIff)
  ultimately show ?thesis by auto
qed

lemma ll_pop_nil: "ll_rep l [] cs \<Longrightarrow> ll_pop emp l = Inr (emp, l)"
  by (auto simp: ll_rep_def ll_pop_def split: option.splits)

lemma ll_pop_cons:
  assumes rep: "ll_rep l (x # xs) cs"
  shows "\<exists>l'. ll_pop emp l = Inr (x, l') \<and>
    ll_rep l' xs (if length cs < ring_capacity (ll_cache l) then cs @ [ll_head l] else cs) \<and>
    ring_capacity (ll_cache l') = ring_capacity (ll_cache l)"
proof -
  obtain bs0 where bs0: "x # xs = map snd bs0"
    "chain ln_next ln_data (ll_heap l) (ll_head l) bs0" "ll_tail l = last (nodes (ll_head l) bs0)"
    "distinct (nodes (ll_head l) bs0 @ cs)" "nullptr \<notin> set (nodes (ll_head l) bs0 @ cs)"
    "ring_rep nullptr (ll_cache l) cs" "dom (ll_heap l) = set (nodes (ll_head l) bs0 @ cs)"
    using rep unfolding ll_rep_def by (elim exE conjE) (rule that; assumption)
  from bs0(1) obtain b bs where b0: "bs0 = (b, x) # bs" by (cases bs0) auto
  have bs: "xs = map snd bs"
    and chain: "chain ln_next ln_data (ll_heap l) (ll_head l) ((b, x) # bs)"
    and tail: "ll_tail l = last (nodes b bs)"
    and dist: "distinct (nodes (ll_head l) ((b, x) # bs) @ cs)"
    and nn: "nullptr \<notin> set (nodes (ll_head l) ((b, x) # bs) @ cs)"
    and ring: "ring_rep nullptr (ll_cache l) cs"
    and dom: "dom (ll_heap l) = set (nodes (ll_head l) ((b, x) # bs) @ cs)"
    using bs0 unfolding b0 by simp_all
  obtain n m where n: "ll_heap l (ll_head l) = Some n" "ln_next n = b"
    "ll_heap l b = Some m" "ln_data m = x"
    using chain by (auto split: option.splits)
  have b: "b \<noteq> nullptr" "ll_head l \<noteq> nullptr" using nn by (auto simp: nodes_def)
  show ?thesis
  proof (cases "length cs < ring_capacity (ll_cache l)")
    case True
    then obtain r where r: "ring_push nullptr (ll_head l) (ll_cache l) = (True, r)"
      "ring_rep nullptr r (cs @ [ll_head l])" "ring_capacity r = ring_capacity (ll_cache l)"
      using ring.push_space [OF ring b(2)] by blast
    let ?l' = "l\<lparr>ll_head := b, ll_cache := r\<rparr>"
    have "ll_rep ?l' xs (cs @ [ll_head l])"
      unfolding ll_rep_def using bs chain tail dist nn r dom
      by (intro exI [of _ bs]) (auto simp: nodes_def)
    moreover have "ll_pop emp l = Inr (x, ?l')"
      using n b r by (simp add: ll_pop_def)
    ultimately show ?thesis using True r by auto
  next
    case False
    then have "length cs = ring_capacity (ll_cache l)"
      using ring.rep_bounded [OF ring] by simp
    then have r: "ring_push nullptr (ll_head l) (ll_cache l) = (False, ll_cache l)"
      using ring.push_full [OF ring] by blast
    let ?l' = "l\<lparr>ll_heap := (ll_heap l)(ll_head l := None), ll_head := b\<rparr>"
    have "ll_head l \<notin> set (nodes b bs)" using dist by simp
    then have "chain ln_next ln_data (ll_heap ?l') b bs" using chain by simp
    then have "ll_rep ?l' xs cs"
      unfolding ll_rep_def using bs tail dist nn ring dom
      by (intro exI [of _ bs]) (auto simp: nodes_def)
    moreover have "ll_pop emp l = Inr (x, ?l')"
      using n b r by (simp add: ll_pop_def)
    ultimately show ?thesis using False by auto
  qed
qed

section \<open>Destruction\<close>

lemma ll_drop_cache_rep:
  assumes "ring_rep nullptr c cs" "set cs \<subseteq> dom h" "distinct cs" "length cs < fuel"
  shows "\<exists>c'. ll_drop_cache fuel c h = Inr (c', h |` (- set cs))"
  using assms
proof (induction cs arbitrary: c h fuel)
  case Nil
  then obtain f where "fuel = Suc f" by (cases fuel) auto
  then show ?case using ring.pop_nil [OF Nil(1)] by (simp add: Let_def)
next
  case (Cons p cs)
  obtain f where f: "fuel = Suc f" "length cs < f" using Cons.prems(4) by (cases fuel) auto
  obtain c1 where c1: "ring_pop nullptr c = (p, c1)" "ring_rep nullptr c1 cs"
    using ring.pop_cons [OF Cons.prems(1)] by blast
  have p: "p \<noteq> nullptr" using ring.rep_bounded [OF Cons.prems(1)] by auto
  obtain n where n: "h p = Some n" using Cons.prems(2) by auto
  have "\<exists>c'. ll_drop_cache f c1 (h(p := None)) = Inr (c', (h(p := None)) |` (- set cs))"
    using Cons.prems c1 f by (intro Cons.IH) auto
  moreover have "(h(p := None)) |` (- set cs) = h |` (- set (p # cs))"
    by (auto simp: restrict_map_def fun_eq_iff)
  ultimately show ?case using f c1 p n by simp
qed

lemma ll_drop_list_chain:
  assumes "chain ln_next ln_data h a bs" "distinct (nodes a bs)" "length bs < fuel"
  shows "ll_drop_list fuel a (last (nodes a bs)) h =
    Inr (last (nodes a bs), h |` (- set (butlast (nodes a bs))))"
  using assms
proof (induction bs arbitrary: a h fuel)
  case Nil
  then obtain f where "fuel = Suc f" by (cases fuel) auto
  then show ?case by simp
next
  case (Cons bx bs)
  obtain b x where bx: "bx = (b, x)" by (cases bx)
  obtain f where f: "fuel = Suc f" "length bs < f" using Cons.prems(3) by (cases fuel) auto
  obtain n where n: "h a = Some n" "ln_next n = b"
    using Cons.prems(1) bx by (auto split: option.splits)
  have a: "a \<notin> set (nodes b bs)" using Cons.prems(2) bx by simp
  have "last (nodes b bs) \<in> set (nodes b bs)" by (rule last_in_set) simp
  then have ne: "a \<noteq> last (nodes b bs)" using a by metis
  have "chain ln_next ln_data (h(a := None)) b bs"
    unfolding chain_upd [OF a] using Cons.prems(1) bx by simp
  then have "ll_drop_list f b (last (nodes b bs)) (h(a := None)) =
      Inr (last (nodes b bs), (h(a := None)) |` (- set (butlast (nodes b bs))))"
    using Cons.prems(2) bx f by (intro Cons.IH) (assumption | simp)+
  moreover have "(h(a := None)) |` (- set (butlast (nodes b bs))) =
      h |` (- set (butlast (nodes a (bx # bs))))"
    by (auto simp: restrict_map_def bx fun_eq_iff)
  ultimately show ?case using f n ne bx by simp
qed

lemma ll_delete_rep:
  assumes rep: "ll_rep l xs cs" and fuel: "length xs < fuel" "length cs < fuel"
  shows "ll_delete fuel l = Inr Map.empty"
proof -
  obtain bs where bs: "xs = map snd bs"
    "chain ln_next ln_data (ll_heap l) (ll_head l) bs" "ll_tail l = last (nodes (ll_head l) bs)"
    "distinct (nodes (ll_head l) bs @ cs)" "nullptr \<notin> set (nodes (ll_head l) bs @ cs)"
    "ring_rep nullptr (ll_cache l) cs" "dom (ll_heap l) = set (nodes (ll_head l) bs @ cs)"
    using rep unfolding ll_rep_def by (elim exE conjE) (rule that; assumption)
  let ?ns = "nodes (ll_head l) bs"
  let ?h = "ll_heap l |` (- set cs)"
  obtain c' where c': "ll_drop_cache fuel (ll_cache l) (ll_heap l) = Inr (c', ?h)"
    using ll_drop_cache_rep [OF bs(6) _ _ fuel(2), of "ll_heap l"] bs(4,7) by auto
  have "chain ln_next ln_data ?h (ll_head l) bs"
    using bs(2,4) by (subst chain_cong [where h' = "ll_heap l"]) (auto simp: restrict_map_def)
  then have drop: "ll_drop_list fuel (ll_head l) (ll_tail l) ?h =
      Inr (last ?ns, ?h |` (- set (butlast ?ns)))"
    unfolding bs(3) using bs(1,4) fuel(1) by (intro ll_drop_list_chain) simp_all
  have ns: "set ?ns = insert (last ?ns) (set (butlast ?ns))"
    by (metis append_butlast_last_id insert_is_Un list.simps(15) nodes_simps(4) rotate1.simps(2) set_rotate1)
  have last: "last ?ns \<in> set ?ns" by (rule last_in_set) simp
  have "distinct ?ns" using bs(4) by simp
  then have nb: "last ?ns \<notin> set (butlast ?ns)"
    by (metis append_butlast_last_id distinct_butlast not_distinct_conv_prefix nodes_simps(4) butlast_snoc)
  have "last ?ns \<notin> set cs" "last ?ns \<noteq> nullptr"
    using bs(4,5) last by (metis IntI distinct_append empty_iff, metis UnI1 set_append)
  moreover obtain n where "ll_heap l (last ?ns) = Some n" using bs(7) last by (metis UnI1 domD set_append)
  moreover have "((?h |` (- set (butlast ?ns)))(last ?ns := None)) = Map.empty"
    using bs(7) ns by (auto simp: restrict_map_def fun_eq_iff domIff)
  ultimately show ?thesis
    using c' drop nb by (simp add: ll_delete_def)
qed

section \<open>Sequences of calls\<close>

fun ll_run ::
  "'a lnode alloc \<Rightarrow> 'a \<Rightarrow> 'a queue_op list \<Rightarrow> 'a llist \<Rightarrow> ('a queue_obs list \<times> 'a llist) result" where
  "ll_run alloc emp [] l = Inr ([], l)"
| "ll_run alloc emp (Push x # ops) l =
     bindE (ll_push alloc x l) (\<lambda>l'.
     bindE (ll_run alloc emp ops l') (\<lambda>(obs, l''). Inr (Pushed True # obs, l'')))"
| "ll_run alloc emp (Pop # ops) l =
     bindE (ll_pop emp l) (\<lambda>(x, l').
     bindE (ll_run alloc emp ops l') (\<lambda>(obs, l''). Inr (Popped x # obs, l'')))"

lemma ll_run_append:
  "ll_run alloc emp (ops @ ops') l =
     bindE (ll_run alloc emp ops l) (\<lambda>(obs, l').
     bindE (ll_run alloc emp ops' l') (\<lambda>(obs', l''). Inr (obs @ obs', l'')))"
proof (induction alloc emp ops l rule: ll_run.induct)
  case (1 alloc emp l)
  show ?case by (cases "ll_run alloc emp ops' l") auto
next
  case (2 alloc emp x ops l)
  then show ?case by (cases "ll_push alloc x l") (auto simp: bindE_def split: sum.splits)
next
  case (3 alloc emp ops l)
  then show ?case by (cases "ll_pop emp l") (auto simp: bindE_def split: sum.splits)
qed

lemma ll_run_pushes:
  assumes "ll_rep l ys []" "alloc_room n alloc" "card (dom (ll_heap l)) + length xs \<le> n"
  shows "\<exists>l'. ll_run alloc emp (map Push xs) l = Inr (map (\<lambda>_. Pushed True) xs, l') \<and>
    ll_rep l' (ys @ xs) [] \<and> ring_capacity (ll_cache l') = ring_capacity (ll_cache l)"
  using assms
proof (induction xs arbitrary: l ys)
  case Nil
  then show ?case by simp
next
  case (Cons x xs)
  have ok: "alloc_ok alloc" using Cons.prems(2) by (simp add: alloc_room_def)
  have "finite (dom (ll_heap l))" using Cons.prems(1) by (auto simp: ll_rep_def)
  then obtain a where "alloc (ll_heap l) = Some a"
    using Cons.prems(2,3) unfolding alloc_room_def by fastforce
  then obtain l1 where l1: "ll_push alloc x l = Inr l1" "ll_rep l1 (ys @ [x]) []"
    "ring_capacity (ll_cache l1) = ring_capacity (ll_cache l)"
    "card (dom (ll_heap l1)) = Suc (card (dom (ll_heap l)))"
    using ll_push_fresh [OF Cons.prems(1) ok] by blast
  have "card (dom (ll_heap l1)) + length xs \<le> n" using l1(4) Cons.prems(3) by simp
  from Cons.IH [OF l1(2) Cons.prems(2) this] show ?case using l1 by auto
qed

lemma ll_run_pops:
  assumes "ll_rep l xs cs" "length xs \<le> n"
  shows "\<exists>l' cs'. ll_run alloc emp (replicate k Pop) l =
      Inr (fst (queue_spec n emp (replicate k Pop) xs), l') \<and> ll_rep l' (drop k xs) cs' \<and>
    ring_capacity (ll_cache l') = ring_capacity (ll_cache l)"
  using assms
proof (induction k arbitrary: l xs cs)
  case 0
  then show ?case by auto
next
  case (Suc k)
  show ?case
  proof (cases xs)
    case Nil
    from Suc.IH [OF Suc.prems] show ?thesis
      using ll_pop_nil [of l cs emp] Suc.prems(1) unfolding Nil by (auto simp: split_def Let_def)
  next
    case (Cons x ys)
    obtain l1 cs1 where l1: "ll_pop emp l = Inr (x, l1)" "ll_rep l1 ys cs1"
      "ring_capacity (ll_cache l1) = ring_capacity (ll_cache l)"
      using ll_pop_cons [OF Suc.prems(1) [unfolded Cons]] by blast
    have "length ys \<le> n" using Suc.prems(2) Cons by simp
    from Suc.IH [OF l1(2) this] show ?thesis
      using l1(1,3) Cons by (auto simp: split_def Let_def)
  qed
qed

text \<open>A push that takes a node from the ring.\<close>

lemma ll_push_reused:
  assumes rep: "ll_rep l xs (c # cs)"
  obtains m n r where "ll_heap l c = Some m" "c \<noteq> ll_tail l" "ll_heap l (ll_tail l) = Some n"
    "ring_rep nullptr r cs" "ring_capacity r = ring_capacity (ll_cache l)"
    "\<And>alloc x. ll_push alloc x l = Inr (l\<lparr>ll_heap := (ll_heap l)(ll_tail l \<mapsto> n\<lparr>ln_next := c\<rparr>),
      ll_tail := c, ll_cache := r\<rparr>)"
proof -
  obtain bs where bs: "xs = map snd bs"
    "chain ln_next ln_data (ll_heap l) (ll_head l) bs" "ll_tail l = last (nodes (ll_head l) bs)"
    "distinct (nodes (ll_head l) bs @ c # cs)" "nullptr \<notin> set (nodes (ll_head l) bs @ c # cs)"
    "ring_rep nullptr (ll_cache l) (c # cs)"
    "dom (ll_heap l) = set (nodes (ll_head l) bs @ c # cs)"
    using rep unfolding ll_rep_def by (elim exE conjE) (rule that; assumption)
  obtain r where r: "ring_pop nullptr (ll_cache l) = (c, r)" "ring_rep nullptr r cs"
    "ring_capacity r = ring_capacity (ll_cache l)"
    using ring.pop_cons [OF bs(6)] by blast
  obtain m where m: "ll_heap l c = Some m" using bs(7) by (metis domD in_set_conv_decomp)
  obtain n where n: "ll_heap l (ll_tail l) = Some n" using chain_last [OF bs(2)] bs(3) by metis
  have "last (nodes (ll_head l) bs) \<in> set (nodes (ll_head l) bs)" by (rule last_in_set) simp
  then have "c \<noteq> ll_tail l" using bs(3,4) by (metis disjoint_iff distinct_append list.set_intros(1))
  moreover have "c \<noteq> nullptr" using bs(5) by auto
  then have "ll_push alloc x l = Inr (l\<lparr>ll_heap := (ll_heap l)(ll_tail l \<mapsto> n\<lparr>ln_next := c\<rparr>),
      ll_tail := c, ll_cache := r\<rparr>)" for alloc x
    using r n by (simp add: ll_push_def)
  ultimately show ?thesis using that m n r by blast
qed

section \<open>Properties\<close>

text \<open>
  A list fresh from the constructor (with an empty ring of nodes) is a FIFO queue as long as
  no push follows a pop: after any pushes, any number of pops delivers the elements in order and
  then \<open>Empty\<close>, with no access to a freed node; the destructor then frees every node, within
  as many iterations as there were calls.
\<close>

lemma ll_fifo_before_reuse:
  assumes "alloc_room (Suc (length xs)) alloc" "ll_new rc sz False alloc dflt = Inr l"
  shows "\<exists>l'. ll_run alloc emp (map Push xs @ replicate k Pop) l =
      Inr (fst (queue_spec (length xs) emp (map Push xs @ replicate k Pop) []), l') \<and>
    ll_delete (Suc (length xs + unat sz)) l' = Inr Map.empty"
proof -
  have ok: "alloc_ok alloc" using assms(1) by (simp add: alloc_room_def)
  have new: "ll_rep l [] []" "ring_capacity (ll_cache l) = unat sz"
    using ll_new_rep [OF ok assms(2)] by simp_all
  have card: "card (dom (ll_heap l)) = 1" using new(1) by (auto simp: ll_rep_def)
  obtain l1 where l1: "ll_run alloc emp (map Push xs) l = Inr (map (\<lambda>_. Pushed True) xs, l1)"
    "ll_rep l1 xs []" "ring_capacity (ll_cache l1) = unat sz"
    using ll_run_pushes [OF new(1) assms(1), of xs emp] new(2) card by auto
  obtain l2 cs where l2: "ll_run alloc emp (replicate k Pop) l1 =
      Inr (fst (queue_spec (length xs) emp (replicate k Pop) xs), l2)" "ll_rep l2 (drop k xs) cs"
    "ring_capacity (ll_cache l2) = unat sz"
    using ll_run_pops [OF l1(2) order_refl, unfolded l1(3)] by blast
  have run: "ll_run alloc emp (map Push xs @ replicate k Pop) l =
      Inr (fst (queue_spec (length xs) emp (map Push xs @ replicate k Pop) []), l2)"
    using l1(1) l2(1) queue_spec_pushes [of "[]" xs "length xs"] by (simp add: ll_run_append)
  have "ring_rep nullptr (ll_cache l2) cs" using l2(2) by (auto simp: ll_rep_def)
  then have "length cs \<le> unat sz" using ring.rep_bounded l2(3) by metis
  then have "ll_delete (Suc (length xs + unat sz)) l2 = Inr Map.empty"
    by (intro ll_delete_rep [OF l2(2)]) simp_all
  then show ?thesis using run by blast
qed

text \<open>
  C28: When the ring of nodes is not empty, \<open>push\<close> discards its argument: whatever is pushed, the
  same state results, in which the tail is the recycled node with its old value and its old
  successor.
\<close>

theorem ll_push_discards_on_reuse:
  assumes "ll_rep l xs (c # cs)"
  shows "\<exists>l'. (\<forall>alloc x. ll_push alloc x l = Inr l') \<and> ll_tail l' = c \<and>
    ll_heap l' c = ll_heap l c"
proof -
  obtain m n r where "c \<noteq> ll_tail l"
    "\<And>alloc x. ll_push alloc x l = Inr (l\<lparr>ll_heap := (ll_heap l)(ll_tail l \<mapsto> n\<lparr>ln_next := c\<rparr>),
      ll_tail := c, ll_cache := r\<rparr>)"
    using ll_push_reused [OF assms] by metis
  then show ?thesis by auto
qed

text \<open>
  So the list loses and repeats elements as soon as a push follows a pop: for every size of the
  ring, pushing \<open>x\<close>, popping it and pushing \<open>y\<close> leaves a list whose next pops deliver the
  default value of the first dummy node and then \<open>x\<close> again; \<open>y\<close> is lost.
\<close>

lemma ll_reuse_breaks_fifo:
  assumes "alloc_room 2 alloc" "ll_new rc sz False alloc dflt = Inr l"
  shows "\<exists>l'. ll_run alloc emp [Push x, Pop, Push y, Pop, Pop] l =
    Inr ([Pushed True, Popped x, Pushed True, Popped dflt, Popped x], l')"
proof -
  have ok: "alloc_ok alloc" using assms(1) by (simp add: alloc_room_def)
  obtain c0 a where c0: "ptr_ring_new rc sz = Inr c0" "alloc (\<lambda>_. None) = Some a"
    and l: "l = \<lparr>ll_heap = [a \<mapsto> \<lparr>ln_data = dflt, ln_next = nullptr\<rparr>], ll_head = a, ll_tail = a, ll_cache = c0\<rparr>"
    using assms(2) by (auto simp: ll_new_def bindE_Inr_iff new_lnode_def Let_def split: option.splits)
  have "pow2_size sz" "ring_rep nullptr c0 []" "m_size c0 = sz"
    using ptr_ring_new_rep [OF c0(1)] by simp_all
  then have ring0: "ring_rep nullptr c0 []" "1 < ring_capacity c0"
    by (simp_all add: pow2_size_def ring_capacity_def word_less_nat_alt)
  have "card (dom (ll_heap l)) < 2" by (simp add: l)
  then obtain b where b: "alloc (ll_heap l) = Some b"
    using assms(1) unfolding alloc_room_def l by fastforce
  have ab: "a \<noteq> nullptr" "b \<noteq> nullptr" "b \<noteq> a"
    using alloc_okD [OF ok c0(2)] alloc_okD [OF ok b] by (auto simp: l split: if_splits)
  obtain c1 where c1: "ring_push nullptr a c0 = (True, c1)" "ring_rep nullptr c1 [a]"
    "ring_capacity c1 = ring_capacity c0"
    using ring.push_space [OF ring0(1) ab(1)] ring0(2) by auto
  obtain c2 where c2: "ring_pop nullptr c1 = (a, c2)" "ring_rep nullptr c2 []"
    "ring_capacity c2 = ring_capacity c0"
    using ring.pop_cons [OF c1(2)] c1(3) by auto
  obtain c3 where c3: "ring_push nullptr b c2 = (True, c3)" "ring_rep nullptr c3 [b]"
    "ring_capacity c3 = ring_capacity c0"
    using ring.push_space [OF c2(2) ab(2)] c2(3) ring0(2) by auto
  obtain c4 where c4: "ring_push nullptr a c3 = (True, c4)"
    using ring.push_space [OF c3(2) ab(1)] c3(3) ring0(2) by auto
  note ring_steps = ring.pop_nil [OF ring0(1)] c1(1) c2(1) c3(1) c4
  show ?thesis
    using b ab ring_steps by (simp add: l ll_push_def ll_pop_def new_lnode_def)
qed

theorem ll_push_discards_on_reuse_witness:
  "\<exists>l l'. ll_rep l [] [2] \<and> (\<forall>alloc x. ll_push alloc (x :: int) l = Inr l')"
proof -
  let ?c = "\<lparr>m_write_index = 1, m_read_index = 0, m_size = 2, m_mask = 1, m_buf = [2, 0]\<rparr> :: addr ring"
  let ?l = "\<lparr>ll_heap = [1 \<mapsto> \<lparr>ln_data = 0 :: int, ln_next = 0\<rparr>, 2 \<mapsto> \<lparr>ln_data = 0, ln_next = 1\<rparr>],
    ll_head = 1, ll_tail = 1, ll_cache = ?c\<rparr>"
  have "ring_rep 0 ?c [2]"
    by (simp add: ring_rep_def ring_shape_def ring_slots_def pow2_size_def)
  then have rep: "ll_rep ?l [] [2]"
    unfolding ll_rep_def by (intro exI [of _ "[]"]) auto
  then show ?thesis using ll_push_discards_on_reuse [OF rep] by blast
qed

end
