(* ===== verification/List_Concurrent.thy ===== *)
theory List_Concurrent
  imports Linked_List
begin

text \<open>
  \<^verbatim>\<open>include/ni/cds/spsc_linked_list.hh\<close> with its two threads running at the same time. \<open>push\<close> and \<open>pop\<close>
  are cut at their accesses to what both threads use: the nodes and the ring of removed nodes
  (whose own \<open>push\<close> and \<open>pop\<close> take effect at one point each, as \<open>Ring_Concurrent\<close> shows). \<open>m_tail\<close> is
  the pushing thread's and \<open>m_head\<close> the popping thread's, so their accesses are part of the step
  they come with. Memory is sequentially consistent.
\<close>

section \<open>The accesses of push and pop\<close>

text \<open>Before \<open>m_cache.pop()\<close>, before \<open>new\<close>, before the store to \<open>m_tail->next\<close>.\<close>

datatype 'a lpush_pc = LCache 'a | LNew 'a | LLink 'a addr

text \<open>Before the load of \<open>m_head->next\<close>, the read of the data, \<open>m_cache.push(n)\<close> and \<open>delete n\<close>.\<close>

datatype 'a lpop_pc = LNext | LData addr | LKeep addr 'a | LFree addr 'a

text \<open>
  Events: an element is linked, taken, the list is found empty, a node is taken from the ring,
  \<open>pop\<close> returns.
\<close>

datatype 'a list_event = Linked 'a | Taken 'a | FoundEmpty | Reused | Popped_value 'a

fun lpush_go :: "'a lnode alloc \<Rightarrow> 'a lpush_pc \<Rightarrow> 'a llist \<Rightarrow>
    ('a lpush_pc option \<times> 'a llist \<times> 'a list_event list) result" where
  "lpush_go alloc (LCache x) l =
     (let (n, cache) = ring_pop nullptr (ll_cache l); l' = l\<lparr>ll_cache := cache\<rparr> in
      Inr (if n = nullptr then (Some (LNew x), l', []) else (Some (LLink x n), l', [Reused])))"
| "lpush_go alloc (LNew x) l =
     bindE (new_lnode alloc x (ll_heap l)) (\<lambda>(n, h). Inr (Some (LLink x n), l\<lparr>ll_heap := h\<rparr>, []))"
| "lpush_go alloc (LLink x n) l =
     bindE (write_next (ll_heap l) (ll_tail l) n) (\<lambda>h.
     Inr (None, l\<lparr>ll_heap := h, ll_tail := n\<rparr>, [Linked x]))"

fun lpop_go :: "'a \<Rightarrow> 'a lpop_pc \<Rightarrow> 'a llist \<Rightarrow>
    ('a lpop_pc option \<times> 'a llist \<times> 'a list_event list) result" where
  "lpop_go emp LNext l =
     bindE (read_next (ll_heap l) (ll_head l)) (\<lambda>next_node.
     Inr (if next_node = nullptr then (None, l, [FoundEmpty, Popped_value emp])
          else (Some (LData next_node), l, [])))"
| "lpop_go emp (LData next_node) l =
     bindE (read_data (ll_heap l) next_node) (\<lambda>element.
     Inr (Some (LKeep (ll_head l) element), l\<lparr>ll_head := next_node\<rparr>, [Taken element]))"
| "lpop_go emp (LKeep n element) l =
     (let (kept, cache) = ring_push nullptr n (ll_cache l); l' = l\<lparr>ll_cache := cache\<rparr> in
      Inr (if kept then (None, l', [Popped_value element]) else (Some (LFree n element), l', [])))"
| "lpop_go emp (LFree n element) l =
     bindE (delete_node n (ll_heap l)) (\<lambda>h. Inr (None, l\<lparr>ll_heap := h\<rparr>, [Popped_value element]))"

section \<open>One thread that pushes and one that pops\<close>

record 'a ll_threads =
  the_list :: "'a llist"
  pusher :: "'a lpush_pc option"
  popper :: "'a lpop_pc option"

text \<open>A thread calls its operation, when it is in none, or goes on with it.\<close>

datatype 'a ll_choice = CallPush 'a | CallPop | StepPush | StepPop

fun ll_next :: "'a lnode alloc \<Rightarrow> 'a \<Rightarrow> 'a ll_choice \<Rightarrow> 'a ll_threads \<Rightarrow>
    ('a ll_threads \<times> 'a list_event list) result" where
  "ll_next alloc emp (CallPush x) s =
     Inr (if pusher s = None then s\<lparr>pusher := Some (LCache x)\<rparr> else s, [])"
| "ll_next alloc emp CallPop s =
     Inr (if popper s = None then s\<lparr>popper := Some LNext\<rparr> else s, [])"
| "ll_next alloc emp StepPush s =
     (case pusher s of
        None \<Rightarrow> Inr (s, [])
      | Some p \<Rightarrow> bindE (lpush_go alloc p (the_list s)) (\<lambda>(p', l, es).
          Inr (s\<lparr>the_list := l, pusher := p'\<rparr>, es)))"
| "ll_next alloc emp StepPop s =
     (case popper s of
        None \<Rightarrow> Inr (s, [])
      | Some p \<Rightarrow> bindE (lpop_go emp p (the_list s)) (\<lambda>(p', l, es).
          Inr (s\<lparr>the_list := l, popper := p'\<rparr>, es)))"

fun ll_exec :: "'a lnode alloc \<Rightarrow> 'a \<Rightarrow> 'a ll_choice list \<Rightarrow> 'a ll_threads \<Rightarrow>
    ('a ll_threads \<times> 'a list_event list) result" where
  "ll_exec alloc emp [] s = Inr (s, [])"
| "ll_exec alloc emp (c # cs) s =
     bindE (ll_next alloc emp c s) (\<lambda>(s', es).
     bindE (ll_exec alloc emp cs s') (\<lambda>(s'', es'). Inr (s'', es @ es')))"

definition ll_start :: "'a llist \<Rightarrow> 'a ll_threads" where
  "ll_start l = \<lparr>the_list = l, pusher = None, popper = None\<rparr>"

text \<open>Run without interference, the accesses are the calls of \<open>Linked_List\<close>.\<close>

lemma ll_push_accesses:
  "ll_push alloc x l =
     bindE (lpush_go alloc (LCache x) l) (\<lambda>(p, l, _).
     bindE (case p of Some (LNew x) \<Rightarrow> lpush_go alloc (LNew x) l | _ \<Rightarrow> Inr (p, l, [])) (\<lambda>(p, l, _).
     bindE (lpush_go alloc (the p) l) (\<lambda>(_, l, _). Inr l)))"
  by (auto simp: ll_push_def new_lnode_def write_next_def split: prod.split option.split)

lemma ll_pop_accesses:
  "ll_pop emp l =
     bindE (lpop_go emp LNext l) (\<lambda>(p, l, _). case p of None \<Rightarrow> Inr (emp, l) | Some p \<Rightarrow>
     bindE (lpop_go emp p l) (\<lambda>(p, l, _).
     bindE (lpop_go emp (the p) l) (\<lambda>(p', l, _). case (p', the p) of
        (None, LKeep n x) \<Rightarrow> Inr (x, l)
      | (Some (LFree n x), _) \<Rightarrow> bindE (lpop_go emp (LFree n x) l) (\<lambda>(_, l, _). Inr (x, l))
      | _ \<Rightarrow> Inl OutOfFuel)))"
  by (auto simp: ll_pop_def read_next_def read_data_def delete_node_def bindE_def Let_def
      split: prod.split option.split)

section \<open>The specification\<close>

text \<open>
  A FIFO queue, and the value the running \<open>pop\<close> has to return once it has taken effect.
\<close>

fun queue_event_of :: "'a \<Rightarrow> 'a list_event \<Rightarrow> 'a list \<times> 'a option \<Rightarrow> ('a list \<times> 'a option) option" where
  "queue_event_of emp (Linked x) (q, r) = Some (q @ [x], r)"
| "queue_event_of emp (Taken x) (y # q, None) = (if x = y then Some (q, Some x) else None)"
| "queue_event_of emp FoundEmpty ([], None) = Some ([], Some emp)"
| "queue_event_of emp (Popped_value x) (q, Some y) = (if x = y then Some (q, None) else None)"
| "queue_event_of emp _ _ = None"

primrec queue_events :: "'a \<Rightarrow> 'a list_event list \<Rightarrow> 'a list \<times> 'a option \<Rightarrow> ('a list \<times> 'a option) option" where
  "queue_events emp [] v = Some v"
| "queue_events emp (e # es) v =
     (case queue_event_of emp e v of None \<Rightarrow> None | Some v' \<Rightarrow> queue_events emp es v')"

lemma queue_events_append:
  "queue_events emp (es @ es') v =
    (case queue_events emp es v of None \<Rightarrow> None | Some v' \<Rightarrow> queue_events emp es' v')"
  by (induction es arbitrary: v) (simp_all split: option.splits)

section \<open>Invariant\<close>

definition list_shape :: "'a llist \<Rightarrow> (addr \<times> 'a) list \<Rightarrow> addr list \<Rightarrow> bool" where
  "list_shape l bs cs \<longleftrightarrow> chain ln_next ln_data (ll_heap l) (ll_head l) bs \<and>
     ll_tail l = last (nodes (ll_head l) bs) \<and> distinct (nodes (ll_head l) bs) \<and>
     nullptr \<notin> set (nodes (ll_head l) bs) \<and> ring_rep nullptr (ll_cache l) cs"

text \<open>The node a thread has to itself.\<close>

fun pusher_node :: "'a lpush_pc option \<Rightarrow> addr option" where
  "pusher_node (Some (LLink x n)) = Some n"
| "pusher_node _ = None"

fun popper_node :: "'a lpop_pc option \<Rightarrow> addr option" where
  "popper_node (Some (LKeep n x)) = Some n"
| "popper_node (Some (LFree n x)) = Some n"
| "popper_node _ = None"

definition apart :: "'a llist \<Rightarrow> (addr \<times> 'a) list \<Rightarrow> addr option \<Rightarrow> bool" where
  "apart l bs a = (case a of None \<Rightarrow> True
     | Some n \<Rightarrow> n \<noteq> nullptr \<and> n \<notin> set (nodes (ll_head l) bs) \<and> n \<in> dom (ll_heap l))"

fun pusher_ok :: "'a llist \<Rightarrow> 'a lpush_pc option \<Rightarrow> bool" where
  "pusher_ok l (Some (LLink x n)) \<longleftrightarrow> ll_heap l n = Some \<lparr>ln_data = x, ln_next = nullptr\<rparr>"
| "pusher_ok l _ \<longleftrightarrow> True"

fun popper_ok :: "(addr \<times> 'a) list \<Rightarrow> 'a option \<Rightarrow> 'a lpop_pc option \<Rightarrow> bool" where
  "popper_ok bs r (Some (LData n)) \<longleftrightarrow> r = None \<and> (\<exists>x bs'. bs = (n, x) # bs')"
| "popper_ok bs r (Some (LKeep n x)) \<longleftrightarrow> r = Some x"
| "popper_ok bs r (Some (LFree n x)) \<longleftrightarrow> r = Some x"
| "popper_ok bs r _ \<longleftrightarrow> r = None"

lemma popper_ok_snoc: "popper_ok bs r p \<Longrightarrow> popper_ok (bs @ [b]) r p"
  by (cases "(bs, r, p)" rule: popper_ok.cases) auto

definition list_inv :: "'a ll_threads \<Rightarrow> 'a list \<times> 'a option \<Rightarrow> bool" where
  "list_inv s v \<longleftrightarrow> (\<exists>bs cs. fst v = map snd bs \<and> list_shape (the_list s) bs cs \<and>
     apart (the_list s) bs (pusher_node (pusher s)) \<and> apart (the_list s) bs (popper_node (popper s)) \<and>
     (pusher_node (pusher s) = None \<or> pusher_node (pusher s) \<noteq> popper_node (popper s)) \<and>
     pusher_ok (the_list s) (pusher s) \<and> popper_ok bs (snd v) (popper s))"

lemma list_invI:
  assumes "fst v = map snd bs" "list_shape (the_list s) bs cs"
    "apart (the_list s) bs (pusher_node (pusher s))" "apart (the_list s) bs (popper_node (popper s))"
    "pusher_node (pusher s) = None \<or> pusher_node (pusher s) \<noteq> popper_node (popper s)"
    "pusher_ok (the_list s) (pusher s)" "popper_ok bs (snd v) (popper s)"
  shows "list_inv s v"
  using assms unfolding list_inv_def by blast

lemma list_invE:
  assumes "list_inv s v"
  obtains bs cs where "fst v = map snd bs" "list_shape (the_list s) bs cs"
    "apart (the_list s) bs (pusher_node (pusher s))" "apart (the_list s) bs (popper_node (popper s))"
    "pusher_node (pusher s) = None \<or> pusher_node (pusher s) \<noteq> popper_node (popper s)"
    "pusher_ok (the_list s) (pusher s)" "popper_ok bs (snd v) (popper s)"
  using assms unfolding list_inv_def by blast

lemma list_shapeD:
  assumes "list_shape l bs cs"
  shows "chain ln_next ln_data (ll_heap l) (ll_head l) bs" "ll_tail l = last (nodes (ll_head l) bs)"
    "distinct (nodes (ll_head l) bs)" "nullptr \<notin> set (nodes (ll_head l) bs)" "ring_rep nullptr (ll_cache l) cs"
  using assms unfolding list_shape_def by blast+

lemma list_shape_live: "list_shape l bs cs \<Longrightarrow> set (nodes (ll_head l) bs) \<subseteq> dom (ll_heap l)"
  using chain_live by (fastforce simp: list_shape_def)

text \<open>The outcome of a step that is not the reuse of a node.\<close>

definition list_moves ::
  "'a \<Rightarrow> 'a list \<times> 'a option \<Rightarrow> ('a ll_threads \<times> 'a list_event list) result \<Rightarrow> bool" where
  "list_moves emp v r \<longleftrightarrow> r = Inl BadAlloc \<or>
     (\<exists>s es. r = Inr (s, es) \<and> (Reused \<in> set es \<or> (\<exists>v'. queue_events emp es v = Some v' \<and> list_inv s v')))"

lemma list_movesI:
  "r = Inr (s, es) \<Longrightarrow> queue_events emp es v = Some v' \<Longrightarrow> list_inv s v' \<Longrightarrow> list_moves emp v r"
  unfolding list_moves_def by blast

lemma list_shape_other:
  assumes "list_shape l bs cs" "n \<notin> set (nodes (ll_head l) bs)"
  shows "list_shape (l\<lparr>ll_heap := (ll_heap l)(n := v)\<rparr>) bs cs"
  using assms by (simp add: list_shape_def)

text \<open>Linking a node that the list does not have yet.\<close>

lemma link_shape:
  assumes shape: "list_shape l bs cs" and n: "ll_heap l n = Some \<lparr>ln_data = x, ln_next = nullptr\<rparr>"
    "n \<noteq> nullptr" "n \<notin> set (nodes (ll_head l) bs)"
  obtains h where "write_next (ll_heap l) (ll_tail l) n = Inr h"
    "list_shape (l\<lparr>ll_heap := h, ll_tail := n\<rparr>) (bs @ [(n, x)]) cs" "dom h = dom (ll_heap l)"
proof -
  note S = list_shapeD [OF shape]
  obtain m where m: "ll_heap l (ll_tail l) = Some m" using chain_last [OF S(1)] S(2) by auto
  let ?h = "(ll_heap l)(ll_tail l \<mapsto> m\<lparr>ln_next := n\<rparr>)"
  have "chain ln_next ln_data ((ll_heap l)(last (nodes (ll_head l) bs) \<mapsto> m\<lparr>ln_next := n\<rparr>)) (ll_head l) (bs @ [(n, x)])"
    by (rule chain_append [OF S(1,3) n(3), where m = "\<lparr>ln_data = x, ln_next = nullptr\<rparr>"]) (use m S(2) n(1) in simp_all)
  then have "list_shape (l\<lparr>ll_heap := ?h, ll_tail := n\<rparr>) (bs @ [(n, x)]) cs"
    using S n(2,3) by (simp add: list_shape_def)
  moreover have "dom ?h = dom (ll_heap l)" using m by auto
  ultimately show ?thesis using that [of ?h] m by simp
qed

lemma ll_push_moves:
  assumes inv: "list_inv s v" and p: "pusher s = Some p" and al: "alloc_ok alloc"
  shows "list_moves emp v (ll_next alloc emp StepPush s)"
  using inv
proof (rule list_invE)
  fix bs cs
  let ?l = "the_list s"
  assume v: "fst v = map snd bs" and shape: "list_shape ?l bs cs"
    and apart: "apart ?l bs (pusher_node (pusher s))" "apart ?l bs (popper_node (popper s))"
    "pusher_node (pusher s) = None \<or> pusher_node (pusher s) \<noteq> popper_node (popper s)"
    and ok: "pusher_ok ?l (pusher s)" "popper_ok bs (snd v) (popper s)"
  show ?thesis
  proof (cases p)
    case (LCache x)
    show ?thesis
    proof (cases cs)
      case Nil
      then have "ring_pop nullptr (ll_cache ?l) = (nullptr, ll_cache ?l)"
        using ring.pop_nil [of nullptr "ll_cache ?l"] list_shapeD(5) [OF shape] by simp
      then have "ll_next alloc emp StepPush s = Inr (s\<lparr>the_list := ?l, pusher := Some (LNew x)\<rparr>, [])"
        using p LCache by simp
      then show ?thesis
        by (rule list_movesI [where v' = v])
          (use v shape apart(2) ok(2) in \<open>auto intro!: list_invI [where bs = bs and cs = cs] simp: apart_def\<close>)
    next
      case (Cons n ns)
      have rep: "ring_rep nullptr (ll_cache ?l) (n # ns)" using list_shapeD(5) [OF shape] Cons by simp
      obtain r where "ring_pop nullptr (ll_cache ?l) = (n, r)" using ring.pop_cons [OF rep] by blast
      moreover have "n \<noteq> nullptr" using ring.rep_bounded [OF rep] by auto
      ultimately show ?thesis using p LCache by (auto simp: list_moves_def)
    qed
  next
    case (LNew x)
    show ?thesis
    proof (cases "alloc (ll_heap ?l)")
      case None
      then show ?thesis using p LNew by (simp add: list_moves_def new_lnode_def)
    next
      case (Some n)
      let ?h = "(ll_heap ?l)(n \<mapsto> \<lparr>ln_data = x, ln_next = nullptr\<rparr>)"
      have fresh: "ll_heap ?l n = None" "n \<noteq> nullptr" using alloc_okD [OF al Some] by simp_all
      then have out: "n \<notin> set (nodes (ll_head ?l) bs)" "popper_node (popper s) \<noteq> Some n"
        using list_shape_live [OF shape] apart(2) by (auto simp: apart_def)
      have step: "ll_next alloc emp StepPush s =
          Inr (s\<lparr>the_list := ?l\<lparr>ll_heap := ?h\<rparr>, pusher := Some (LLink x n)\<rparr>, [])"
        using p LNew Some by (simp add: new_lnode_def)
      have "list_shape (?l\<lparr>ll_heap := ?h\<rparr>) bs cs" by (rule list_shape_other [OF shape out(1)])
      then show ?thesis
        by (intro list_movesI [OF step, where v' = v] list_invI [where bs = bs and cs = cs])
          (use v apart(2) ok(2) fresh out in \<open>auto simp: apart_def split: option.splits\<close>)
    qed
  next
    case (LLink x n)
    then have n: "ll_heap ?l n = Some \<lparr>ln_data = x, ln_next = nullptr\<rparr>" "n \<noteq> nullptr"
      "n \<notin> set (nodes (ll_head ?l) bs)" "popper_node (popper s) \<noteq> Some n"
      using p ok(1) apart(1,3) by (auto simp: apart_def)
    obtain h where h: "write_next (ll_heap ?l) (ll_tail ?l) n = Inr h"
      "list_shape (?l\<lparr>ll_heap := h, ll_tail := n\<rparr>) (bs @ [(n, x)]) cs" "dom h = dom (ll_heap ?l)"
      by (rule link_shape [OF shape n(1-3)])
    have step: "ll_next alloc emp StepPush s =
        Inr (s\<lparr>the_list := ?l\<lparr>ll_heap := h, ll_tail := n\<rparr>, pusher := None\<rparr>, [Linked x])"
      using p LLink h(1) by simp
    have "popper_ok (bs @ [(n, x)]) (snd v) (popper s)" by (rule popper_ok_snoc [OF ok(2)])
    then show ?thesis
      by (intro list_movesI [OF step, where v' = "(fst v @ [x], snd v)"]
          list_invI [where bs = "bs @ [(n, x)]" and cs = cs])
        (use v apart(2) n(4) h(2,3) in \<open>cases v; auto simp: apart_def split: option.splits\<close>)+
  qed
qed

lemma ll_pop_moves:
  assumes inv: "list_inv s v" and p: "popper s = Some p"
  shows "list_moves emp v (ll_next alloc emp StepPop s)"
  using inv
proof (rule list_invE)
  fix bs cs
  let ?l = "the_list s"
  obtain q r where qr: "v = (q, r)" by (cases v)
  assume "fst v = map snd bs" and shape: "list_shape ?l bs cs"
    and apart: "apart ?l bs (pusher_node (pusher s))" "apart ?l bs (popper_node (popper s))"
    "pusher_node (pusher s) = None \<or> pusher_node (pusher s) \<noteq> popper_node (popper s)"
    and ok: "pusher_ok ?l (pusher s)" "popper_ok bs (snd v) (popper s)"
  then have q: "q = map snd bs" and r: "popper_ok bs r (Some p)" using qr p by simp_all
  note S = list_shapeD [OF shape]
  show ?thesis
  proof (cases p)
    case LNext
    then have r: "r = None" using r by simp
    show ?thesis
    proof (cases bs)
      case Nil
      then have "read_next (ll_heap ?l) (ll_head ?l) = Inr nullptr"
        using S(1) by (auto simp: read_next_def split: option.splits)
      then have step: "ll_next alloc emp StepPop s = Inr (s\<lparr>the_list := ?l, popper := None\<rparr>, [FoundEmpty, Popped_value emp])"
        using p LNext by simp
      show ?thesis
        by (intro list_movesI [OF step, where v' = v] list_invI [where bs = bs and cs = cs])
          (use qr q r Nil shape apart(1) ok(1) in \<open>auto simp: apart_def\<close>)
    next
      case (Cons b bs')
      obtain n x where b: "b = (n, x)" by (cases b)
      have "read_next (ll_heap ?l) (ll_head ?l) = Inr n" "n \<noteq> nullptr"
        using S(1,4) Cons b by (auto simp: read_next_def nodes_def split: option.splits)
      then have step: "ll_next alloc emp StepPop s = Inr (s\<lparr>the_list := ?l, popper := Some (LData n)\<rparr>, [])"
        using p LNext by simp
      show ?thesis
        by (intro list_movesI [OF step, where v' = v] list_invI [where bs = bs and cs = cs])
          (use qr q r Cons b shape apart(1) ok(1) in \<open>auto simp: apart_def\<close>)
    qed
  next
    case (LData n)
    then obtain x bs' where bs: "bs = (n, x) # bs'" and r: "r = None" using r by auto
    let ?m = "ll_head ?l"
    have "read_data (ll_heap ?l) n = Inr x"
      using S(1) bs by (auto simp: read_data_def split: option.splits)
    then have step: "ll_next alloc emp StepPop s =
        Inr (s\<lparr>the_list := ?l\<lparr>ll_head := n\<rparr>, popper := Some (LKeep ?m x)\<rparr>, [Taken x])"
      using p LData by simp
    have "list_shape (?l\<lparr>ll_head := n\<rparr>) bs' cs"
      using S bs by (auto simp: list_shape_def nodes_def)
    moreover have "?m \<noteq> nullptr" "?m \<notin> set (nodes n bs')" "?m \<in> dom (ll_heap ?l)"
      using S(3,4) bs list_shape_live [OF shape] by (auto simp: nodes_def)
    ultimately show ?thesis
      by (intro list_movesI [OF step, where v' = "(map snd bs', Some x)"]
          list_invI [where bs = bs' and cs = cs])
        (use qr q r bs apart(1) ok(1) in \<open>auto simp: apart_def nodes_def split: option.splits elim: pusher_ok.elims\<close>)
  next
    case (LKeep n x)
    then have n: "n \<noteq> nullptr" "n \<notin> set (nodes (ll_head ?l) bs)" and r: "r = Some x"
      using apart(2) p r by (auto simp: apart_def)
    show ?thesis
    proof (cases "length cs < ring_capacity (ll_cache ?l)")
      case True
      then obtain c where c: "ring_push nullptr n (ll_cache ?l) = (True, c)" "ring_rep nullptr c (cs @ [n])"
        using ring.push_space [OF S(5) n(1)] by blast
      then have step: "ll_next alloc emp StepPop s =
          Inr (s\<lparr>the_list := ?l\<lparr>ll_cache := c\<rparr>, popper := None\<rparr>, [Popped_value x])"
        using p LKeep by simp
      have "list_shape (?l\<lparr>ll_cache := c\<rparr>) bs (cs @ [n])" using S c(2) by (simp add: list_shape_def)
      then show ?thesis
        by (intro list_movesI [OF step, where v' = "(q, None)"] list_invI [where bs = bs and cs = "cs @ [n]"])
          (use qr q r apart(1) ok(1) in \<open>auto simp: apart_def split: option.splits elim: pusher_ok.elims\<close>)
    next
      case False
      then have "length cs = ring_capacity (ll_cache ?l)"
        using ring.rep_bounded [OF S(5)] by simp
      then have "ring_push nullptr n (ll_cache ?l) = (False, ll_cache ?l)"
        using ring.push_full [OF S(5)] by blast
      then have step: "ll_next alloc emp StepPop s = Inr (s\<lparr>the_list := ?l, popper := Some (LFree n x)\<rparr>, [])"
        using p LKeep by simp
      show ?thesis
        by (intro list_movesI [OF step, where v' = v] list_invI [where bs = bs and cs = cs])
          (use qr q r shape apart ok(1) p LKeep in \<open>auto simp: apart_def\<close>)
    qed
  next
    case (LFree n x)
    then have n: "n \<notin> set (nodes (ll_head ?l) bs)" "n \<in> dom (ll_heap ?l)" "pusher_node (pusher s) \<noteq> Some n"
      and r: "r = Some x" using apart(2,3) p r by (auto simp: apart_def)
    then have step: "ll_next alloc emp StepPop s =
        Inr (s\<lparr>the_list := ?l\<lparr>ll_heap := (ll_heap ?l)(n := None)\<rparr>, popper := None\<rparr>, [Popped_value x])"
      using p LFree by (auto simp: delete_node_def)
    have "list_shape (?l\<lparr>ll_heap := (ll_heap ?l)(n := None)\<rparr>) bs cs" by (rule list_shape_other [OF shape n(1)])
    then show ?thesis
      by (intro list_movesI [OF step, where v' = "(q, None)"] list_invI [where bs = bs and cs = cs])
        (use qr q r apart(1) ok(1) n(3) in \<open>auto simp: apart_def split: option.splits elim: pusher_ok.elims\<close>)
  qed
qed

lemma ll_next_moves:
  assumes inv: "list_inv s v" and al: "alloc_ok alloc"
  shows "list_moves emp v (ll_next alloc emp c s)"
proof -
  have stay: "list_moves emp v (Inr (s', []))" if "list_inv s' v" for s'
    by (rule list_movesI [OF refl _ that]) simp
  show ?thesis
  proof (cases c)
    case (CallPush x)
    have "list_inv (s\<lparr>pusher := Some (LCache x)\<rparr>) v" if "pusher s = None"
      using inv that by (auto simp: list_inv_def)
    then show ?thesis using inv by (auto simp: CallPush intro: stay)
  next
    case CallPop
    have "list_inv (s\<lparr>popper := Some LNext\<rparr>) v" if "popper s = None"
      using inv that by (auto simp: list_inv_def)
    then show ?thesis using inv by (auto simp: CallPop intro: stay)
  next
    case StepPush
    then show ?thesis using ll_push_moves [OF inv _ al, of _ emp] inv
      by (cases "pusher s") (auto intro: stay)
  next
    case StepPop
    then show ?thesis using ll_pop_moves [OF inv, of _ emp alloc] inv
      by (cases "popper s") (auto intro: stay)
  qed
qed

text \<open>The run has taken a node from the ring, at its end or before.\<close>

definition reuses :: "'a lnode alloc \<Rightarrow> 'a \<Rightarrow> 'a ll_choice list \<Rightarrow> 'a ll_threads \<Rightarrow> bool" where
  "reuses alloc emp cs s \<longleftrightarrow>
     (\<exists>k \<in> set [0..<Suc (length cs)]. case ll_exec alloc emp (take k cs) s of
         Inl _ \<Rightarrow> False | Inr (_, es) \<Rightarrow> Reused \<in> set es)"

lemma reuses_iff:
  "reuses alloc emp cs s \<longleftrightarrow>
    (\<exists>k \<le> length cs. \<exists>s' es. ll_exec alloc emp (take k cs) s = Inr (s', es) \<and> Reused \<in> set es)"
proof -
  have "(case r of Inl _ \<Rightarrow> False | Inr (_, es) \<Rightarrow> Reused \<in> set es) \<longleftrightarrow> (\<exists>s' es. r = Inr (s', es) \<and> Reused \<in> set es)"
    for r :: "('a ll_threads \<times> 'a list_event list) result"
    by (auto split: sum.splits)
  then show ?thesis unfolding reuses_def set_upt by (simp only: atLeastLessThan_iff Bex_def less_Suc_eq_le) simp
qed

lemma reuses_Cons:
  assumes "ll_next alloc emp c s = Inr (s', es)" "Reused \<in> set es \<or> reuses alloc emp cs s'"
  shows "reuses alloc emp (c # cs) s"
  using assms(2)
proof
  assume "Reused \<in> set es"
  then show ?thesis
    unfolding reuses_iff using assms(1) by (intro exI [of _ 1]) simp
next
  assume "reuses alloc emp cs s'"
  then obtain k s'' es' where "k \<le> length cs" "ll_exec alloc emp (take k cs) s' = Inr (s'', es')" "Reused \<in> set es'"
    unfolding reuses_iff by blast
  then show ?thesis
    unfolding reuses_iff using assms(1) by (intro exI [of _ "Suc k"]) simp
qed

lemma ll_exec_moves:
  assumes "list_inv s v" "alloc_ok alloc" "\<not> reuses alloc emp cs s"
  shows "ll_exec alloc emp cs s = Inl BadAlloc \<or>
    (\<exists>s' es v'. ll_exec alloc emp cs s = Inr (s', es) \<and> queue_events emp es v = Some v' \<and> list_inv s' v')"
  using assms(1,3)
proof (induction cs arbitrary: s v)
  case Nil
  then show ?case by (intro disjI2 exI [of _ s] exI [of _ "[]"] exI [of _ v]) simp
next
  case (Cons c cs)
  from ll_next_moves [OF Cons.prems(1) assms(2), of emp c] show ?case unfolding list_moves_def
  proof (elim disjE exE conjE)
    fix s1 es1 v1
    assume h: "ll_next alloc emp c s = Inr (s1, es1)" "queue_events emp es1 v = Some v1" "list_inv s1 v1"
    have "\<not> reuses alloc emp cs s1" using reuses_Cons [OF h(1)] Cons.prems(2) by blast
    from Cons.IH [OF h(3) this] show ?case using h(1,2) by (auto simp: queue_events_append)
  next
    fix s1 es1
    assume "ll_next alloc emp c s = Inr (s1, es1)" "Reused \<in> set es1"
    then show ?case using reuses_Cons [of alloc emp c s s1 es1 cs] Cons.prems(2) by blast
  qed simp
qed

section \<open>Properties\<close>

text \<open>
  C13: One thread that pushes to a new list and one that pops from it, in any interleaving of their
  accesses. As long as no push takes a removed node from the ring, the run ends early only when
  the allocator throws: no access to a freed node. It is linearizable: a push takes effect when its
  node is linked; a pop takes the oldest element and returns it, or finds the list empty at the
  moment of its load and returns \<open>Empty\<close>.
\<close>

theorem list_linearizable_before_reuse:
  assumes "alloc_ok alloc" "ll_new rc sz False alloc dflt = Inr l"
    and "\<not> reuses alloc emp cs (ll_start l)"
  shows "case ll_exec alloc emp cs (ll_start l) of
      Inl err \<Rightarrow> err = BadAlloc
    | Inr (s, es) \<Rightarrow> queue_events emp es ([], None) \<noteq> None"
proof -
  have "ll_rep l [] []" using ll_new_rep [OF assms(1,2)] by simp
  then have "list_inv (ll_start l) ([], None)"
    by (intro list_invI [where bs = "[]" and cs = "[]"])
      (auto simp: ll_start_def ll_rep_def list_shape_def apart_def)
  from ll_exec_moves [OF this assms(1,3)] show ?thesis by auto
qed

definition demo_list :: "int llist" where
  "demo_list = \<lparr>ll_heap = [1 \<mapsto> \<lparr>ln_data = 0, ln_next = nullptr\<rparr>], ll_head = 1, ll_tail = 1,
     ll_cache = \<lparr>m_write_index = 0, m_read_index = 0, m_size = 2, m_mask = 1, m_buf = [nullptr, nullptr]\<rparr>\<rparr>"

definition demo_calls :: "int ll_choice list" where
  "demo_calls = [CallPush 5, StepPush, CallPop, StepPush, StepPop, CallPop, StepPush, CallPush 6, StepPop,
     StepPush, StepPop, StepPush, StepPop, StepPush, CallPop, StepPop, StepPop, StepPop]"

theorem list_linearizable_before_reuse_witness:
  "ll_new 0 2 False (pool_alloc [1, 2, 3, 4]) 0 = Inr demo_list \<and>
   (case ll_exec (pool_alloc [1, 2, 3, 4]) (-1) demo_calls (ll_start demo_list) of
      Inl err \<Rightarrow> err = BadAlloc
    | Inr (s, es) \<Rightarrow> queue_events (-1) es ([], None) \<noteq> None)"
proof -
  have new: "ll_new 0 2 False (pool_alloc [1, 2, 3, 4]) 0 = Inr demo_list"
    by (simp add: ll_new_def ptr_ring_new_def ring_new_def ring_clear_def memset_ptr_0 new_lnode_def
        pool_alloc_def demo_list_def replicate_numeral)
  have "\<not> reuses (pool_alloc [1, 2, 3, 4]) (-1) demo_calls (ll_start demo_list)"
    by code_simp
  from list_linearizable_before_reuse [OF alloc_ok_four new this] new show ?thesis by blast
qed

end
