(* ===== verification/Buffer_List.thy ===== *)
theory Buffer_List
  imports Linked_List
begin

text \<open>
  \<^verbatim>\<open>include/ni/cds/spsc_buffer_list.hh\<close> (class \<open>SPSCBufferList<T, Empty, Fill>\<close>): an
  unbounded queue as a list of rings. The element goes into the ring to write; when that one is
  full, a further ring is taken from a cache or allocated and queued in a linked list
  \<open>m_in_use\<close>, from which the reader takes its next ring. The calls run one after the other.
\<close>

section \<open>State and operations\<close>

text \<open>
  The template arguments and what the environment does: \<open>be_emp\<close> and \<open>be_fill\<close> are \<open>Empty\<close>
  and \<open>Fill\<close>; \<open>be_rc\<close> and \<open>be_mem\<close> are what \<open>posix_memalign\<close> returns and the array it
  allocates; \<open>be_alloc\<close> and \<open>be_nodes\<close> allocate rings and list nodes.
\<close>

record 'a buf_env =
  be_emp :: 'a
  be_fill :: "'a filler"
  be_rc :: int
  be_mem :: "u64 \<Rightarrow> 'a list"
  be_alloc :: "'a ring alloc"
  be_nodes :: "addr lnode alloc"

record 'a blist =
  bl_bufs :: "addr \<rightharpoonup> 'a ring"
  bl_read :: addr
  bl_write :: addr
  bl_size :: u64
  bl_in_use :: "addr llist"
  bl_cache :: "addr ring"

definition new_buffer ::
  "'a buf_env \<Rightarrow> u64 \<Rightarrow> (addr \<rightharpoonup> 'a ring) \<Rightarrow> (addr \<times> (addr \<rightharpoonup> 'a ring)) result" where
  "new_buffer env sz bufs =
     (case be_alloc env bufs of
        None \<Rightarrow> Inl BadAlloc
      | Some a \<Rightarrow> bindE (ring_new (be_emp env) (be_fill env) (be_rc env) (be_mem env sz) sz)
          (\<lambda>r. Inr (a, bufs(a \<mapsto> r))))"

definition read_buf :: "(addr \<rightharpoonup> 'a ring) \<Rightarrow> addr \<Rightarrow> 'a ring result" where
  "read_buf bufs a = (case bufs a of None \<Rightarrow> Inl (BadDeref a) | Some r \<Rightarrow> Inr r)"

text \<open>The loop of the constructor, with the number of iterations left.\<close>

fun bl_fill :: "nat \<Rightarrow> 'a buf_env \<Rightarrow> 'a blist \<Rightarrow> 'a blist result" where
  "bl_fill 0 env b = Inr b"
| "bl_fill (Suc i) env b =
     bindE (new_buffer env (bl_size b) (bl_bufs b)) (\<lambda>(a, bufs).
     let (_, cache) = ring_push nullptr a (bl_cache b)
     in bl_fill i env (b\<lparr>bl_bufs := bufs, bl_cache := cache\<rparr>))"

definition bl_new :: "'a buf_env \<Rightarrow> u64 \<Rightarrow> u64 \<Rightarrow> bool \<Rightarrow> 'a blist result" where
  "bl_new env buffer_size cache_size fill_cache =
     bindE (new_buffer env buffer_size (\<lambda>_. None)) (\<lambda>(a, bufs).
     bindE (ll_new (be_rc env) cache_size False (be_nodes env) nullptr) (\<lambda>in_use.
     bindE (ring_new nullptr FillUnit (be_rc env) (replicate (unat cache_size) nullptr) cache_size)
       (\<lambda>cache.
     let b = \<lparr>bl_bufs = bufs, bl_read = a, bl_write = a, bl_size = buffer_size,
              bl_in_use = in_use, bl_cache = cache\<rparr> in
     if fill_cache then
       bindE (assertE (0 < buffer_size)) (\<lambda>_. bl_fill (unat cache_size) env b)
     else Inr b)))"

definition bl_empty :: "'a buf_env \<Rightarrow> 'a blist \<Rightarrow> bool result" where
  "bl_empty env b =
     bindE (read_buf (bl_bufs b) (bl_read b)) (\<lambda>r.
     Inr (ring_empty (be_emp env) r \<and> bl_read b = bl_write b))"

definition next_to_read :: "'a blist \<Rightarrow> (addr \<times> 'a blist) result" where
  "next_to_read b =
     bindE (ll_pop nullptr (bl_in_use b)) (\<lambda>(buf, in_use). Inr (buf, b\<lparr>bl_in_use := in_use\<rparr>))"

text \<open>The first half of \<open>next_to_write\<close>: a ring from the cache, or else a new one.\<close>

definition take_buffer :: "'a buf_env \<Rightarrow> u64 \<Rightarrow> 'a blist \<Rightarrow> (addr \<times> 'a blist) result" where
  "take_buffer env buf_size b =
     (let (buf, cache) = ring_pop nullptr (bl_cache b) in
      bindE (if buf = nullptr then new_buffer env buf_size (bl_bufs b) else Inr (buf, bl_bufs b))
        (\<lambda>(buf, bufs). Inr (buf, b\<lparr>bl_bufs := bufs, bl_cache := cache\<rparr>)))"

definition next_to_write :: "'a buf_env \<Rightarrow> u64 \<Rightarrow> 'a blist \<Rightarrow> (addr \<times> 'a blist) result" where
  "next_to_write env buf_size b =
     bindE (take_buffer env buf_size b) (\<lambda>(buf, b1).
     bindE (ll_push (be_nodes env) buf (bl_in_use b1)) (\<lambda>in_use.
     Inr (buf, b1\<lparr>bl_in_use := in_use\<rparr>)))"

definition release :: "'a buf_env \<Rightarrow> addr \<Rightarrow> 'a blist \<Rightarrow> 'a blist result" where
  "release env buf b =
     bindE (read_buf (bl_bufs b) buf) (\<lambda>r.
     let bufs = (bl_bufs b)(buf \<mapsto> ring_reset (be_emp env) (be_fill env) r);
         (kept, cache) = ring_push nullptr buf (bl_cache b) in
     bindE (if kept then Inr bufs else delete_node buf bufs) (\<lambda>bufs'.
     Inr (b\<lparr>bl_bufs := bufs', bl_cache := cache\<rparr>)))"

definition bl_push :: "'a buf_env \<Rightarrow> 'a \<Rightarrow> 'a blist \<Rightarrow> 'a blist result" where
  "bl_push env element b =
     bindE (read_buf (bl_bufs b) (bl_write b)) (\<lambda>w.
     bindE (if \<not> ring_available (be_emp env) w then
              bindE (next_to_write env (bl_size b) b) (\<lambda>(buf, b'). Inr (b'\<lparr>bl_write := buf\<rparr>))
            else Inr b) (\<lambda>b1.
     bindE (read_buf (bl_bufs b1) (bl_write b1)) (\<lambda>w1.
     let (_, w2) = ring_push (be_emp env) element w1
     in Inr (b1\<lparr>bl_bufs := (bl_bufs b1)(bl_write b1 \<mapsto> w2)\<rparr>))))"

text \<open>The final \<open>return m_buf_to_read->pop()\<close>.\<close>

definition pop_read :: "'a buf_env \<Rightarrow> 'a blist \<Rightarrow> ('a \<times> 'a blist) result" where
  "pop_read env b =
     bindE (read_buf (bl_bufs b) (bl_read b)) (\<lambda>r.
     let (x, r') = ring_pop (be_emp env) r
     in Inr (x, b\<lparr>bl_bufs := (bl_bufs b)(bl_read b \<mapsto> r')\<rparr>))"

definition bl_pop :: "'a buf_env \<Rightarrow> 'a blist \<Rightarrow> ('a \<times> 'a blist) result" where
  "bl_pop env b =
     bindE (read_buf (bl_bufs b) (bl_read b)) (\<lambda>r.
     if ring_empty (be_emp env) r then
       if bl_read b = bl_write b then Inr (be_emp env, b)
       else
         bindE (read_buf (bl_bufs b) (bl_read b)) (\<lambda>r2.
         if ring_empty (be_emp env) r2 then
           bindE (next_to_read b) (\<lambda>(next, b1).
           if next \<noteq> nullptr then
             bindE (release env (bl_read b1) b1) (\<lambda>b2. pop_read env (b2\<lparr>bl_read := next\<rparr>))
           else pop_read env b1)
         else pop_read env b)
     else pop_read env b)"

fun bl_reset :: "nat \<Rightarrow> 'a buf_env \<Rightarrow> 'a blist \<Rightarrow> 'a blist result" where
  "bl_reset 0 env b = Inl OutOfFuel"
| "bl_reset (Suc fuel) env b =
     bindE (next_to_read b) (\<lambda>(buf, b1).
     if buf \<noteq> nullptr then bindE (release env buf b1) (bl_reset fuel env) else Inr b1)"

fun bl_drop_in_use ::
  "nat \<Rightarrow> addr llist \<Rightarrow> (addr \<rightharpoonup> 'a ring) \<Rightarrow> (addr llist \<times> (addr \<rightharpoonup> 'a ring)) result" where
  "bl_drop_in_use 0 in_use bufs = Inl OutOfFuel"
| "bl_drop_in_use (Suc fuel) in_use bufs =
     bindE (ll_pop nullptr in_use) (\<lambda>(buf, in_use').
     if buf \<noteq> nullptr then bindE (delete_node buf bufs) (bl_drop_in_use fuel in_use')
     else Inr (in_use', bufs))"

fun bl_drop_cache ::
  "nat \<Rightarrow> addr ring \<Rightarrow> (addr \<rightharpoonup> 'a ring) \<Rightarrow> (addr ring \<times> (addr \<rightharpoonup> 'a ring)) result" where
  "bl_drop_cache 0 cache bufs = Inl OutOfFuel"
| "bl_drop_cache (Suc fuel) cache bufs =
     (let (buf, cache') = ring_pop nullptr cache in
      if buf \<noteq> nullptr then bindE (delete_node buf bufs) (bl_drop_cache fuel cache')
      else Inr (cache', bufs))"

text \<open>The destructor, and after its body the destructor of the member \<open>m_in_use\<close>.\<close>

definition bl_delete ::
  "nat \<Rightarrow> 'a blist \<Rightarrow> ((addr \<rightharpoonup> 'a ring) \<times> (addr \<rightharpoonup> addr lnode)) result" where
  "bl_delete fuel b =
     bindE (if bl_read b \<noteq> nullptr then delete_node (bl_read b) (bl_bufs b) else Inr (bl_bufs b))
       (\<lambda>bufs.
     bindE (bl_drop_in_use fuel (bl_in_use b) bufs) (\<lambda>(in_use, bufs').
     bindE (bl_drop_cache fuel (bl_cache b) bufs') (\<lambda>(_, bufs'').
     bindE (ll_delete fuel in_use) (\<lambda>nodes. Inr (bufs'', nodes)))))"

section \<open>Representation\<close>

text \<open>
  What the code relies on: the fill value is \<open>Empty\<close>, the allocations succeed and the array
  of a ring has as many slots as were asked for.
\<close>

definition env_ok :: "'a buf_env \<Rightarrow> bool" where
  "env_ok env \<longleftrightarrow> fills_empty (be_emp env) (be_fill env) \<and> be_rc env = 0 \<and>
     (\<forall>sz. length (be_mem env sz) = unat sz) \<and> alloc_ok (be_alloc env) \<and> alloc_ok (be_nodes env)"

text \<open>
  \<open>bl_parts env b us xss cs fs\<close>: the queue is in the ring to read and the rings \<open>us\<close> in use
  behind it, which hold \<open>xss\<close>; the last of them is the ring to write; \<open>cs\<close> are the removed
  list nodes and \<open>fs\<close> the cached rings, all empty. In \<open>bl_rep\<close> only the ring to read may
  be empty.
\<close>

definition holds :: "'a buf_env \<Rightarrow> u64 \<Rightarrow> (addr \<rightharpoonup> 'a ring) \<Rightarrow> addr \<Rightarrow> 'a list \<Rightarrow> bool" where
  "holds env sz bufs a xs \<longleftrightarrow>
     (case bufs a of None \<Rightarrow> False | Some r \<Rightarrow> ring_rep (be_emp env) r xs \<and> m_size r = sz)"

definition bl_parts ::
  "'a buf_env \<Rightarrow> 'a blist \<Rightarrow> addr list \<Rightarrow> 'a list list \<Rightarrow> addr list \<Rightarrow> addr list \<Rightarrow> bool" where
  "bl_parts env b us xss cs fs \<longleftrightarrow>
     pow2_size (bl_size b) \<and> ll_rep (bl_in_use b) us cs \<and> ring_rep nullptr (bl_cache b) fs \<and>
     distinct (bl_read b # us @ fs) \<and> nullptr \<notin> set (bl_read b # us @ fs) \<and>
     dom (bl_bufs b) = set (bl_read b # us @ fs) \<and>
     list_all2 (holds env (bl_size b) (bl_bufs b)) (bl_read b # us) xss \<and>
     (\<forall>a \<in> set fs. holds env (bl_size b) (bl_bufs b) a []) \<and>
     bl_write b = last (bl_read b # us)"

definition bl_rep :: "'a buf_env \<Rightarrow> 'a blist \<Rightarrow> 'a list \<Rightarrow> addr list \<Rightarrow> bool" where
  "bl_rep env b xs cs \<longleftrightarrow> (\<exists>us xss fs. bl_parts env b us xss cs fs \<and> [] \<notin> set (tl xss) \<and>
     xs = concat xss)"

lemma bl_partsD:
  assumes "bl_parts env b us xss cs fs"
  shows "pow2_size (bl_size b)" "ll_rep (bl_in_use b) us cs" "ring_rep nullptr (bl_cache b) fs"
    "distinct (bl_read b # us @ fs)" "nullptr \<notin> set (bl_read b # us @ fs)"
    "dom (bl_bufs b) = set (bl_read b # us @ fs)"
    "list_all2 (holds env (bl_size b) (bl_bufs b)) (bl_read b # us) xss"
    "\<And>a. a \<in> set fs \<Longrightarrow> holds env (bl_size b) (bl_bufs b) a []"
    "bl_write b = last (bl_read b # us)"
  using assms unfolding bl_parts_def by blast+

lemma bl_partsI:
  assumes "pow2_size (bl_size b)" "ll_rep (bl_in_use b) us cs" "ring_rep nullptr (bl_cache b) fs"
    "distinct (bl_read b # us @ fs)" "nullptr \<notin> set (bl_read b # us @ fs)"
    "dom (bl_bufs b) = set (bl_read b # us @ fs)"
    "list_all2 (holds env (bl_size b) (bl_bufs b)) (bl_read b # us) xss"
    "\<And>a. a \<in> set fs \<Longrightarrow> holds env (bl_size b) (bl_bufs b) a []"
    "bl_write b = last (bl_read b # us)"
  shows "bl_parts env b us xss cs fs"
  using assms unfolding bl_parts_def by blast

lemma holds_upd [simp]:
  "holds env sz (bufs(a \<mapsto> r)) a xs \<longleftrightarrow> ring_rep (be_emp env) r xs \<and> m_size r = sz"
  "a \<noteq> c \<Longrightarrow> holds env sz (bufs(a := v)) c xs = holds env sz bufs c xs"
  by (simp_all add: holds_def)

lemma holds_all2_upd:
  "a \<notin> set us \<Longrightarrow> list_all2 (holds env sz (bufs(a := v))) us xss = list_all2 (holds env sz bufs) us xss"
  by (induction us xss rule: list_induct2') auto

lemma holdsD:
  assumes "holds env sz bufs a xs"
  obtains r where "bufs a = Some r" "ring_rep (be_emp env) r xs" "m_size r = sz"
    "read_buf bufs a = Inr r"
  using assms by (auto simp: holds_def read_buf_def split: option.splits)

lemma ring_push_size: "ring_push emp x r = (ok, r') \<Longrightarrow> m_size r' = m_size r"
  by (auto simp: ring_push_def Let_def split: if_splits)

lemma ring_pop_size: "ring_pop emp r = (x, r') \<Longrightarrow> m_size r' = m_size r"
  by (auto simp: ring_pop_def Let_def split: if_splits)

lemma ring_reset_rep:
  assumes "ring_rep emp r xs" "fills_empty emp fill"
  shows "ring_rep emp (ring_reset emp fill r) [] \<and> m_size (ring_reset emp fill r) = m_size r"
proof -
  have sh: "ring_shape r" using assms(1) by (simp add: ring_rep_def)
  have "ring_reset emp fill r =
      r\<lparr>m_write_index := 0, m_read_index := 0, m_buf := replicate (unat (m_size r)) emp\<rparr>"
    using assms sh by (simp add: ring_reset_def ring_clear_buf ring_shape_def)
  then show ?thesis using sh by (auto simp: ring_shape_def intro!: ring_rep_cleared)
qed

text \<open>A new ring is empty, of the size asked for and in a fresh place.\<close>

lemma new_buffer_ok:
  assumes "env_ok env" "pow2_size sz" "be_alloc env bufs = Some a"
  obtains r where "new_buffer env sz bufs = Inr (a, bufs(a \<mapsto> r))" "ring_rep (be_emp env) r []"
    "m_size r = sz" "bufs a = None" "a \<noteq> nullptr"
proof -
  obtain r where r: "ring_new (be_emp env) (be_fill env) (be_rc env) (be_mem env sz) sz = Inr r"
    using assms(1,2) by (auto simp: ring_new_def pow2_size_def env_ok_def)
  have "ring_rep (be_emp env) r [] \<and> m_size r = sz"
    using ring_new_Inr [OF _ _ r] assms(1) by (simp add: env_ok_def)
  moreover have "bufs a = None \<and> a \<noteq> nullptr"
    using alloc_okD [of "be_alloc env"] assms(1,3) by (simp add: env_ok_def)
  ultimately show ?thesis using that r assms(3) by (simp add: new_buffer_def)
qed

section \<open>push\<close>

lemma push_into_write:
  assumes p: "bl_parts env b us xss cs fs" and x: "x \<noteq> be_emp env"
    and w: "bl_bufs b (bl_write b) = Some w" "ring_available (be_emp env) w"
  obtains w2 yss ys where "ring_push (be_emp env) x w = (True, w2)" "xss = yss @ [ys]"
    "bl_parts env (b\<lparr>bl_bufs := (bl_bufs b)(bl_write b \<mapsto> w2)\<rparr>) us (yss @ [ys @ [x]]) cs fs"
proof -
  have "bl_write b = last (bl_read b # us)" using p by (simp only: bl_parts_def)
  then have vs: "bl_read b # us = butlast (bl_read b # us) @ [bl_write b]"
    by (simp only: append_butlast_last_id list.distinct not_False_eq_True)
  define vs where "vs = butlast (bl_read b # us)"
  have all: "list_all2 (holds env (bl_size b) (bl_bufs b)) (vs @ [bl_write b]) xss"
    using p unfolding vs_def vs [symmetric] by (simp only: bl_parts_def)
  obtain yss ys where xss: "xss = yss @ [ys]" "length yss = length vs"
    using list_all2_lengthD [OF all] by (cases xss rule: rev_cases) auto
  have h: "list_all2 (holds env (bl_size b) (bl_bufs b)) vs yss"
    "holds env (bl_size b) (bl_bufs b) (bl_write b) ys"
    using all xss by (simp_all add: list_all2_append)
  have rep: "ring_rep (be_emp env) w ys" "m_size w = bl_size b"
    using h(2) w(1) by (simp_all add: holds_def)
  have "length ys < ring_capacity w"
    using ring_available_iff [OF rep(1)] w(2) by (simp add: ring_capacity_def)
  then obtain w2 where w2: "ring_push (be_emp env) x w = (True, w2)"
    "ring_rep (be_emp env) w2 (ys @ [x])"
    using ring.push_space [OF rep(1) x] by blast
  let ?b = "b\<lparr>bl_bufs := (bl_bufs b)(bl_write b \<mapsto> w2)\<rparr>"
  have "distinct ((bl_read b # us) @ fs)" using p by (simp add: bl_parts_def)
  then have "distinct ((vs @ [bl_write b]) @ fs)" using vs unfolding vs_def by metis
  then have nin: "bl_write b \<notin> set vs" "bl_write b \<notin> set fs" by auto
  have "list_all2 (holds env (bl_size b) (bl_bufs ?b)) (vs @ [bl_write b]) (yss @ [ys @ [x]])"
    using h(1) w2 rep(2) ring_push_size [OF w2(1)] nin(1)
    by (simp add: list_all2_append xss(2) holds_all2_upd del: fun_upd_apply)
  then have "list_all2 (holds env (bl_size b) (bl_bufs ?b)) (bl_read b # us) (yss @ [ys @ [x]])"
    using vs unfolding vs_def by metis
  then have "bl_parts env ?b us (yss @ [ys @ [x]]) cs fs"
  proof (intro bl_partsI)
    show "holds env (bl_size ?b) (bl_bufs ?b) a []" if "a \<in> set fs" for a
      using bl_partsD(8) [OF p that] nin(2) that by (auto simp: holds_def)
    show "dom (bl_bufs ?b) = set (bl_read ?b # us @ fs)"
      using w(1) bl_partsD(6) [OF p] by auto
    show "bl_write ?b = last (bl_read ?b # us)" using bl_partsD(9) [OF p] by simp
  qed (use bl_partsD(1-5) [OF p] in simp_all)
  then show ?thesis using that w2(1) xss(1) by blast
qed

lemma take_buffer_ok:
  assumes p: "bl_parts env b us xss cs fs" and ok: "env_ok env"
    and a: "be_alloc env (bl_bufs b) \<noteq> None"
  obtains buf bufs cache fs' where
    "take_buffer env (bl_size b) b = Inr (buf, b\<lparr>bl_bufs := bufs, bl_cache := cache\<rparr>)"
    "ring_rep nullptr cache fs'" "holds env (bl_size b) bufs buf []"
    "buf \<notin> set (bl_read b # us @ fs')" "buf \<noteq> nullptr"
    "dom bufs = insert buf (set (bl_read b # us @ fs'))"
    "\<forall>c \<in> set (bl_read b # us @ fs'). bufs c = bl_bufs b c" "set fs' \<subseteq> set fs" "distinct fs'"
    "card (dom bufs) \<le> Suc (card (dom (bl_bufs b)))"
proof -
  have ring: "ring_rep nullptr (bl_cache b) fs" and pow: "pow2_size (bl_size b)"
    using p by (simp_all add: bl_parts_def)
  show ?thesis
  proof (cases fs)
    case Nil
    obtain buf where "be_alloc env (bl_bufs b) = Some buf" using a by auto
    then obtain r where r: "new_buffer env (bl_size b) (bl_bufs b) = Inr (buf, (bl_bufs b)(buf \<mapsto> r))"
      "ring_rep (be_emp env) r []" "m_size r = bl_size b" "bl_bufs b buf = None" "buf \<noteq> nullptr"
      using new_buffer_ok [OF ok pow] by metis
    have dom: "dom (bl_bufs b) = set (bl_read b # us)" using p Nil by (simp add: bl_parts_def)
    then have nin: "buf \<notin> set (bl_read b # us)" using r(4) by (metis domIff)
    have "take_buffer env (bl_size b) b =
        Inr (buf, b\<lparr>bl_bufs := (bl_bufs b)(buf \<mapsto> r), bl_cache := bl_cache b\<rparr>)"
      using ring.pop_nil [OF ring [unfolded Nil]] r(1) by (simp add: take_buffer_def)
    then show ?thesis
      using r dom nin ring Nil
      by (intro that [of buf "bl_cache b" "(bl_bufs b)(buf \<mapsto> r)" "[]"]) (auto simp: card_insert_if)
  next
    case (Cons buf gs)
    obtain cache where c: "ring_pop nullptr (bl_cache b) = (buf, cache)" "ring_rep nullptr cache gs"
      using ring.pop_cons [OF ring [unfolded Cons]] by blast
    have "take_buffer env (bl_size b) b = Inr (buf, b\<lparr>bl_bufs := bl_bufs b, bl_cache := cache\<rparr>)"
      using c p Cons by (auto simp: take_buffer_def bl_parts_def)
    then show ?thesis
      using p c Cons by (intro that [of buf cache "bl_bufs b" gs]) (auto simp: bl_parts_def)
  qed
qed

lemma holds_all2_cong:
  "\<forall>c \<in> set us. bufs c = bufs' c \<Longrightarrow>
   list_all2 (holds env sz bufs) us xss = list_all2 (holds env sz bufs') us xss"
  by (induction us xss rule: list_induct2') (auto simp: holds_def)

lemma next_to_write_ok:
  assumes p: "bl_parts env b us xss [] fs" and ok: "env_ok env"
    and a: "be_alloc env (bl_bufs b) \<noteq> None" and n: "be_nodes env (ll_heap (bl_in_use b)) \<noteq> None"
  obtains buf b' fs' w where "next_to_write env (bl_size b) b = Inr (buf, b')"
    "bl_parts env (b'\<lparr>bl_write := buf\<rparr>) (us @ [buf]) (xss @ [[]]) [] fs'"
    "bl_bufs b' buf = Some w" "ring_available (be_emp env) w"
    "card (dom (bl_bufs b')) \<le> Suc (card (dom (bl_bufs b)))"
    "card (dom (ll_heap (bl_in_use b'))) = Suc (card (dom (ll_heap (bl_in_use b))))"
proof -
  obtain buf bufs cache fs' where t:
    "take_buffer env (bl_size b) b = Inr (buf, b\<lparr>bl_bufs := bufs, bl_cache := cache\<rparr>)"
    and ring: "ring_rep nullptr cache fs'" and h: "holds env (bl_size b) bufs buf []"
    and buf: "buf \<notin> set (bl_read b # us @ fs')" "buf \<noteq> nullptr"
    and dom: "dom bufs = insert buf (set (bl_read b # us @ fs'))"
    and same: "\<forall>c \<in> set (bl_read b # us @ fs'). bufs c = bl_bufs b c"
    and fs: "set fs' \<subseteq> set fs" "distinct fs'"
    and card: "card (dom bufs) \<le> Suc (card (dom (bl_bufs b)))"
    by (rule take_buffer_ok [OF p ok a])
  have nodes: "alloc_ok (be_nodes env)" using ok by (simp add: env_ok_def)
  have ll: "ll_rep (bl_in_use b) us []" using p by (simp add: bl_parts_def)
  obtain c where c: "be_nodes env (ll_heap (bl_in_use b)) = Some c" using n by auto
  obtain l' where l': "ll_push (be_nodes env) buf (bl_in_use b) = Inr l'" "ll_rep l' (us @ [buf]) []"
    "card (dom (ll_heap l')) = Suc (card (dom (ll_heap (bl_in_use b))))"
    using ll_push_fresh [OF ll nodes c] by blast
  let ?b = "b\<lparr>bl_bufs := bufs, bl_cache := cache, bl_in_use := l'\<rparr>"
  have "next_to_write env (bl_size b) b = Inr (buf, ?b)"
    using t l'(1) by (simp add: next_to_write_def)
  moreover obtain w where w: "bufs buf = Some w" "ring_rep (be_emp env) w []"
    using holdsD [OF h] by blast
  moreover have "ring_available (be_emp env) w"
    using ring_available_iff [OF w(2)] ring_shape_pos [of w] w(2) by (simp add: ring_rep_def)
  moreover note all = bl_partsD(7) [OF p]
  have same1: "\<forall>c \<in> set (bl_read b # us). bufs c = bl_bufs b c" using same by simp
  have "list_all2 (holds env (bl_size b) bufs) ((bl_read b # us) @ [buf]) (xss @ [[]])"
    using all holds_all2_cong [OF same1] h by (simp add: list_all2_appendI del: append_Cons)
  then have all': "list_all2 (holds env (bl_size b) bufs) (bl_read b # us @ [buf]) (xss @ [[]])"
    by simp
  have "bl_parts env (?b\<lparr>bl_write := buf\<rparr>) (us @ [buf]) (xss @ [[]]) [] fs'"
  proof (rule bl_partsI)
    let ?c = "?b\<lparr>bl_write := buf\<rparr>"
    have "distinct (bl_read b # (us @ [buf]) @ fs')" "nullptr \<notin> set (bl_read b # (us @ [buf]) @ fs')"
      using bl_partsD(4,5) [OF p] fs buf by auto
    then show "distinct (bl_read ?c # (us @ [buf]) @ fs')"
      "nullptr \<notin> set (bl_read ?c # (us @ [buf]) @ fs')" by simp_all
    show "dom (bl_bufs ?c) = set (bl_read ?c # (us @ [buf]) @ fs')" using dom by auto
    show "holds env (bl_size ?c) (bl_bufs ?c) a []" if "a \<in> set fs'" for a
      using bl_partsD(8) [OF p, of a] that fs(1) same by (auto simp: holds_def)
    show "list_all2 (holds env (bl_size ?c) (bl_bufs ?c)) (bl_read ?c # us @ [buf]) (xss @ [[]])"
      using all' by simp
    show "bl_write ?c = last (bl_read ?c # us @ [buf])" by simp
    show "pow2_size (bl_size ?c)" using bl_partsD(1) [OF p] by simp
  qed (use l'(2) ring in simp_all)
  then show ?thesis
    using that [of buf ?b fs' w] \<open>next_to_write env (bl_size b) b = Inr (buf, ?b)\<close> w(1)
      \<open>ring_available (be_emp env) w\<close> card l'(3) by simp
qed

lemma bl_push_rep:
  assumes rep: "bl_rep env b xs []" and x: "x \<noteq> be_emp env" and ok: "env_ok env"
    and a: "be_alloc env (bl_bufs b) \<noteq> None" and n: "be_nodes env (ll_heap (bl_in_use b)) \<noteq> None"
  shows "\<exists>b'. bl_push env x b = Inr b' \<and> bl_rep env b' (xs @ [x]) [] \<and>
    card (dom (bl_bufs b')) \<le> Suc (card (dom (bl_bufs b))) \<and>
    card (dom (ll_heap (bl_in_use b'))) \<le> Suc (card (dom (ll_heap (bl_in_use b))))"
proof -
  obtain us xss fs where p: "bl_parts env b us xss [] fs" and ne: "[] \<notin> set (tl xss)"
    and xs: "xs = concat xss"
    using rep unfolding bl_rep_def by blast
  have "bl_write b \<in> dom (bl_bufs b)"
    using bl_partsD(6,9) [OF p] last_in_set [of "bl_read b # us"] by auto
  then obtain w where w: "bl_bufs b (bl_write b) = Some w" by auto
  show ?thesis
  proof (cases "ring_available (be_emp env) w")
    case True
    obtain w2 yss ys where s: "ring_push (be_emp env) x w = (True, w2)" "xss = yss @ [ys]"
      "bl_parts env (b\<lparr>bl_bufs := (bl_bufs b)(bl_write b \<mapsto> w2)\<rparr>) us (yss @ [ys @ [x]]) [] fs"
      by (rule push_into_write [OF p x w True])
    let ?b = "b\<lparr>bl_bufs := (bl_bufs b)(bl_write b \<mapsto> w2)\<rparr>"
    have "[] \<notin> set (tl (yss @ [ys @ [x]]))" using ne s(2) by (cases yss) auto
    then have "bl_rep env ?b (xs @ [x]) []"
      unfolding bl_rep_def using s(3) xs s(2) by (intro exI conjI) auto
    moreover have "bl_push env x b = Inr ?b"
      using w True s(1) by (simp add: bl_push_def read_buf_def)
    moreover have "dom (bl_bufs ?b) = dom (bl_bufs b)" using w by auto
    ultimately show ?thesis by (intro exI [of _ ?b]) simp
  next
    case False
    obtain buf b1 fs' w1 where nxt: "next_to_write env (bl_size b) b = Inr (buf, b1)"
      and p1: "bl_parts env (b1\<lparr>bl_write := buf\<rparr>) (us @ [buf]) (xss @ [[]]) [] fs'"
      and w1: "bl_bufs b1 buf = Some w1" "ring_available (be_emp env) w1"
      and card: "card (dom (bl_bufs b1)) \<le> Suc (card (dom (bl_bufs b)))"
        "card (dom (ll_heap (bl_in_use b1))) = Suc (card (dom (ll_heap (bl_in_use b))))"
      by (rule next_to_write_ok [OF p ok a n])
    let ?b1 = "b1\<lparr>bl_write := buf\<rparr>"
    have w1': "bl_bufs ?b1 (bl_write ?b1) = Some w1" using w1(1) by simp
    obtain w2 yss ys where s: "ring_push (be_emp env) x w1 = (True, w2)" "xss @ [[]] = yss @ [ys]"
      "bl_parts env (?b1\<lparr>bl_bufs := (bl_bufs ?b1)(bl_write ?b1 \<mapsto> w2)\<rparr>) (us @ [buf])
         (yss @ [ys @ [x]]) [] fs'"
      by (rule push_into_write [OF p1 x w1' w1(2)])
    let ?b2 = "?b1\<lparr>bl_bufs := (bl_bufs ?b1)(bl_write ?b1 \<mapsto> w2)\<rparr>"
    have "[] \<notin> set (tl (xss @ [[x]]))" using ne by (cases xss) auto
    then have "bl_rep env ?b2 (xs @ [x]) []"
      unfolding bl_rep_def using s(2,3) xs by (intro exI conjI) auto
    moreover have "bl_push env x b = Inr ?b2"
      using w False s(1) nxt w1 by (simp add: bl_push_def read_buf_def)
    moreover have "dom (bl_bufs ?b2) = dom (bl_bufs b1)" using w1(1) by auto
    ultimately show ?thesis using card by (intro exI [of _ ?b2]) simp
  qed
qed

section \<open>pop\<close>

lemma pop_read_cons:
  assumes p: "bl_parts env b us ((y # ys) # xss) cs fs"
  shows "\<exists>b'. pop_read env b = Inr (y, b') \<and> bl_parts env b' us (ys # xss) cs fs"
proof -
  have "holds env (bl_size b) (bl_bufs b) (bl_read b) (y # ys)"
    using bl_partsD(7) [OF p] by simp
  then obtain r where r: "bl_bufs b (bl_read b) = Some r" "ring_rep (be_emp env) r (y # ys)"
    "m_size r = bl_size b" "read_buf (bl_bufs b) (bl_read b) = Inr r"
    by (rule holdsD)
  obtain r' where r': "ring_pop (be_emp env) r = (y, r')" "ring_rep (be_emp env) r' ys"
    using ring.pop_cons [OF r(2)] by blast
  let ?b = "b\<lparr>bl_bufs := (bl_bufs b)(bl_read b \<mapsto> r')\<rparr>"
  have nin: "bl_read b \<notin> set us" "bl_read b \<notin> set fs" using bl_partsD(4) [OF p] by simp_all
  have "bl_parts env ?b us (ys # xss) cs fs"
  proof (rule bl_partsI)
    show "holds env (bl_size ?b) (bl_bufs ?b) a []" if "a \<in> set fs" for a
      using bl_partsD(8) [OF p that] that nin(2) by (auto simp: holds_def)
    show "dom (bl_bufs ?b) = set (bl_read ?b # us @ fs)"
      using r(1) bl_partsD(6) [OF p] by auto
    have "list_all2 (holds env (bl_size b) (bl_bufs b)) us xss"
      using bl_partsD(7) [OF p] by simp
    then have "list_all2 (holds env (bl_size b) ((bl_bufs b)(bl_read b \<mapsto> r'))) us xss"
      unfolding holds_all2_upd [OF nin(1)] .
    then show "list_all2 (holds env (bl_size ?b) (bl_bufs ?b)) (bl_read ?b # us) (ys # xss)"
      using r' r(3) ring_pop_size [OF r'(1)] by (simp del: fun_upd_apply)
    show "bl_write ?b = last (bl_read ?b # us)" using bl_partsD(9) [OF p] by simp
  qed (use bl_partsD(1-5) [OF p] in simp_all)
  moreover have "pop_read env b = Inr (y, ?b)" using r(4) r'(1) by (simp add: pop_read_def)
  ultimately show ?thesis by blast
qed

text \<open>The reader takes the next ring and releases the one it has emptied.\<close>

lemma next_ring:
  assumes p: "bl_parts env b (u # us) ([] # xss) cs fs" and ok: "env_ok env"
  shows "\<exists>b1 b2 cs' fs'. next_to_read b = Inr (u, b1) \<and> bl_read b1 = bl_read b \<and>
    release env (bl_read b) b1 = Inr b2 \<and> bl_parts env (b2\<lparr>bl_read := u\<rparr>) us xss cs' fs'"
proof -
  have d: "distinct (bl_read b # u # us @ fs)" "nullptr \<notin> set (bl_read b # u # us @ fs)"
    using bl_partsD(4,5) [OF p] by simp_all
  obtain l' cs' where l': "ll_pop nullptr (bl_in_use b) = Inr (u, l')" "ll_rep l' us cs'"
    using ll_pop_cons [OF bl_partsD(2) [OF p]] by blast
  obtain r where r: "bl_bufs b (bl_read b) = Some r" "ring_rep (be_emp env) r []" "m_size r = bl_size b"
    using bl_partsD(7) [OF p] holdsD by (metis list_all2_Cons)
  define r0 where "r0 = ring_reset (be_emp env) (be_fill env) r"
  have r0: "ring_rep (be_emp env) r0 []" "m_size r0 = bl_size b"
    using ring_reset_rep [OF r(2), of "be_fill env"] r(3) ok by (simp_all add: r0_def env_ok_def)
  let ?b1 = "b\<lparr>bl_in_use := l'\<rparr>"
  let ?bufs = "(bl_bufs b)(bl_read b \<mapsto> r0)"
  have nxt: "next_to_read b = Inr (u, ?b1)" using l'(1) by (simp add: next_to_read_def)
  have rest: "list_all2 (holds env (bl_size b) (bl_bufs b)) (u # us) xss"
    using bl_partsD(7) [OF p] by simp
  have nin: "bl_read b \<notin> set (u # us)" "bl_read b \<notin> set fs" using d(1) by simp_all
  have fs: "holds env (bl_size b) (bl_bufs b) a []" if "a \<in> set fs" for a
    using bl_partsD(8) [OF p that] .
  have wr: "bl_write b = last (u # us)" using bl_partsD(9) [OF p] by simp
  have dom: "dom (bl_bufs b) = insert (bl_read b) (set (u # us @ fs))"
    using bl_partsD(6) [OF p] by simp
  have read: "bl_read b \<noteq> nullptr" using d(2) by auto
  note base = bl_partsD(1,3) [OF p]
  show ?thesis
  proof (cases "length fs < ring_capacity (bl_cache b)")
    case True
    then obtain c where c: "ring_push nullptr (bl_read b) (bl_cache b) = (True, c)"
      "ring_rep nullptr c (fs @ [bl_read b])"
      using ring.push_space [OF base(2) read] by blast
    let ?b2 = "?b1\<lparr>bl_bufs := ?bufs, bl_cache := c\<rparr>"
    have "bl_parts env (?b2\<lparr>bl_read := u\<rparr>) us xss cs' (fs @ [bl_read b])"
      (is "bl_parts env ?b3 us xss cs' _")
    proof (rule bl_partsI)
      show "holds env (bl_size ?b3) (bl_bufs ?b3) a []" if "a \<in> set (fs @ [bl_read b])" for a
        using that fs [of a] r0 nin(2) by (auto simp: holds_def)
      show "list_all2 (holds env (bl_size ?b3) (bl_bufs ?b3)) (bl_read ?b3 # us) xss"
        using rest holds_all2_upd [OF nin(1), of env "bl_size b" "bl_bufs b" "Some r0"] by simp
      show "distinct (bl_read ?b3 # us @ fs @ [bl_read b])" using d(1) by auto
      show "nullptr \<notin> set (bl_read ?b3 # us @ fs @ [bl_read b])" using d(2) by auto
      show "dom (bl_bufs ?b3) = set (bl_read ?b3 # us @ fs @ [bl_read b])" using dom by auto
    qed (use base(1) l'(2) c(2) wr in simp_all)
    moreover have "release env (bl_read b) ?b1 = Inr ?b2"
      using r(1) c(1) by (simp add: release_def read_buf_def r0_def)
    ultimately show ?thesis using nxt
      by - (rule exI [of _ ?b1], rule exI [of _ ?b2], rule exI [of _ cs'], rule exI [of _ "fs @ [bl_read b]"], simp)
  next
    case False
    then have "length fs = ring_capacity (bl_cache b)" using ring.rep_bounded [OF base(2)] by simp
    then have c: "ring_push nullptr (bl_read b) (bl_cache b) = (False, bl_cache b)"
      using ring.push_full [OF base(2)] by blast
    let ?b2 = "?b1\<lparr>bl_bufs := ?bufs(bl_read b := None), bl_cache := bl_cache b\<rparr>"
    have "bl_parts env (?b2\<lparr>bl_read := u\<rparr>) us xss cs' fs" (is "bl_parts env ?b3 us xss cs' _")
    proof (rule bl_partsI)
      show "holds env (bl_size ?b3) (bl_bufs ?b3) a []" if "a \<in> set fs" for a
        using that fs [of a] nin(2) by (auto simp: holds_def)
      show "list_all2 (holds env (bl_size ?b3) (bl_bufs ?b3)) (bl_read ?b3 # us) xss"
        using rest holds_all2_upd [OF nin(1), of env "bl_size b" "bl_bufs b" None] by simp
      show "distinct (bl_read ?b3 # us @ fs)" using d(1) by auto
      show "nullptr \<notin> set (bl_read ?b3 # us @ fs)" using d(2) by auto
      show "dom (bl_bufs ?b3) = set (bl_read ?b3 # us @ fs)" using dom nin by auto
    qed (use base l'(2) wr in simp_all)
    moreover have "release env (bl_read b) ?b1 = Inr ?b2"
      using r(1) c by (simp add: release_def read_buf_def r0_def delete_node_def)
    ultimately show ?thesis using nxt
      by - (rule exI [of _ ?b1], rule exI [of _ ?b2], rule exI [of _ cs'], rule exI [of _ fs], simp)
  qed
qed

lemma bl_pop_rep:
  assumes rep: "bl_rep env b xs cs" and ok: "env_ok env"
  shows "\<exists>b' cs'. bl_pop env b = Inr (if xs = [] then be_emp env else hd xs, b') \<and>
    bl_rep env b' (tl xs) cs'"
proof -
  obtain us xss0 fs where p0: "bl_parts env b us xss0 cs fs" and ne0: "[] \<notin> set (tl xss0)"
    and xs0: "xs = concat xss0"
    using rep unfolding bl_rep_def by blast
  obtain ys xss where xss: "xss0 = ys # xss"
    using bl_partsD(7) [OF p0] by (cases xss0) auto
  note p = p0 [unfolded xss] and ne = ne0 [unfolded xss list.sel] and xs = xs0 [unfolded xss]
  have "holds env (bl_size b) (bl_bufs b) (bl_read b) ys"
    using bl_partsD(7) [OF p] by simp
  then obtain r where r: "bl_bufs b (bl_read b) = Some r" "ring_rep (be_emp env) r ys"
    "read_buf (bl_bufs b) (bl_read b) = Inr r"
    by (rule holdsD)
  show ?thesis
  proof (cases ys)
    case (Cons z zs)
    then have "\<not> ring_empty (be_emp env) r" using ring_empty_iff [OF r(2)] by simp
    then have "bl_pop env b = pop_read env b" using r(3) by (simp add: bl_pop_def)
    moreover obtain b' where "pop_read env b = Inr (z, b')" "bl_parts env b' us (zs # xss) cs fs"
      using pop_read_cons [OF p [unfolded Cons]] by blast
    ultimately show ?thesis
      using xs ne Cons by (auto simp: bl_rep_def intro!: exI)
  next
    case Nil
    then have empty: "ring_empty (be_emp env) r" using ring_empty_iff [OF r(2)] by simp
    show ?thesis
    proof (cases us)
      case Nil
      then have "xs = []" using bl_partsD(7) [OF p] xs \<open>ys = []\<close> by simp
      moreover have "bl_pop env b = Inr (be_emp env, b)"
        using r(3) empty bl_partsD(9) [OF p] Nil by (simp add: bl_pop_def)
      ultimately show ?thesis using rep by auto
    next
      case (Cons u vs)
      obtain b1 b2 cs' fs' where s: "next_to_read b = Inr (u, b1)" "bl_read b1 = bl_read b"
        "release env (bl_read b) b1 = Inr b2" "bl_parts env (b2\<lparr>bl_read := u\<rparr>) vs xss cs' fs'"
        using next_ring [OF p [unfolded Nil Cons] ok] by blast
      obtain zs zss where zs: "xss = zs # zss" using bl_partsD(7) [OF s(4)] by (cases xss) auto
      then obtain z zs' where z: "zs = z # zs'" using ne by (cases zs) auto
      obtain b' where b': "pop_read env (b2\<lparr>bl_read := u\<rparr>) = Inr (z, b')"
        "bl_parts env b' vs (zs' # zss) cs' fs'"
        using pop_read_cons [OF s(4) [unfolded zs z]] by blast
      have "bl_write b \<in> set us" using bl_partsD(9) [OF p] Cons by simp
      then have "bl_read b \<noteq> bl_write b" using bl_partsD(4) [OF p] by auto
      moreover have "u \<noteq> nullptr" using bl_partsD(5) [OF p] Cons by auto
      ultimately have "bl_pop env b = Inr (z, b')"
        using r(3) empty s(1-3) b'(1) by (simp add: bl_pop_def)
      then show ?thesis
        using b'(2) xs ne Nil zs z by (auto simp: bl_rep_def intro!: exI)
    qed
  qed
qed

lemma bl_empty_rep:
  assumes rep: "bl_rep env b xs cs"
  shows "bl_empty env b = Inr (xs = [])"
proof -
  obtain us xss0 fs where p0: "bl_parts env b us xss0 cs fs" and ne0: "[] \<notin> set (tl xss0)"
    and xs0: "xs = concat xss0"
    using rep unfolding bl_rep_def by blast
  obtain ys xss where xss: "xss0 = ys # xss" "list_all2 (holds env (bl_size b) (bl_bufs b)) us xss"
    "holds env (bl_size b) (bl_bufs b) (bl_read b) ys"
    using bl_partsD(7) [OF p0] by (cases xss0) auto
  obtain r where r: "ring_rep (be_emp env) r ys" "read_buf (bl_bufs b) (bl_read b) = Inr r"
    using xss(3) by (rule holdsD)
  have same: "bl_read b = bl_write b \<longleftrightarrow> us = []"
    using bl_partsD(4,9) [OF p0] last_in_set [of us] by auto
  have "us = [] \<longleftrightarrow> xss = []" using xss(2) by auto
  moreover have "xs = [] \<longleftrightarrow> ys = [] \<and> xss = []"
    using xs0 ne0 xss(1) by (cases xss) auto
  ultimately show ?thesis
    using r ring_empty_iff [OF r(1)] same by (simp add: bl_empty_def)
qed

lemma bl_new_rep:
  assumes ok: "env_ok env" and sz: "pow2_size buffer_size" "pow2_size cache_size"
    and a: "be_alloc env (\<lambda>_. None) \<noteq> None" and n: "be_nodes env (\<lambda>_. None) \<noteq> None"
  shows "\<exists>b. bl_new env buffer_size cache_size False = Inr b \<and> bl_rep env b [] [] \<and>
    card (dom (bl_bufs b)) = 1 \<and> card (dom (ll_heap (bl_in_use b))) = 1"
proof -
  have rc: "be_rc env = 0" and nodes: "alloc_ok (be_nodes env)" using ok by (simp_all add: env_ok_def)
  obtain a where a1: "be_alloc env (\<lambda>_. None) = Some a" using a by auto
  obtain r where r: "new_buffer env buffer_size (\<lambda>_. None) = Inr (a, [a \<mapsto> r])"
    "ring_rep (be_emp env) r []" "m_size r = buffer_size" "a \<noteq> nullptr"
    by (rule new_buffer_ok [OF ok sz(1) a1])
  obtain c where c: "ring_new nullptr FillUnit 0 (replicate (unat cache_size) nullptr) cache_size = Inr c"
    using sz(2) by (auto simp: ring_new_def pow2_size_def)
  then have c_rep: "ring_rep nullptr c []"
    using ring_new_Inr [of nullptr FillUnit "replicate (unat cache_size) nullptr" cache_size 0 c]
    by (simp add: fills_empty_def)
  obtain c1 where c1: "ptr_ring_new 0 cache_size = Inr c1"
    using sz(2) by (auto simp: ptr_ring_new_def ring_new_def pow2_size_def)
  obtain a1 where "be_nodes env (\<lambda>_. None) = Some a1" using n by auto
  then obtain l where l: "ll_new 0 cache_size False (be_nodes env) nullptr = Inr l"
    using c1 by (simp add: ll_new_def new_lnode_def Let_def)
  have ll: "ll_rep l [] []" using ll_new_rep [OF nodes l] by simp
  let ?b = "\<lparr>bl_bufs = [a \<mapsto> r], bl_read = a, bl_write = a, bl_size = buffer_size,
    bl_in_use = l, bl_cache = c\<rparr>"
  have "bl_parts env ?b [] [[]] [] []"
    using sz(1) ll c_rep r(2-4) by (intro bl_partsI) (simp_all add: holds_def)
  then have "bl_rep env ?b [] []" unfolding bl_rep_def by (intro exI conjI) auto
  moreover have "bl_new env buffer_size cache_size False = Inr ?b"
    using r(1) l c rc by (simp add: bl_new_def Let_def)
  moreover have "card (dom (ll_heap l)) = 1" using ll by (auto simp: ll_rep_def)
  ultimately show ?thesis by - (rule exI [of _ ?b], simp)
qed

section \<open>Sequences of calls\<close>

fun bl_run ::
  "'a buf_env \<Rightarrow> 'a queue_op list \<Rightarrow> 'a blist \<Rightarrow> ('a queue_obs list \<times> 'a blist) result" where
  "bl_run env [] b = Inr ([], b)"
| "bl_run env (Push x # ops) b =
     bindE (bl_push env x b) (\<lambda>b'.
     bindE (bl_run env ops b') (\<lambda>(obs, b''). Inr (Pushed True # obs, b'')))"
| "bl_run env (Pop # ops) b =
     bindE (bl_pop env b) (\<lambda>(x, b').
     bindE (bl_run env ops b') (\<lambda>(obs, b''). Inr (Popped x # obs, b'')))"

lemma bl_run_pushes:
  assumes "bl_rep env b ys []" "env_ok env" "be_emp env \<notin> set xs"
    and "alloc_room n (be_alloc env)" "alloc_room n (be_nodes env)"
    and "card (dom (bl_bufs b)) + length xs \<le> n" "card (dom (ll_heap (bl_in_use b))) + length xs \<le> n"
  shows "\<exists>b'. bl_run env (map Push xs @ ops) b =
      bindE (bl_run env ops b') (\<lambda>(obs, b''). Inr (map (\<lambda>_. Pushed True) xs @ obs, b'')) \<and>
    bl_rep env b' (ys @ xs) []"
  using assms(1,3,6,7)
proof (induction xs arbitrary: b ys)
  case Nil
  then show ?case by (intro exI [of _ b]) (cases "bl_run env ops b", auto)
next
  case (Cons x xs)
  obtain us xss fs where p: "bl_parts env b us xss [] fs"
    using Cons.prems(1) unfolding bl_rep_def by blast
  have "finite (dom (bl_bufs b))" using bl_partsD(6) [OF p] by simp
  then have a: "be_alloc env (bl_bufs b) \<noteq> None"
    using Cons.prems(3) assms(4) unfolding alloc_room_def by fastforce
  have "finite (dom (ll_heap (bl_in_use b)))" using bl_partsD(2) [OF p] by (auto simp: ll_rep_def)
  then have n: "be_nodes env (ll_heap (bl_in_use b)) \<noteq> None"
    using Cons.prems(4) assms(5) unfolding alloc_room_def by fastforce
  obtain b1 where b1: "bl_push env x b = Inr b1" "bl_rep env b1 (ys @ [x]) []"
    "card (dom (bl_bufs b1)) \<le> Suc (card (dom (bl_bufs b)))"
    "card (dom (ll_heap (bl_in_use b1))) \<le> Suc (card (dom (ll_heap (bl_in_use b))))"
    using bl_push_rep [OF Cons.prems(1) _ assms(2) a n, of x] Cons.prems(2) by auto
  have "be_emp env \<notin> set xs" "card (dom (bl_bufs b1)) + length xs \<le> n"
    "card (dom (ll_heap (bl_in_use b1))) + length xs \<le> n"
    using b1(3,4) Cons.prems(2-4) by simp_all
  from Cons.IH [OF b1(2) this] obtain b2 where
    "bl_run env (map Push xs @ ops) b1 =
       bindE (bl_run env ops b2) (\<lambda>(obs, b''). Inr (map (\<lambda>_. Pushed True) xs @ obs, b''))"
    "bl_rep env b2 ((ys @ [x]) @ xs) []" by blast
  then show ?case
    using b1(1) by (intro exI [of _ b2]) (cases "bl_run env ops b2", auto)
qed

lemma bl_run_pops:
  assumes "bl_rep env b xs cs" "env_ok env" "length xs \<le> n"
  shows "\<exists>b' cs'. bl_run env (replicate k Pop) b =
      Inr (fst (queue_spec n (be_emp env) (replicate k Pop) xs), b') \<and> bl_rep env b' (drop k xs) cs'"
  using assms(1,3)
proof (induction k arbitrary: b xs cs)
  case 0
  then show ?case by auto
next
  case (Suc k)
  obtain b1 cs1 where b1: "bl_pop env b = Inr (if xs = [] then be_emp env else hd xs, b1)"
    "bl_rep env b1 (tl xs) cs1"
    using bl_pop_rep [OF Suc.prems(1) assms(2)] by blast
  have "length (tl xs) \<le> n" using Suc.prems(2) by simp
  from Suc.IH [OF b1(2) this] show ?case
    using b1(1) by (cases xs) (auto simp: split_def Let_def)
qed

section \<open>Properties\<close>


text \<open>An environment to evaluate the model in.\<close>

definition demo_env :: "int buf_env" where
  "demo_env = \<lparr>be_emp = -1, be_fill = FillUnit, be_rc = 0, be_mem = (\<lambda>sz. replicate (unat sz) 0),
     be_alloc = pool_alloc [1, 2, 3, 4], be_nodes = pool_alloc [1, 2, 3, 4]\<rparr>"

lemma demo_env_ok: "env_ok demo_env"
  by (simp add: demo_env_def env_ok_def fills_empty_def alloc_ok_four)


text \<open>
  Once a ring has been released, the next ring the writer queues is lost, because its list node
  is a recycled one: with rings of two elements, after 1, 2, 3 have passed through and 4, 5, 6
  been pushed, the pops deliver 4, 5 and then \<open>Empty\<close>, although \<open>empty\<close> still answers false
  and 6 was never delivered; the seventh pop reads from a ring that was freed.
\<close>

lemma bl_reuse_loses_elements:
  "(let run = (\<lambda>k. bindE (bl_new demo_env 2 2 False) (\<lambda>b.
       bindE (bl_run demo_env ([Push 1, Push 2, Push 3, Pop, Pop, Pop, Push 4, Push 5, Push 6] @
         replicate k Pop) b) (\<lambda>(obs, b').
       bindE (bl_empty demo_env b') (\<lambda>e. Inr (drop 9 obs, e)))))
    in run 5 = Inr ([Popped 4, Popped 5, Popped (-1), Popped (-1), Popped (-1)], False) \<and>
       run 7 = Inl (BadDeref 2))"
  by code_simp

end
