(* ===== verification/Distributed.thy ===== *)
theory Distributed
  imports Tagged_Ptr Node_Heap Backend_Interface
begin

text \<open>
  \<^verbatim>\<open>include/ni/cds/distributed/dynamic.hh\<close>, class \<open>LLDynamicDistributed<T>\<close>: a container
  that gives every thread a backend queue of its own and lets \<open>get\<close> take from any of them.
  The calls run one after the other, so the lock is free whenever it is taken (\<open>Dist_Concurrent\<close>
  has the same operations for any number of threads). What the code
  uses of its template argument is the argument \<open>ops\<close>; what it relies on is the locale
  \<open>backend\<close>.
\<close>

section \<open>State\<close>

text \<open>
  A \<open>Node\<close> is a tagged pointer to its backend, with tag 1 while a thread is bound to it. The
  nodes and the backends live on the heap; \<open>m_segment\<close> is an array of node pointers.
\<close>

record 'b dist =
  d_nodes :: "addr \<rightharpoonup> tagged_ptr"
  d_backends :: "addr \<rightharpoonup> 'b"
  d_segment :: "addr list"
  d_capacity :: u64
  d_length :: u64
  d_version :: u64

text \<open>The two allocations of a new node: the node and its backend.\<close>

record 'b dist_alloc =
  da_node :: "tagged_ptr alloc"
  da_backend :: "'b alloc"

definition seg_at :: "'b dist \<Rightarrow> u64 \<Rightarrow> addr result" where
  "seg_at d i = (if unat i < length (d_segment d) then Inr (d_segment d ! unat i) else Inl (BadIndex i))"

definition seg_set :: "u64 \<Rightarrow> addr \<Rightarrow> 'b dist \<Rightarrow> 'b dist result" where
  "seg_set i a d =
     (if unat i < length (d_segment d) then Inr (d\<lparr>d_segment := (d_segment d)[unat i := a]\<rparr>)
      else Inl (BadIndex i))"

definition node_at :: "'b dist \<Rightarrow> addr \<Rightarrow> tagged_ptr result" where
  "node_at d n = (case d_nodes d n of None \<Rightarrow> Inl (BadDeref n) | Some p \<Rightarrow> Inr p)"

definition node_backend :: "'b dist \<Rightarrow> addr \<Rightarrow> addr result" where
  "node_backend d n = bindE (node_at d n) (\<lambda>p. Inr (tp_value p))"

definition node_alive :: "'b dist \<Rightarrow> addr \<Rightarrow> bool result" where
  "node_alive d n = bindE (node_at d n) (\<lambda>p. Inr (tp_tag p = 1))"

definition turn_off :: "addr \<Rightarrow> 'b dist \<Rightarrow> 'b dist result" where
  "turn_off n d =
     bindE (node_at d n) (\<lambda>p. Inr (d\<lparr>d_nodes := (d_nodes d)(n \<mapsto> tp_clear_tag p)\<rparr>))"

definition backend_at :: "'b dist \<Rightarrow> addr \<Rightarrow> 'b result" where
  "backend_at d b = (case d_backends d b of None \<Rightarrow> Inl (BadDeref b) | Some q \<Rightarrow> Inr q)"

definition store_backend :: "addr \<Rightarrow> 'b \<Rightarrow> 'b dist \<Rightarrow> 'b dist" where
  "store_backend b q d = d\<lparr>d_backends := (d_backends d)(b \<mapsto> q)\<rparr>"

text \<open>\<open>node->backend()->empty()\<close>\<close>

definition node_empty :: "('b, 'e) backend_ops \<Rightarrow> 'b dist \<Rightarrow> addr \<Rightarrow> bool result" where
  "node_empty ops d n =
     bindE (node_backend d n) (\<lambda>b. bindE (backend_at d b) (\<lambda>q. backend_empty ops q))"

definition dist_node_new ::
  "('b, 'e) backend_ops \<Rightarrow> 'b dist_alloc \<Rightarrow> 'b dist \<Rightarrow> (addr \<times> 'b dist) result" where
  "dist_node_new ops al d =
     (case da_node al (d_nodes d) of
        None \<Rightarrow> Inl BadAlloc
      | Some n \<Rightarrow>
          (case da_backend al (d_backends d) of
             None \<Rightarrow> Inl BadAlloc
           | Some b \<Rightarrow>
               bindE (backend_new ops) (\<lambda>q.
               bindE (tp_make b 1) (\<lambda>p.
               Inr (n, d\<lparr>d_nodes := (d_nodes d)(n \<mapsto> p), d_backends := (d_backends d)(b \<mapsto> q)\<rparr>)))))"

definition dist_node_delete :: "addr \<Rightarrow> 'b dist \<Rightarrow> 'b dist result" where
  "dist_node_delete n d =
     bindE (node_backend d n) (\<lambda>b.
     bindE (delete_node b (d_backends d)) (\<lambda>backends.
     bindE (delete_node n (d_nodes d)) (\<lambda>nodes.
     Inr (d\<lparr>d_nodes := nodes, d_backends := backends\<rparr>))))"

section \<open>Operations\<close>

definition dist_new :: "int \<Rightarrow> u64 \<Rightarrow> 'b dist result" where
  "dist_new rc segment_capacity =
     (if rc \<noteq> 0 then Inl (SystemError rc)
      else Inr \<lparr>d_nodes = (\<lambda>_. None), d_backends = (\<lambda>_. None),
                d_segment = replicate (unat segment_capacity) nullptr,
                d_capacity = segment_capacity, d_length = 0, d_version = 0\<rparr>)"

fun dist_delete :: "nat \<Rightarrow> 'b dist \<Rightarrow> 'b dist result" where
  "dist_delete 0 d = Inl OutOfFuel"
| "dist_delete (Suc fuel) d =
     (if d_length d > 0 then
        let d1 = d\<lparr>d_length := d_length d - 1\<rparr> in
        bindE (seg_at d1 (d_length d1)) (\<lambda>node.
        bindE (assertE (node \<noteq> nullptr)) (\<lambda>_.
        bindE (dist_node_delete node d1) (dist_delete fuel)))
      else Inr d)"

definition remove_backend :: "('b, 'e) backend_ops \<Rightarrow> u64 \<Rightarrow> 'b dist \<Rightarrow> 'b dist result" where
  "remove_backend ops index d =
     bindE (seg_at d index) (\<lambda>node.
     if node = nullptr then Inr d else
     bindE (node_alive d node) (\<lambda>alive.
     if alive then Inr d else
     bindE (node_empty ops d node) (\<lambda>empty.
     if \<not> empty then Inr d else
     bindE (dist_node_delete node d) (\<lambda>d1.
     let d2 = d1\<lparr>d_length := d_length d1 - 1\<rparr> in
     bindE (seg_at d2 (d_length d2)) (\<lambda>last_node.
     bindE (seg_set index last_node d2) (\<lambda>d3.
     bindE (seg_set (d_length d3) nullptr d3) (\<lambda>d4.
     Inr (d4\<lparr>d_version := d_version d4 + 1\<rparr>))))))))"

text \<open>
  The loop of \<open>put\<close> over a full segment. \<open>get\<close> and \<open>put\<close> return the thread's
  \<open>BackendPtr\<close> (null while no backend is bound) with the new state.
\<close>

fun dist_purge :: "nat \<Rightarrow> ('b, 'e) backend_ops \<Rightarrow> u64 \<Rightarrow> 'b dist \<Rightarrow> 'b dist result" where
  "dist_purge 0 ops i d = Inl OutOfFuel"
| "dist_purge (Suc fuel) ops i d =
     (if i < d_length d then
        bindE (seg_at d i) (\<lambda>node.
        bindE (node_alive d node) (\<lambda>alive.
        bindE (if \<not> alive then node_empty ops d node else Inr False) (\<lambda>remove.
        bindE (if remove then remove_backend ops i d else Inr d) (dist_purge fuel ops (i + 1)))))
      else Inr d)"

definition dist_put ::
  "('b, 'e) backend_ops \<Rightarrow> 'b dist_alloc \<Rightarrow> addr \<Rightarrow> 'e \<Rightarrow> 'b dist \<Rightarrow> (bool \<times> addr \<times> 'b dist) result" where
  "dist_put ops al local element d =
     bindE
       (if local = nullptr then
          bindE (if d_length d \<ge> d_capacity d then dist_purge (unat (d_length d) + 1) ops 0 d
                 else Inr d) (\<lambda>d1.
          if d_length d1 \<ge> d_capacity d1 then Inr (nullptr, d1)
          else
            bindE (dist_node_new ops al d1) (\<lambda>(node, d2).
            bindE (seg_set (d_length d2) node d2) (\<lambda>d3.
            Inr (node, d3\<lparr>d_length := d_length d3 + 1, d_version := d_version d3 + 1\<rparr>))))
        else Inr (local, d))
       (\<lambda>(local', d').
     if local' = nullptr then Inr (False, local', d')
     else
       bindE (node_backend d' local') (\<lambda>b.
       bindE (backend_at d' b) (\<lambda>q.
       bindE (backend_put ops element q) (\<lambda>(ok, q').
       Inr (ok, local', store_backend b q' d')))))"

text \<open>
  The first loop over the segment in \<open>get\<close>: it delivers an element, or has removed a backend
  and goes to \<open>RETRY\<close>, or ends with the tail states read; the array of these starts out
  uninitialised, as the initial list says.
\<close>

datatype scan = Found | Retry | Tails "u16 list"

fun scan_pops ::
  "('b, 'e) backend_ops \<Rightarrow> nat \<Rightarrow> u64 \<Rightarrow> u64 \<Rightarrow> 'e \<Rightarrow> u16 list \<Rightarrow> 'b dist \<Rightarrow>
   (scan \<times> 'e \<times> 'b dist) result" where
  "scan_pops ops 0 start i element tails d = Inr (Tails tails, element, d)"
| "scan_pops ops (Suc n) start i element tails d =
     (let index = (start + i) mod d_length d in
      bindE (seg_at d index) (\<lambda>node.
      bindE (node_backend d node) (\<lambda>b.
      if b = nullptr then scan_pops ops n start (i + 1) element tails d
      else
        bindE (backend_at d b) (\<lambda>q.
        bindE (backend_pop ops element (tails ! unat i) q) (\<lambda>(ok, element', s, q').
        let d' = store_backend b q' d; tails' = tails[unat i := s] in
        if ok then Inr (Found, element', d')
        else
          bindE (node_alive d' node) (\<lambda>alive.
          if \<not> alive then
            bindE (remove_backend ops index d') (\<lambda>d''. Inr (Retry, element', d''))
          else scan_pops ops n start (i + 1) element' tails' d'))))))"

text \<open>The second loop: whether some tail state has changed.\<close>

fun scan_tails ::
  "('b, 'e) backend_ops \<Rightarrow> nat \<Rightarrow> u64 \<Rightarrow> u64 \<Rightarrow> u16 list \<Rightarrow> 'b dist \<Rightarrow> bool result" where
  "scan_tails ops 0 start i tails d = Inr False"
| "scan_tails ops (Suc n) start i tails d =
     (let index = (start + i) mod d_length d in
      bindE (seg_at d index) (\<lambda>node.
      bindE (node_backend d node) (\<lambda>b.
      if b = nullptr then scan_tails ops n start (i + 1) tails d
      else
        bindE (backend_at d b) (\<lambda>q.
        if backend_tail_state ops q \<noteq> tails ! unat i then Inr True
        else scan_tails ops n start (i + 1) tails d))))"

text \<open>
  The loop of \<open>get\<close>. The generator of the third-party library is the argument \<open>rnd\<close>: its
  \<open>k\<close>-th number; \<open>junk\<close> is what the uninitialised array holds.
\<close>

fun dist_get_loop ::
  "nat \<Rightarrow> ('b, 'e) backend_ops \<Rightarrow> (nat \<Rightarrow> u64) \<Rightarrow> u16 \<Rightarrow> nat \<Rightarrow> 'e \<Rightarrow> 'b dist \<Rightarrow>
   (bool \<times> 'e \<times> 'b dist) result" where
  "dist_get_loop 0 ops rnd junk k element d = Inl OutOfFuel"
| "dist_get_loop (Suc fuel) ops rnd junk k element d =
     (if d_length d = 0 then Inr (False, element, d)
      else
        let start = rnd k mod d_length d; version = d_version d in
        bindE (scan_pops ops (unat (d_length d)) start 0 element
            (replicate (unat (d_length d)) junk) d) (\<lambda>(r, element', d').
        case r of
          Found \<Rightarrow> Inr (True, element', d')
        | Retry \<Rightarrow> dist_get_loop fuel ops rnd junk (Suc k) element' d'
        | Tails tails \<Rightarrow>
            if d_version d' \<noteq> version then dist_get_loop fuel ops rnd junk (Suc k) element' d'
            else
              bindE (scan_tails ops (unat (d_length d')) start 0 tails d') (\<lambda>changed.
              if changed then dist_get_loop fuel ops rnd junk (Suc k) element' d'
              else Inr (False, element', d'))))"

definition dist_get ::
  "nat \<Rightarrow> ('b, 'e) backend_ops \<Rightarrow> (nat \<Rightarrow> u64) \<Rightarrow> u16 \<Rightarrow> addr \<Rightarrow> 'e \<Rightarrow> 'b dist \<Rightarrow>
   (bool \<times> 'e \<times> 'b dist) result" where
  "dist_get fuel ops rnd junk local element d =
     bindE
       (if local \<noteq> nullptr then
          bindE (node_backend d local) (\<lambda>b.
          bindE (backend_at d b) (\<lambda>q.
          bindE (backend_get ops element q) (\<lambda>(ok, element', q').
          Inr (ok, element', store_backend b q' d))))
        else Inr (False, element, d)) (\<lambda>(ok, element', d').
     if ok then Inr (True, element', d')
     else dist_get_loop fuel ops rnd junk 0 element' d')"

fun dereg_loop :: "nat \<Rightarrow> ('b, 'e) backend_ops \<Rightarrow> u64 \<Rightarrow> addr \<Rightarrow> 'b dist \<Rightarrow> 'b dist result" where
  "dereg_loop 0 ops i node d = Inl OutOfFuel"
| "dereg_loop (Suc fuel) ops i node d =
     (if i < d_length d then
        bindE (seg_at d i) (\<lambda>a.
        if a = node then remove_backend ops i d else dereg_loop fuel ops (i + 1) node d)
      else Inr d)"

definition deregister_thread ::
  "('b, 'e) backend_ops \<Rightarrow> addr \<Rightarrow> 'b dist \<Rightarrow> (addr \<times> 'b dist) result" where
  "deregister_thread ops local d =
     (if local = nullptr then Inr (local, d)
      else
        let node = local in
        bindE (turn_off node d) (\<lambda>d1.
        bindE (node_empty ops d1 node) (\<lambda>empty.
        if \<not> empty then Inr (nullptr, d1)
        else bindE (dereg_loop (unat (d_length d1) + 1) ops 0 node d1) (\<lambda>d2. Inr (nullptr, d2)))))"

end
