(* ===== verification/Distributed_Spec.thy ===== *)
theory Distributed_Spec
  imports Distributed MS_Queue_Spec
begin

text \<open>
  What \<open>LLDynamicDistributed\<close> promises over any backend that satisfies the laws: elements stay
  in the backend of the thread that put them, in order, \<open>get\<close> fails exactly when every backend
  is empty, and only dead and empty backends are removed; and the same for \<open>MSQueue\<close> as the
  backend.
\<close>

section \<open>Representation\<close>

text \<open>
  \<open>dist_rep brep d ns M\<close>: the segment holds the nodes \<open>ns\<close>, and \<open>M\<close> gives for each whether it
  is bound to a thread and what its backend holds.
\<close>

definition backend_ptr :: "'b dist \<Rightarrow> addr \<Rightarrow> addr" where
  "backend_ptr d n = (case d_nodes d n of None \<Rightarrow> nullptr | Some p \<Rightarrow> tp_value p)"

definition entry_ok ::
  "('b \<Rightarrow> 'e list \<Rightarrow> bool) \<Rightarrow> 'b dist \<Rightarrow> addr \<Rightarrow> bool \<Rightarrow> 'e list \<Rightarrow> bool" where
  "entry_ok brep d n al xs \<longleftrightarrow>
     (\<exists>p q. d_nodes d n = Some p \<and> tp_tag p = (if al then 1 else 0) \<and> tp_value p \<noteq> nullptr \<and>
        d_backends d (tp_value p) = Some q \<and> brep q xs)"

definition dist_rep ::
  "('b \<Rightarrow> 'e list \<Rightarrow> bool) \<Rightarrow> 'b dist \<Rightarrow> addr list \<Rightarrow> (addr \<rightharpoonup> bool \<times> 'e list) \<Rightarrow> bool" where
  "dist_rep brep d ns M \<longleftrightarrow>
     d_segment d = ns @ replicate (unat (d_capacity d) - length ns) nullptr \<and>
     unat (d_length d) = length ns \<and> length ns \<le> unat (d_capacity d) \<and>
     unat (d_capacity d) < 2 ^ 60 \<and> distinct ns \<and> nullptr \<notin> set ns \<and>
     dom (d_nodes d) = set ns \<and> dom M = set ns \<and>
     inj_on (backend_ptr d) (set ns) \<and> dom (d_backends d) = backend_ptr d ` set ns \<and>
     (\<forall>n al xs. M n = Some (al, xs) \<longrightarrow> entry_ok brep d n al xs)"

lemma dist_repD:
  assumes "dist_rep brep d ns M"
  shows "d_segment d = ns @ replicate (unat (d_capacity d) - length ns) nullptr"
    "unat (d_length d) = length ns" "length ns \<le> unat (d_capacity d)" "unat (d_capacity d) < 2 ^ 60"
    "distinct ns" "nullptr \<notin> set ns" "dom (d_nodes d) = set ns" "dom M = set ns"
    "inj_on (backend_ptr d) (set ns)" "dom (d_backends d) = backend_ptr d ` set ns"
    "\<And>n al xs. M n = Some (al, xs) \<Longrightarrow> entry_ok brep d n al xs"
  using assms unfolding dist_rep_def by - ((elim conjE, assumption)+, elim conjE, simp)

lemma dist_repI:
  assumes "d_segment d = ns @ replicate (unat (d_capacity d) - length ns) nullptr"
    "unat (d_length d) = length ns" "length ns \<le> unat (d_capacity d)" "unat (d_capacity d) < 2 ^ 60"
    "distinct ns" "nullptr \<notin> set ns" "dom (d_nodes d) = set ns" "dom M = set ns"
    "inj_on (backend_ptr d) (set ns)" "dom (d_backends d) = backend_ptr d ` set ns"
    "\<And>n al xs. M n = Some (al, xs) \<Longrightarrow> entry_ok brep d n al xs"
  shows "dist_rep brep d ns M"
  unfolding dist_rep_def by (intro conjI assms(1-10)) (intro allI impI, rule assms(11))

text \<open>Looking up a node of the segment.\<close>

lemma dist_rep_node:
  assumes rep: "dist_rep brep d ns M" and M: "M n = Some (al, xs)"
  obtains q where "node_at d n = Inr (the (d_nodes d n))" "node_alive d n = Inr al"
    "node_backend d n = Inr (backend_ptr d n)" "backend_ptr d n \<noteq> nullptr"
    "backend_at d (backend_ptr d n) = Inr q" "brep q xs"
    "d_backends d (backend_ptr d n) = Some q" "n \<in> set ns" "n \<noteq> nullptr"
proof -
  obtain p q where p: "d_nodes d n = Some p" "tp_tag p = (if al then 1 else 0)" "tp_value p \<noteq> nullptr"
    "d_backends d (tp_value p) = Some q" "brep q xs"
    using dist_repD(11) [OF rep M] by (auto simp: entry_ok_def)
  have "n \<in> set ns" using dist_repD(8) [OF rep] M by auto
  moreover from this have "n \<noteq> nullptr" using dist_repD(6) [OF rep] by auto
  ultimately show ?thesis
    using that p
    by (simp add: node_at_def node_alive_def node_backend_def backend_ptr_def backend_at_def)
qed

lemma seg_at_rep:
  assumes "dist_rep brep d ns M" "unat i < length ns"
  shows "seg_at d i = Inr (ns ! unat i)"
  using dist_repD(1,3) [OF assms(1)] assms(2) by (simp add: seg_at_def nth_append)

text \<open>Changing what one backend holds.\<close>

lemma store_backend_rep:
  assumes rep: "dist_rep brep d ns M" and M: "M n = Some (al, xs)" and q: "brep q xs'"
  shows "dist_rep brep (store_backend (backend_ptr d n) q d) ns (M(n \<mapsto> (al, xs')))"
proof -
  let ?d = "store_backend (backend_ptr d n) q d"
  have ptr: "backend_ptr ?d = backend_ptr d"
    by (simp add: backend_ptr_def store_backend_def fun_eq_iff)
  have n: "n \<in> set ns" using dist_repD(8) [OF rep] M by auto
  have other: "backend_ptr d m \<noteq> backend_ptr d n" if "m \<in> set ns" "m \<noteq> n" for m
    using inj_onD [OF dist_repD(9) [OF rep]] that n by blast
  show ?thesis
  proof (rule dist_repI)
    fix m al' ys
    assume m: "(M(n \<mapsto> (al, xs'))) m = Some (al', ys)"
    show "entry_ok brep ?d m al' ys"
    proof (cases "m = n")
      case True
      with m dist_repD(11) [OF rep M] q show ?thesis
        by (auto simp: entry_ok_def store_backend_def backend_ptr_def)
    next
      case False
      with m have Mm: "M m = Some (al', ys)" by simp
      then have "m \<in> set ns" using dist_repD(8) [OF rep] by auto
      with dist_repD(11) [OF rep Mm] other [of m] False show ?thesis
        by (auto simp: entry_ok_def store_backend_def backend_ptr_def)
    qed
  next
    have "dom (d_backends ?d) = insert (backend_ptr d n) (dom (d_backends d))"
      by (simp add: store_backend_def)
    then show "dom (d_backends ?d) = backend_ptr ?d ` set ns"
      unfolding ptr dist_repD(10) [OF rep] using n by auto
    show "dom (M(n \<mapsto> (al, xs'))) = set ns" using dist_repD(8) [OF rep] n by auto
  qed (use dist_repD(1-7,9) [OF rep] in \<open>simp_all add: ptr, simp_all add: store_backend_def\<close>)
qed

lemma store_same: "d_backends d b = Some q \<Longrightarrow> store_backend b q d = d"
  by (simp add: store_backend_def fun_upd_idem)

lemma swap_last:
  assumes "distinct ns" "i < length ns"
  shows "distinct ((butlast ns)[i := last ns])" "set ((butlast ns)[i := last ns]) = set ns - {ns ! i}"
proof -
  obtain ms z where ns: "ns = ms @ [z]" using assms(2) by (cases ns rule: rev_cases) auto
  have "distinct ((butlast ns)[i := last ns]) \<and> set ((butlast ns)[i := last ns]) = set ns - {ns ! i}"
  proof (cases "i < length ms")
    case True
    then have "set (ms[i := z]) = insert z (set ms - {ms ! i})"
      using assms(1) ns by (simp add: set_update_distinct)
    moreover have "ms ! i \<noteq> z" using True assms(1) ns nth_mem by auto
    ultimately show ?thesis
      using True assms(1) ns by (auto simp: nth_append intro: distinct_list_update)
  next
    case False
    then have "i = length ms" using assms(2) ns by simp
    then show ?thesis using assms(1) ns by (auto simp: list_update_beyond)
  qed
  then show "distinct ((butlast ns)[i := last ns])"
    "set ((butlast ns)[i := last ns]) = set ns - {ns ! i}" by simp_all
qed

lemma segment_swap:
  assumes "i < length ns" "length ns \<le> c"
  shows "((ns @ replicate (c - length ns) a)[i := last ns])[length ns - 1 := a] =
    (butlast ns)[i := last ns] @ replicate (c - (length ns - 1)) a"
proof -
  obtain ms z where ns: "ns = ms @ [z]" using assms(1) by (cases ns rule: rev_cases) auto
  have "replicate (c - length ms) a = a # replicate (c - Suc (length ms)) a"
    using assms(2) ns by (metis Suc_diff_Suc Suc_le_lessD length_append_singleton replicate_Suc)
  then show ?thesis
    using assms(1) ns by (cases "i = length ms") (simp_all add: list_update_append list_update_beyond)
qed

section \<open>Removing a backend\<close>

lemma unat_pred: "0 < unat (w :: u64) \<Longrightarrow> unat (w - 1) = unat w - 1"
  by (simp add: unat_sub word_le_nat_alt)

lemma dist_node_delete_rep:
  assumes rep: "dist_rep brep d ns M" and M: "M n = Some e"
  shows "dist_node_delete n d = Inr (d\<lparr>d_nodes := (d_nodes d)(n := None),
    d_backends := (d_backends d)(backend_ptr d n := None)\<rparr>)"
proof -
  obtain al xs where e: "M n = Some (al, xs)" using M by (cases e) auto
  obtain q where q: "node_backend d n = Inr (backend_ptr d n)" "d_backends d (backend_ptr d n) = Some q"
    "n \<in> set ns"
    by (rule dist_rep_node [OF rep e])
  obtain p where "d_nodes d n = Some p" using dist_repD(7) [OF rep] q(3) by auto
  then show ?thesis using q by (simp add: dist_node_delete_def delete_node_def)
qed

context backend
begin

lemma node_empty_rep:
  assumes "dist_rep brep d ns M" "M n = Some (al, xs)"
  shows "node_empty ops d n = Inr (xs = [])"
proof -
  obtain q where "node_backend d n = Inr (backend_ptr d n)"
    "backend_at d (backend_ptr d n) = Inr q" "brep q xs"
    by (rule dist_rep_node [OF assms])
  then show ?thesis by (simp add: node_empty_def empty_rep)
qed

lemma remove_backend_keeps:
  assumes rep: "dist_rep brep d ns M" and i: "unat i < length ns"
    and M: "M (ns ! unat i) = Some (al, xs)" and keep: "al \<or> xs \<noteq> []"
  shows "remove_backend ops i d = Inr d"
proof -
  have "node_alive d (ns ! unat i) = Inr al" by (rule dist_rep_node [OF rep M])
  moreover have "ns ! unat i \<noteq> nullptr" by (rule dist_rep_node [OF rep M])
  ultimately show ?thesis
    using seg_at_rep [OF rep i] node_empty_rep [OF rep M] keep
    by (auto simp: remove_backend_def)
qed

lemma remove_backend_removes:
  assumes rep: "dist_rep brep d ns M" and i: "unat i < length ns"
    and M: "M (ns ! unat i) = Some (False, [])"
  shows "\<exists>d'. remove_backend ops i d = Inr d' \<and> d_capacity d' = d_capacity d \<and>
    dist_rep brep d' ((butlast ns)[unat i := last ns]) (M(ns ! unat i := None))"
proof -
  let ?n = "ns ! unat i" and ?ns = "(butlast ns)[unat i := last ns]" and ?k = "length ns"
  let ?c = "unat (d_capacity d)"
  let ?d1 = "d\<lparr>d_nodes := (d_nodes d)(?n := None), d_backends := (d_backends d)(backend_ptr d ?n := None)\<rparr>"
  obtain q where n: "node_alive d ?n = Inr False" "?n \<noteq> nullptr" "?n \<in> set ns" and "brep q []"
    by (rule dist_rep_node [OF rep M])
  have "0 < ?k" using i by (rule le_less_trans [OF le0])
  then have len: "unat (d_length d - 1) = ?k - 1" "?k \<le> ?c" "0 < ?k"
    using dist_repD(2,3) [OF rep] unat_pred [of "d_length d"] by simp_all
  have seg: "length (d_segment d) = ?c" "d_segment d ! (?k - 1) = last ns"
    using dist_repD(1,3) [OF rep] len(3) by (simp_all add: nth_append last_conv_nth)
  let ?d' = "?d1\<lparr>d_length := d_length d - 1,
    d_segment := (d_segment d)[unat i := last ns, ?k - 1 := nullptr], d_version := d_version d + 1\<rparr>"
  have "remove_backend ops i d = Inr ?d'"
    using seg_at_rep [OF rep i] n node_empty_rep [OF rep M] dist_node_delete_rep [OF rep M] len seg i
    by (simp add: remove_backend_def Let_def seg_at_def [of "d_length_update _ _"] seg_set_def)
  moreover have ptr: "backend_ptr ?d' m = backend_ptr d m" if "m \<noteq> ?n" for m
    using that by (simp add: backend_ptr_def)
  have sw: "distinct ?ns" "set ?ns = set ns - {?n}"
    using swap_last [OF dist_repD(5) [OF rep] i] by simp_all
  have inj: "backend_ptr d m \<noteq> backend_ptr d ?n" if "m \<in> set ns" "m \<noteq> ?n" for m
    using inj_onD [OF dist_repD(9) [OF rep]] that n(3) by blast
  have "dist_rep brep ?d' ?ns (M(?n := None))"
  proof (rule dist_repI)
    show "d_segment ?d' = ?ns @ replicate (unat (d_capacity ?d') - length ?ns) nullptr"
      using segment_swap [OF i len(2), of nullptr] dist_repD(1) [OF rep] by simp
    show "dom (d_nodes ?d') = set ?ns" "dom (M(?n := None)) = set ?ns"
      using sw(2) dist_repD(7,8) [OF rep] by simp_all
    have im: "backend_ptr ?d' ` set ?ns = backend_ptr d ` (set ns - {?n})"
      unfolding sw(2) using ptr by (intro image_cong) auto
    show "inj_on (backend_ptr ?d') (set ?ns)"
      unfolding sw(2) using inj_on_subset [OF dist_repD(9) [OF rep]] ptr
      by (subst inj_on_cong [where g = "backend_ptr d"]) auto
    have "backend_ptr d ` (set ns - {?n}) = backend_ptr d ` set ns - {backend_ptr d ?n}"
      using inj by auto
    then show "dom (d_backends ?d') = backend_ptr ?d' ` set ?ns"
      unfolding im using dist_repD(10) [OF rep] by simp
    show "entry_ok brep ?d' m al xs" if m: "(M(?n := None)) m = Some (al, xs)" for m al xs
    proof -
      have ne: "m \<noteq> ?n" and Mm: "M m = Some (al, xs)" using m by (auto split: if_splits)
      have "m \<in> set ns" using dist_repD(8) [OF rep] Mm by auto
      with dist_repD(11) [OF rep Mm] inj [of m] ne show ?thesis
        by (auto simp: entry_ok_def backend_ptr_def)
    qed
  qed (use len sw(1) dist_repD(4,6) [OF rep] in \<open>simp_all add: sw(2)\<close>)
  ultimately show ?thesis by (intro exI [of _ ?d']) simp
qed

end

section \<open>Specification\<close>

text \<open>
  What \<open>get\<close> may answer over the entries \<open>M\<close>: it takes the first element of some backend, or
  fails because every backend is empty; it may drop entries that are dead and empty, and when it
  fails it has dropped all of them.
\<close>

definition droppable :: "(addr \<rightharpoonup> bool \<times> 'e list) \<Rightarrow> addr set" where
  "droppable M = {n. M n = Some (False, [])}"

definition get_outcome ::
  "(addr \<rightharpoonup> bool \<times> 'e list) \<Rightarrow> 'e \<Rightarrow> bool \<Rightarrow> 'e \<Rightarrow> (addr \<rightharpoonup> bool \<times> 'e list) \<Rightarrow> bool" where
  "get_outcome M e ok e' M' \<longleftrightarrow>
     (if ok then
        (\<exists>m al xs R. M m = Some (al, e' # xs) \<and> R \<subseteq> droppable M \<and>
           M' = (M(m \<mapsto> (al, xs))) |` (- R))
      else e' = e \<and> (\<forall>m al xs. M m = Some (al, xs) \<longrightarrow> xs = []) \<and> M' = M |` (- droppable M))"

lemma restrict_map_UNIV: "M |` UNIV = M"
  by (rule ext) simp

lemma get_outcome_drop:
  assumes "get_outcome (M(n := None)) e ok e' M'" "n \<in> droppable M"
  shows "get_outcome M e ok e' M'"
proof (cases ok)
  case True
  then obtain m al xs R where o: "(M(n := None)) m = Some (al, e' # xs)" "R \<subseteq> droppable (M(n := None))"
    "M' = ((M(n := None))(m \<mapsto> (al, xs))) |` (- R)"
    using assms(1) by (auto simp: get_outcome_def)
  have m: "m \<noteq> n" "M m = Some (al, e' # xs)" using o(1) by (auto split: if_splits)
  have "M' = (M(m \<mapsto> (al, xs))) |` (- (insert n R))"
    using m(1) by (auto simp: o(3) restrict_map_def fun_eq_iff)
  moreover have "insert n R \<subseteq> droppable M"
    using o(2) assms(2) by (auto simp: droppable_def split: if_splits)
  ultimately show ?thesis using True m(2) unfolding get_outcome_def by (simp only: if_True) blast
next
  case False
  then have o: "e' = e" "\<And>m al xs. (M(n := None)) m = Some (al, xs) \<Longrightarrow> xs = []"
    "M' = (M(n := None)) |` (- droppable (M(n := None)))"
    using assms(1) by (auto simp: get_outcome_def)
  have "M' = M |` (- droppable M)"
    using assms(2) by (auto simp: o(3) restrict_map_def fun_eq_iff droppable_def)
  moreover have "xs = []" if "M m = Some (al, xs)" for m al xs
    using that o(2) [of m al xs] assms(2) by (cases "m = n") (auto simp: droppable_def)
  ultimately show ?thesis using False o(1) unfolding get_outcome_def by auto
qed

section \<open>get\<close>

lemma scan_index:
  assumes rep: "dist_rep brep d ns M" and s: "unat start < length ns" and i: "unat i < length ns"
  shows "unat ((start + i) mod d_length d) = (unat start + unat i) mod length ns"
    "(unat start + unat i) mod length ns < length ns"
proof -
  have "unat start + unat i < 2 ^ 64"
    using s i dist_repD(3,4) [OF rep] by simp
  then have "unat (start + i) = unat start + unat i" by (simp add: unat_word_ariths)
  then show "unat ((start + i) mod d_length d) = (unat start + unat i) mod length ns"
    by (simp add: unat_mod dist_repD(2) [OF rep])
  show "(unat start + unat i) mod length ns < length ns"
    using s by (intro mod_less_divisor) linarith
qed

lemma mod_rotation_onto:
  assumes "j < k"
  shows "\<exists>i < k. (s + i) mod k = (j :: nat)"
proof -
  have "0 < k" using assms by simp
  have "inj_on (\<lambda>i. (s + i) mod k) {..< k}"
    using mod_add_cancel_less by (auto simp: inj_on_def)
  moreover have "(\<lambda>i. (s + i) mod k) ` {..< k} \<subseteq> {..< k}" using \<open>0 < k\<close> by auto
  ultimately have "(\<lambda>i. (s + i) mod k) ` {..< k} = {..< k}" by (intro endo_inj_surj) simp_all
  then show ?thesis using assms by (metis (no_types, lifting) imageE lessThan_iff)
qed

definition tail_of :: "('b, 'e) backend_ops \<Rightarrow> 'b dist \<Rightarrow> addr \<Rightarrow> u16" where
  "tail_of ops d n = backend_tail_state ops (the (d_backends d (backend_ptr d n)))"

definition scanned :: "('b, 'e) backend_ops \<Rightarrow> 'b dist \<Rightarrow> addr list \<Rightarrow> (addr \<rightharpoonup> bool \<times> 'e list) \<Rightarrow> nat \<Rightarrow> u16 list \<Rightarrow> nat \<Rightarrow> bool" where
  "scanned ops d ns M start tails i \<longleftrightarrow> length tails = length ns \<and>
     (\<forall>j < i. M (ns ! ((start + j) mod length ns)) = Some (True, []) \<and>
        tails ! j = tail_of ops d (ns ! ((start + j) mod length ns)))"

definition scan_outcome ::
  "('b \<Rightarrow> 'e list \<Rightarrow> bool) \<Rightarrow> ('b, 'e) backend_ops \<Rightarrow> 'b dist \<Rightarrow> addr list \<Rightarrow> (addr \<rightharpoonup> bool \<times> 'e list) \<Rightarrow> nat \<Rightarrow> 'e \<Rightarrow>
   scan \<Rightarrow> 'e \<Rightarrow> 'b dist \<Rightarrow> bool" where
  "scan_outcome brep ops d ns M start e r e' d' \<longleftrightarrow>
     (case r of
        Found \<Rightarrow> (\<exists>m al xs. M m = Some (al, e' # xs) \<and> dist_rep brep d' ns (M(m \<mapsto> (al, xs))))
      | Retry \<Rightarrow> e' = e \<and> (\<exists>m ns'. m \<in> droppable M \<and> length ns' < length ns \<and>
          dist_rep brep d' ns' (M(m := None)))
      | Tails tails \<Rightarrow> e' = e \<and> d' = d \<and> scanned ops d ns M start tails (length ns))"

context backend
begin

lemma scan_pops_rep:
  assumes rep: "dist_rep brep d ns M" and s: "unat start < length ns"
    and "unat i + n = length ns" "scanned ops d ns M (unat start) tails (unat i)"
  shows "\<exists>r e' d'. scan_pops ops n start i e tails d = Inr (r, e', d') \<and>
    scan_outcome brep ops d ns M (unat start) e r e' d' \<and> d_capacity d' = d_capacity d"
  using assms(3,4)
proof (induction n arbitrary: i tails)
  case 0
  then show ?case by (simp add: scan_outcome_def)
next
  case (Suc n)
  let ?j = "(unat start + unat i) mod length ns"
  have i: "unat i < length ns" using Suc.prems(1) by simp
  note idx = scan_index [OF rep s i]
  have seg: "seg_at d ((start + i) mod d_length d) = Inr (ns ! ?j)"
    using seg_at_rep [OF rep, of "(start + i) mod d_length d"] idx by simp
  have "ns ! ?j \<in> dom M" using dist_repD(8) [OF rep] idx(2) by simp
  then obtain al xs where M: "M (ns ! ?j) = Some (al, xs)" by auto
  obtain q where q: "node_backend d (ns ! ?j) = Inr (backend_ptr d (ns ! ?j))"
    "backend_ptr d (ns ! ?j) \<noteq> nullptr" "backend_at d (backend_ptr d (ns ! ?j)) = Inr q" "brep q xs"
    "d_backends d (backend_ptr d (ns ! ?j)) = Some q" and alive: "node_alive d (ns ! ?j) = Inr al"
    by (rule dist_rep_node [OF rep M])
  show ?case
  proof (cases xs)
    case (Cons x ys)
    obtain st q' where pop: "backend_pop ops e (tails ! unat i) q = Inr (True, x, st, q')" "brep q' ys"
      using pop_cons q(4) Cons by blast
    have "dist_rep brep (store_backend (backend_ptr d (ns ! ?j)) q' d) ns (M(ns ! ?j \<mapsto> (al, ys)))"
      using store_backend_rep [OF rep M pop(2)] .
    then show ?thesis
      using seg q pop(1) M Cons
      by (auto simp: Let_def scan_outcome_def store_backend_def)
  next
    case Nil
    have pop: "backend_pop ops e (tails ! unat i) q = Inr (False, e, backend_tail_state ops q, q)"
      using pop_nil q(4) Nil by blast
    note same = store_same [OF q(5)]
    show ?thesis
    proof (cases al)
      case False
      have i': "unat ((start + i) mod d_length d) < length ns" using idx by simp
      have "M (ns ! unat ((start + i) mod d_length d)) = Some (False, [])"
        using M idx(1) False Nil by simp
      from remove_backend_removes [OF rep i' this] obtain d' where
        rm: "remove_backend ops ((start + i) mod d_length d) d = Inr d'" "d_capacity d' = d_capacity d"
        and "dist_rep brep d' ((butlast ns)[?j := last ns]) (M(ns ! ?j := None))"
        unfolding idx(1) by blast
      moreover have "length ((butlast ns)[?j := last ns]) < length ns" using i by simp
      moreover have "ns ! ?j \<in> droppable M" using M False Nil by (simp add: droppable_def)
      ultimately have "scan_outcome brep ops d ns M (unat start) e Retry e d'"
        unfolding scan_outcome_def scan.case by blast
      moreover have "scan_pops ops (Suc n) start i e tails d = Inr (Retry, e, d')"
        using seg q pop alive False same rm by (simp add: Let_def)
      ultimately show ?thesis using rm by blast
    next
      case True
      let ?tails = "tails[unat i := backend_tail_state ops q]"
      have i1: "unat (i + 1) = unat i + 1"
        using i dist_repD(3,4) [OF rep] by (intro unat_Suc) simp
      have "scanned ops d ns M (unat start) ?tails (unat (i + 1))"
        using Suc.prems(2) M True Nil q(5) i
        by (auto simp: scanned_def i1 tail_of_def nth_list_update less_Suc_eq)
      moreover have "unat (i + 1) + n = length ns" using Suc.prems(1) i1 by simp
      ultimately show ?thesis
        using Suc.IH [of "i + 1" ?tails] seg q pop alive True same by (simp add: Let_def)
    qed
  qed
qed

lemma scan_tails_rep:
  assumes rep: "dist_rep brep d ns M" and s: "unat start < length ns"
    and "unat i + n = length ns" "scanned ops d ns M (unat start) tails (length ns)"
  shows "scan_tails ops n start i tails d = Inr False"
  using assms(3)
proof (induction n arbitrary: i)
  case (Suc n)
  let ?j = "(unat start + unat i) mod length ns"
  have i: "unat i < length ns" using Suc.prems(1) by simp
  note idx = scan_index [OF rep s i]
  have seg: "seg_at d ((start + i) mod d_length d) = Inr (ns ! ?j)"
    using seg_at_rep [OF rep, of "(start + i) mod d_length d"] idx by simp
  have M: "M (ns ! ?j) = Some (True, [])" "tails ! unat i = tail_of ops d (ns ! ?j)"
    using assms(4) i by (auto simp: scanned_def)
  obtain q where q: "node_backend d (ns ! ?j) = Inr (backend_ptr d (ns ! ?j))"
    "backend_ptr d (ns ! ?j) \<noteq> nullptr" "backend_at d (backend_ptr d (ns ! ?j)) = Inr q" and "brep q []"
    and b: "d_backends d (backend_ptr d (ns ! ?j)) = Some q"
    by (rule dist_rep_node [OF rep M(1)])
  have "unat (i + 1) = unat i + 1"
    using i dist_repD(3,4) [OF rep] by (intro unat_Suc) simp
  then have "unat (i + 1) + n = length ns" using Suc.prems by simp
  then show ?case using Suc.IH [of "i + 1"] seg q M(2) b by (simp add: Let_def tail_of_def)
qed simp

lemma dist_get_loop_rep:
  assumes "dist_rep brep d ns M" "length ns < fuel"
  shows "\<exists>ok e' d' ns' M'. dist_get_loop fuel ops rnd junk k e d = Inr (ok, e', d') \<and>
    dist_rep brep d' ns' M' \<and> get_outcome M e ok e' M'"
  using assms
proof (induction fuel arbitrary: d ns M k)
  case (Suc fuel)
  note rep = Suc.prems(1)
  show ?case
  proof (cases "ns = []")
    case True
    then have "unat (d_length d) = 0" "dom M = {}"
      using dist_repD(2,8) [OF rep] by simp_all
    then have "d_length d = 0" "M = Map.empty" by (simp_all add: unat_eq_0)
    moreover have "get_outcome Map.empty e False e Map.empty"
      by (simp add: get_outcome_def)
    ultimately have "get_outcome M e False e M"
      "dist_get_loop (Suc fuel) ops rnd junk k e d = Inr (False, e, d)" by simp_all
    then show ?thesis using rep by blast
  next
    case False
    then have len: "d_length d \<noteq> 0" using dist_repD(2) [OF rep] by (metis length_0_conv unat_0)
    let ?start = "rnd k mod d_length d" and ?tails = "replicate (unat (d_length d)) junk"
    have s: "unat ?start < length ns"
      using False by (simp add: unat_mod dist_repD(2) [OF rep])
    have "unat (0 :: u64) + unat (d_length d) = length ns" using dist_repD(2) [OF rep] by simp
    moreover have "scanned ops d ns M (unat ?start) ?tails (unat (0 :: u64))"
      using dist_repD(2) [OF rep] by (simp add: scanned_def)
    ultimately obtain r e' d' where r:
      "scan_pops ops (unat (d_length d)) ?start 0 e ?tails d = Inr (r, e', d')"
      "scan_outcome brep ops d ns M (unat ?start) e r e' d'"
      using scan_pops_rep [OF rep s] by blast
    show ?thesis
    proof (cases r)
      case Found
      then obtain m al xs where m: "M m = Some (al, e' # xs)" "dist_rep brep d' ns (M(m \<mapsto> (al, xs)))"
        using r(2) unfolding scan_outcome_def by auto
      have "get_outcome M e True e' ((M(m \<mapsto> (al, xs))) |` (- {}))"
        using m(1) unfolding get_outcome_def by (simp only: if_True) blast
      then have "get_outcome M e True e' (M(m \<mapsto> (al, xs)))"
        by (simp only: Compl_empty_eq restrict_map_UNIV)
      moreover have "dist_get_loop (Suc fuel) ops rnd junk k e d = Inr (True, e', d')"
        using r(1) Found len by (simp add: Let_def)
      ultimately show ?thesis using m(2) by blast
    next
      case Retry
      then obtain m ns' where m: "m \<in> droppable M" "length ns' < length ns"
        "dist_rep brep d' ns' (M(m := None))" "e' = e"
        using r(2) unfolding scan_outcome_def by auto
      have "length ns' < fuel" using m(2) Suc.prems(2) by simp
      from Suc.IH [OF m(3) this] obtain ok e2 d2 ns2 M2 where
        "dist_get_loop fuel ops rnd junk (Suc k) e d' = Inr (ok, e2, d2)"
        "dist_rep brep d2 ns2 M2" and out: "get_outcome (M(m := None)) e ok e2 M2" by blast
      moreover have "dist_get_loop (Suc fuel) ops rnd junk k e d = Inr (ok, e2, d2)"
        using r(1) Retry m(4) len calculation(1) by (simp add: Let_def)
      ultimately show ?thesis using get_outcome_drop [OF out m(1)] by blast
    next
      case (Tails tails)
      then have t: "e' = e" "d' = d" "scanned ops d ns M (unat ?start) tails (length ns)"
        using r(2) unfolding scan_outcome_def by auto
      have "scan_tails ops (unat (d_length d)) ?start 0 tails d = Inr False"
        using scan_tails_rep [OF rep s _ t(3), of 0 "unat (d_length d)"] dist_repD(2) [OF rep] by simp
      then have "dist_get_loop (Suc fuel) ops rnd junk k e d = Inr (False, e, d)"
        using r(1) Tails t(1,2) len by (simp add: Let_def)
      moreover have all: "M n = Some (True, [])" if n: "n \<in> set ns" for n
      proof -
        obtain j where "j < length ns" "n = ns ! j" using n by (auto simp: in_set_conv_nth)
        then show ?thesis
          using mod_rotation_onto [of j "length ns" "unat ?start"] t(3) by (auto simp: scanned_def)
      qed
      have "get_outcome M e False e M"
      proof -
        have "xs = []" if "M m = Some (al, xs)" for m al xs
          using all [of m] that dist_repD(8) [OF rep] by auto
        moreover have "m \<notin> droppable M" for m
          using all [of m] domI [of M m "(False, [])"] dist_repD(8) [OF rep]
          by (auto simp: droppable_def)
        then have "droppable M = {}" by blast
        ultimately show ?thesis by (simp add: get_outcome_def restrict_map_UNIV)
      qed
      ultimately show ?thesis using rep by blast
    qed
  qed
qed simp

lemma dist_get_rep:
  assumes rep: "dist_rep brep d ns M" and fuel: "length ns < fuel"
    and l: "local = nullptr \<or> local \<in> dom M"
  shows "\<exists>ok e' d' ns' M'. dist_get fuel ops rnd junk local e d = Inr (ok, e', d') \<and>
    dist_rep brep d' ns' M' \<and> get_outcome M e ok e' M'"
proof -
  note loop = dist_get_loop_rep [OF rep fuel, of rnd junk 0 e]
  show ?thesis
  proof (cases "local = nullptr")
    case True
    then show ?thesis using loop by (simp add: dist_get_def)
  next
    case False
    then obtain al xs where M: "M local = Some (al, xs)" using l by auto
    obtain q where q: "node_backend d local = Inr (backend_ptr d local)"
      "backend_at d (backend_ptr d local) = Inr q" "brep q xs"
      "d_backends d (backend_ptr d local) = Some q"
      by (rule dist_rep_node [OF rep M])
    show ?thesis
    proof (cases xs)
      case Nil
      then have "backend_get ops e q = Inr (False, e, q)" using get_nil q(3) by blast
      then show ?thesis
        using loop q store_same [OF q(4)] by (simp add: dist_get_def)
    next
      case (Cons x ys)
      obtain q' where g: "backend_get ops e q = Inr (True, x, q')" "brep q' ys"
        using get_cons q(3) Cons by blast
      have "dist_rep brep (store_backend (backend_ptr d local) q' d) ns (M(local \<mapsto> (al, ys)))"
        using store_backend_rep [OF rep M g(2)] .
      moreover have "get_outcome M e True x ((M(local \<mapsto> (al, ys))) |` (- {}))"
        using M Cons unfolding get_outcome_def by (simp only: if_True) blast
      then have "get_outcome M e True x (M(local \<mapsto> (al, ys)))"
        by (simp only: Compl_empty_eq restrict_map_UNIV)
      moreover have "dist_get fuel ops rnd junk local e d =
          Inr (True, x, store_backend (backend_ptr d local) q' d)"
        using False q g(1) by (simp add: dist_get_def)
      ultimately show ?thesis by blast
    qed
  qed
qed

text \<open>The purge of \<open>put\<close>: if it removes nothing, there was nothing to remove.\<close>

lemma dist_purge_rep:
  assumes "dist_rep brep d ns M" "0 < fuel" "length ns < fuel + unat i"
  shows "\<exists>d' ns' R. dist_purge fuel ops i d = Inr d' \<and> R \<subseteq> droppable M \<and>
    dist_rep brep d' ns' (M |` (- R)) \<and> d_capacity d' = d_capacity d \<and>
    (R = {} \<longrightarrow> d' = d \<and> (\<forall>j. unat i \<le> j \<and> j < length ns \<longrightarrow> ns ! j \<notin> droppable M)) \<and>
    (R \<noteq> {} \<longrightarrow> length ns' < length ns)"
  using assms
proof (induction fuel arbitrary: i d ns M)
  case (Suc fuel)
  note rep = Suc.prems(1)
  show ?case
  proof (cases "unat i < length ns")
    case False
    then have "dist_purge (Suc fuel) ops i d = Inr d"
      by (simp add: word_less_nat_alt dist_repD(2) [OF rep])
    moreover have "M |` (- {}) = M" by (simp add: restrict_map_UNIV)
    ultimately show ?thesis
      using False rep by - (rule exI [of _ d], rule exI [of _ ns], rule exI [of _ "{}"], auto)
  next
    case True
    let ?n = "ns ! unat i"
    have lt: "i < d_length d" using True by (simp add: word_less_nat_alt dist_repD(2) [OF rep])
    have i1: "unat (i + 1) = unat i + 1"
      using True dist_repD(3,4) [OF rep] by (intro unat_Suc) simp
    have "?n \<in> dom M" using dist_repD(8) [OF rep] True by simp
    then obtain al xs where M: "M ?n = Some (al, xs)" by auto
    have alive: "node_alive d ?n = Inr al" by (rule dist_rep_node [OF rep M])
    note step = seg_at_rep [OF rep True] alive node_empty_rep [OF rep M]
    have fuel: "0 < fuel" "length ns < fuel + unat (i + 1)" using Suc.prems(2,3) True i1 by auto
    show ?thesis
    proof (cases "\<not> al \<and> xs = []")
      case True': True
      obtain d1 where d1: "remove_backend ops i d = Inr d1" "d_capacity d1 = d_capacity d"
        "dist_rep brep d1 ((butlast ns)[unat i := last ns]) (M(?n := None))" (is "dist_rep _ _ ?ns1 _")
        using remove_backend_removes [OF rep True] M True' by auto
      have "length ?ns1 < fuel + unat (i + 1)" using fuel by simp
      from Suc.IH [OF d1(3) fuel(1) this] obtain d' ns' R where d':
        "dist_purge fuel ops (i + 1) d1 = Inr d'" "R \<subseteq> droppable (M(?n := None))"
        "dist_rep brep d' ns' (M(?n := None) |` (- R))" "d_capacity d' = d_capacity d1"
        "R = {} \<longrightarrow> d' = d1" "R \<noteq> {} \<longrightarrow> length ns' < length ?ns1" by blast
      have "length ns' \<le> length ?ns1"
        using d'(5,6) dist_repD(2) [OF d'(3)] dist_repD(2) [OF d1(3)] by (cases "R = {}") auto
      then have "length ns' < length ns" using True by simp
      moreover have "M(?n := None) |` (- R) = M |` (- insert ?n R)"
        by (auto simp: restrict_map_def fun_eq_iff)
      moreover have "insert ?n R \<subseteq> droppable M"
        using d'(2) M True' by (auto simp: droppable_def split: if_splits)
      moreover have "dist_purge (Suc fuel) ops i d = Inr d'"
        using lt step True' d1(1) d'(1) by simp
      ultimately show ?thesis
        using d'(3,4) d1(2) by - (rule exI [of _ d'], rule exI [of _ ns'], rule exI [of _ "insert ?n R"], simp)
    next
      case False
      from Suc.IH [OF rep fuel(1) fuel(2)] obtain d' ns' R where d':
        "dist_purge fuel ops (i + 1) d = Inr d'" "R \<subseteq> droppable M"
        "dist_rep brep d' ns' (M |` (- R))" "d_capacity d' = d_capacity d"
        "R = {} \<longrightarrow> d' = d \<and> (\<forall>j. unat (i + 1) \<le> j \<and> j < length ns \<longrightarrow> ns ! j \<notin> droppable M)"
        "R \<noteq> {} \<longrightarrow> length ns' < length ns" by blast
      have "?n \<notin> droppable M" using M False by (auto simp: droppable_def)
      then have "R = {} \<longrightarrow> d' = d \<and> (\<forall>j. unat i \<le> j \<and> j < length ns \<longrightarrow> ns ! j \<notin> droppable M)"
        using d'(5) i1 by (metis Suc_eq_plus1 le_antisym not_less_eq_eq)
      moreover have "dist_purge (Suc fuel) ops i d = Inr d'"
        using lt step False d'(1) by (cases al) auto
      ultimately show ?thesis using d' by blast
    qed
  qed
qed simp

lemma dist_add_node:
  assumes rep: "dist_rep brep d ns M" and al: "alloc_ok (da_node al)" "alloc_ok (da_backend al)"
    and space: "d_length d < d_capacity d"
  shows "dist_node_new ops al d = Inl BadAlloc \<or>
    (\<exists>n d2 d3. dist_node_new ops al d = Inr (n, d2) \<and> seg_set (d_length d2) n d2 = Inr d3 \<and>
       n \<notin> dom M \<and> n \<noteq> nullptr \<and>
       dist_rep brep (d3\<lparr>d_length := d_length d3 + 1, d_version := d_version d3 + 1\<rparr>) (ns @ [n])
         (M(n \<mapsto> (True, []))))"
proof (cases "da_node al (d_nodes d) = None \<or> da_backend al (d_backends d) = None \<or>
    backend_new ops = Inl BadAlloc")
  case True
  then show ?thesis by (auto simp: dist_node_new_def split: option.split)
next
  case False
  then obtain n b where n: "da_node al (d_nodes d) = Some n" and b: "da_backend al (d_backends d) = Some b"
    by auto
  obtain q where q: "backend_new ops = Inr q" "brep q []" using new_rep False by auto
  have fresh: "d_nodes d n = None" "n \<noteq> nullptr" "d_backends d b = None" "b \<noteq> nullptr" "take_bit 48 b = b"
    using al n b by (auto simp: alloc_ok_def)
  let ?p = "tp_pack b 1"
  let ?d2 = "d\<lparr>d_nodes := (d_nodes d)(n \<mapsto> ?p), d_backends := (d_backends d)(b \<mapsto> q)\<rparr>"
  let ?k = "length ns"
  have new: "dist_node_new ops al d = Inr (n, ?d2)"
    using n b q fresh(5) by (simp add: dist_node_new_def)
  have k: "unat (d_length d) = ?k" "?k < unat (d_capacity d)"
    using dist_repD(2) [OF rep] space by (simp_all add: word_less_nat_alt)
  have seg: "d_segment d = ns @ nullptr # replicate (unat (d_capacity d) - Suc ?k) nullptr"
    using dist_repD(1) [OF rep] k(2) by (simp add: Suc_diff_Suc flip: replicate_Suc)
  let ?d3 = "?d2\<lparr>d_segment := (d_segment d)[?k := n]\<rparr>"
  have set: "seg_set (d_length ?d2) n ?d2 = Inr ?d3"
    using seg k by (simp add: seg_set_def)
  let ?d4 = "?d3\<lparr>d_length := d_length ?d3 + 1, d_version := d_version ?d3 + 1\<rparr>"
  have nM: "n \<notin> set ns" using fresh(1) dist_repD(7) [OF rep] by auto
  have ptr: "backend_ptr ?d4 m = (if m = n then b else backend_ptr d m)" for m
    using fresh(5) by (simp add: backend_ptr_def)
  have ptr_n: "backend_ptr ?d4 n = b" unfolding ptr by simp
  have b_new: "b \<notin> backend_ptr d ` set ns" using dist_repD(10) [OF rep] fresh(3) by auto
  have same: "backend_ptr ?d4 m = backend_ptr d m" if "m \<in> set ns" for m
    unfolding ptr using that nM by auto
  have im: "backend_ptr ?d4 ` set ns = backend_ptr d ` set ns"
    using same by (intro image_cong) simp_all
  have "dist_rep brep ?d4 (ns @ [n]) (M(n \<mapsto> (True, [])))"
  proof (rule dist_repI)
    show "d_segment ?d4 = (ns @ [n]) @ replicate (unat (d_capacity ?d4) - length (ns @ [n])) nullptr"
      using seg by (simp add: list_update_append)
    show "unat (d_length ?d4) = length (ns @ [n])"
      using k dist_repD(4) [OF rep] by (simp add: unat_Suc)
    show "length (ns @ [n]) \<le> unat (d_capacity ?d4)" using k by simp
    show "inj_on (backend_ptr ?d4) (set (ns @ [n]))"
    proof -
      have "inj_on (backend_ptr ?d4) (set ns)"
        using dist_repD(9) [OF rep] inj_on_cong [of "set ns" "backend_ptr ?d4" "backend_ptr d"] same
        by blast
      moreover have "backend_ptr ?d4 n \<notin> backend_ptr ?d4 ` set ns"
        unfolding im ptr using b_new by simp
      ultimately show ?thesis using nM by (simp only: set_append list.set inj_on_insert Un_insert_right Un_empty_right) blast
    qed
    show "dom (d_backends ?d4) = backend_ptr ?d4 ` set (ns @ [n])"
    proof -
      have "dom (d_backends ?d4) = insert b (backend_ptr d ` set ns)"
        using dist_repD(10) [OF rep] by simp
      then show ?thesis
        unfolding set_append image_Un im using ptr_n by simp
    qed
    show "entry_ok brep ?d4 m al' xs" if m: "(M(n \<mapsto> (True, []))) m = Some (al', xs)" for m al' xs
    proof (cases "m = n")
      case True
      then show ?thesis using m q(2) fresh(4,5) by (auto simp: entry_ok_def)
    next
      case False
      with m have Mm: "M m = Some (al', xs)" by simp
      obtain p r where e: "d_nodes d m = Some p" "tp_tag p = (if al' then 1 else 0)" "tp_value p \<noteq> nullptr"
        "d_backends d (tp_value p) = Some r" "brep r xs"
        using dist_repD(11) [OF rep Mm] unfolding entry_ok_def by blast
      then have "tp_value p \<noteq> b" using fresh(3) by auto
      then show ?thesis using e False unfolding entry_ok_def by auto
    qed
  qed (use dist_repD(4-8) [OF rep] nM fresh(2) in simp_all)
  moreover have "n \<notin> dom M" using nM dist_repD(8) [OF rep] by simp
  ultimately show ?thesis using new set fresh(2) by blast
qed

lemma backend_put_step:
  assumes rep: "dist_rep brep d ns M" and M: "M n = Some (al, xs)"
  shows "\<exists>b q. node_backend d n = Inr b \<and> backend_at d b = Inr q \<and>
    (backend_put ops x q = Inl BadAlloc \<or>
     (\<exists>q'. backend_put ops x q = Inr (True, q') \<and>
        dist_rep brep (store_backend b q' d) ns (M(n \<mapsto> (al, xs @ [x])))))"
proof -
  obtain q where q: "node_backend d n = Inr (backend_ptr d n)"
    "backend_at d (backend_ptr d n) = Inr q" "brep q xs"
    by (rule dist_rep_node [OF rep M])
  then show ?thesis
    using put_rep [OF q(3), of x] store_backend_rep [OF rep M] by blast
qed

lemma dist_put_bound:
  assumes rep: "dist_rep brep d ns M" and M: "M local = Some (al, xs)"
  shows "dist_put ops da local x d = Inl BadAlloc \<or>
    (\<exists>d'. dist_put ops da local x d = Inr (True, local, d') \<and>
       dist_rep brep d' ns (M(local \<mapsto> (al, xs @ [x]))))"
proof -
  have "local \<noteq> nullptr" by (rule dist_rep_node [OF rep M])
  then show ?thesis
    using backend_put_step [OF rep M, of x] by (auto simp: dist_put_def simp del: fun_upd_apply)
qed

lemma dist_put_new:
  assumes rep: "dist_rep brep d ns M" and al: "alloc_ok (da_node da)" "alloc_ok (da_backend da)"
  shows "d_length d \<ge> d_capacity d \<Longrightarrow> droppable M = {} \<Longrightarrow>
      dist_put ops da nullptr x d = Inr (False, nullptr, d)"
    and "d_length d < d_capacity d \<or> droppable M \<noteq> {} \<Longrightarrow>
      dist_put ops da nullptr x d = Inl BadAlloc \<or>
      (\<exists>n d' ns' R. dist_put ops da nullptr x d = Inr (True, n, d') \<and> R \<subseteq> droppable M \<and>
         (d_length d < d_capacity d \<longrightarrow> R = {}) \<and> n \<noteq> nullptr \<and> n \<notin> dom (M |` (- R)) \<and>
         dist_rep brep d' ns' ((M |` (- R))(n \<mapsto> (True, [x]))))"
proof -
  let ?fuel = "unat (d_length d) + 1"
  have fuel: "0 < ?fuel" "length ns < ?fuel + unat (0 :: u64)"
    using dist_repD(2) [OF rep] by simp_all
  obtain d1 ns1 R where p: "dist_purge ?fuel ops 0 d = Inr d1" "R \<subseteq> droppable M"
    and rep1: "dist_rep brep d1 ns1 (M |` (- R))" and cap: "d_capacity d1 = d_capacity d"
    and none: "R = {} \<longrightarrow> d1 = d \<and> (\<forall>j. unat (0 :: u64) \<le> j \<and> j < length ns \<longrightarrow> ns ! j \<notin> droppable M)"
    and some: "R \<noteq> {} \<longrightarrow> length ns1 < length ns"
    using dist_purge_rep [OF rep fuel] by blast
  show "dist_put ops da nullptr x d = Inr (False, nullptr, d)"
    if full: "d_length d \<ge> d_capacity d" and drop: "droppable M = {}"
  proof -
    have "d1 = d" using p(2) none drop by auto
    then show ?thesis using p(1) full by (simp add: dist_put_def)
  qed
  have add: "dist_put ops da nullptr x d = Inl BadAlloc \<or>
      (\<exists>n d' ns'. dist_put ops da nullptr x d = Inr (True, n, d') \<and> n \<noteq> nullptr \<and> n \<notin> dom M' \<and>
         dist_rep brep d' ns' (M'(n \<mapsto> (True, [x]))))"
    if purge: "(if d_length d \<ge> d_capacity d then dist_purge ?fuel ops 0 d else Inr d) = Inr d2"
      and rep2: "dist_rep brep d2 ns2 M'" and space: "d_length d2 < d_capacity d2" for d2 ns2 M'
  proof -
    have space': "\<not> d_capacity d2 \<le> d_length d2" using space by simp
    consider "dist_node_new ops da d2 = Inl BadAlloc" |
      n d3 d4 where "dist_node_new ops da d2 = Inr (n, d3)" "seg_set (d_length d3) n d3 = Inr d4"
        "n \<notin> dom M'" "n \<noteq> nullptr"
        "dist_rep brep (d4\<lparr>d_length := d_length d4 + 1, d_version := d_version d4 + 1\<rparr>) (ns2 @ [n])
           (M'(n \<mapsto> (True, [])))"
      using dist_add_node [OF rep2 al space] by blast
    then show ?thesis
    proof cases
      case 1
      then show ?thesis using purge space by (simp add: dist_put_def not_le)
    next
      case 2
      let ?d5 = "d4\<lparr>d_length := d_length d4 + 1, d_version := d_version d4 + 1\<rparr>"
      have Mn: "(M'(n \<mapsto> (True, []))) n = Some (True, [])" by simp
      have upd: "M'(n \<mapsto> (True, []), n \<mapsto> (True, [] @ [x])) = M'(n \<mapsto> (True, [x]))" by simp
      obtain b q where b: "node_backend ?d5 n = Inr b" "backend_at ?d5 b = Inr q"
        and put: "backend_put ops x q = Inl BadAlloc \<or> (\<exists>q'. backend_put ops x q = Inr (True, q') \<and>
           dist_rep brep (store_backend b q' ?d5) (ns2 @ [n]) (M'(n \<mapsto> (True, [x]))))"
        using backend_put_step [OF 2(5) Mn, of x] unfolding upd by blast
      have run: "dist_put ops da nullptr x d =
          bindE (backend_put ops x q) (\<lambda>(ok, q'). Inr (ok, n, store_backend b q' ?d5))"
        using purge space' 2(1,2,4) b by (simp add: dist_put_def)
      show ?thesis using put
      proof (elim disjE exE conjE)
        fix q'
        assume "backend_put ops x q = Inr (True, q')"
          and "dist_rep brep (store_backend b q' ?d5) (ns2 @ [n]) (M'(n \<mapsto> (True, [x])))"
        then show ?thesis using run 2(3,4) by (intro disjI2 exI conjI) (simp, assumption+)
      qed (simp add: run)
    qed
  qed
  show "dist_put ops da nullptr x d = Inl BadAlloc \<or>
      (\<exists>n d' ns' R. dist_put ops da nullptr x d = Inr (True, n, d') \<and> R \<subseteq> droppable M \<and>
         (d_length d < d_capacity d \<longrightarrow> R = {}) \<and> n \<noteq> nullptr \<and> n \<notin> dom (M |` (- R)) \<and>
         dist_rep brep d' ns' ((M |` (- R))(n \<mapsto> (True, [x]))))"
    if h: "d_length d < d_capacity d \<or> droppable M \<noteq> {}"
  proof (cases "d_length d < d_capacity d")
    case True
    have M: "M |` (- {}) = M" by (simp add: restrict_map_UNIV)
    show ?thesis
      using add [of d ns "M |` (- {})"] rep True unfolding M by (metis M empty_subsetI not_le)
  next
    case False
    have "R \<noteq> {}"
    proof
      assume "R = {}"
      then have nd: "ns ! j \<notin> droppable M" if "j < length ns" for j using none \<open>R = {}\<close> that by simp
      obtain m where m: "m \<in> droppable M" using h False by blast
      then have "m \<in> set ns" using dist_repD(8) [OF rep] by (auto simp: droppable_def)
      then show False using nd m by (metis in_set_conv_nth)
    qed
    then have "d_length d1 < d_capacity d1"
      using some cap dist_repD(2,3) [OF rep] dist_repD(2) [OF rep1] by (simp add: word_less_nat_alt)
    then show ?thesis
      using add [of d1 ns1 "M |` (- R)"] p rep1 False by (metis not_le)
  qed
qed

text \<open>Leaving: the node is switched off, and removed at once when its backend is empty.\<close>

lemma turn_off_rep:
  assumes rep: "dist_rep brep d ns M" and M: "M n = Some (al, xs)"
  shows "\<exists>d'. turn_off n d = Inr d' \<and> d_length d' = d_length d \<and>
    dist_rep brep d' ns (M(n \<mapsto> (False, xs)))"
proof -
  obtain p q where p: "d_nodes d n = Some p" "tp_value p \<noteq> nullptr" "d_backends d (tp_value p) = Some q"
    "brep q xs"
    using dist_repD(11) [OF rep M] unfolding entry_ok_def by blast
  let ?d = "d\<lparr>d_nodes := (d_nodes d)(n \<mapsto> tp_clear_tag p)\<rparr>"
  have ptr: "backend_ptr ?d = backend_ptr d"
    using p(1) by (auto simp: backend_ptr_def fun_eq_iff)
  have n: "n \<in> set ns" using dist_repD(8) [OF rep] M by auto
  have "dist_rep brep ?d ns (M(n \<mapsto> (False, xs)))"
  proof (rule dist_repI)
    show "inj_on (backend_ptr ?d) (set ns)" "dom (d_backends ?d) = backend_ptr ?d ` set ns"
      unfolding ptr using dist_repD(9,10) [OF rep] by simp_all
    show "dom (d_nodes ?d) = set ns" "dom (M(n \<mapsto> (False, xs))) = set ns"
      using dist_repD(7,8) [OF rep] n by auto
    show "entry_ok brep ?d m al' ys" if "(M(n \<mapsto> (False, xs))) m = Some (al', ys)" for m al' ys
      using that p dist_repD(11) [OF rep, of m al' ys]
      by (cases "m = n") (auto simp: entry_ok_def)
  qed (use dist_repD(1-6) [OF rep] in simp_all)
  then show ?thesis using p(1) by (simp add: turn_off_def node_at_def)
qed

lemma dereg_loop_rep:
  assumes rep: "dist_rep brep d ns M" and M: "M n = Some (False, [])"
    and "\<forall>j < unat i. ns ! j \<noteq> n" "unat i \<le> length ns" "length ns < fuel + unat i"
  shows "\<exists>d' ns'. dereg_loop fuel ops i n d = Inr d' \<and> dist_rep brep d' ns' (M(n := None))"
  using assms(3-5)
proof (induction fuel arbitrary: i)
  case (Suc fuel)
  have "n \<in> set ns" using dist_repD(8) [OF rep] M by auto
  then obtain j where j: "j < length ns" "ns ! j = n" by (auto simp: in_set_conv_nth)
  have i: "unat i < length ns" using Suc.prems(1,2) j by (metis le_neq_implies_less)
  have lt: "i < d_length d" using i by (simp add: word_less_nat_alt dist_repD(2) [OF rep])
  show ?case
  proof (cases "ns ! unat i = n")
    case True
    then show ?thesis
      using remove_backend_removes [OF rep i] M lt seg_at_rep [OF rep i]
      by (auto simp del: fun_upd_apply)
  next
    case False
    have i1: "unat (i + 1) = unat i + 1"
      using i dist_repD(3,4) [OF rep] by (intro unat_Suc) simp
    have "\<forall>j < unat (i + 1). ns ! j \<noteq> n"
      using Suc.prems(1) False i1 by (auto simp: less_Suc_eq)
    then obtain d' ns' where "dereg_loop fuel ops (i + 1) n d = Inr d'"
      "dist_rep brep d' ns' (M(n := None))"
      using Suc.IH [of "i + 1"] Suc.prems(3) i i1 by (auto simp del: fun_upd_apply)
    then show ?thesis using False lt seg_at_rep [OF rep i] by (auto simp del: fun_upd_apply)
  qed
qed simp

lemma deregister_rep:
  assumes rep: "dist_rep brep d ns M" and M: "M n = Some (al, xs)"
  shows "\<exists>d' ns'. deregister_thread ops n d = Inr (nullptr, d') \<and>
    dist_rep brep d' ns' (if xs = [] then M(n := None) else M(n \<mapsto> (False, xs)))"
proof -
  obtain d1 where d1: "turn_off n d = Inr d1" "d_length d1 = d_length d"
    "dist_rep brep d1 ns (M(n \<mapsto> (False, xs)))"
    using turn_off_rep [OF rep M] by blast
  have n: "n \<noteq> nullptr" by (rule dist_rep_node [OF rep M])
  have M1: "(M(n \<mapsto> (False, xs))) n = Some (False, xs)" by simp
  note empty = node_empty_rep [OF d1(3) M1]
  show ?thesis
  proof (cases "xs = []")
    case True
    have pre: "\<forall>j < unat (0 :: u64). ns ! j \<noteq> n" "unat (0 :: u64) \<le> length ns"
      "length ns < unat (d_length d1) + 1 + unat (0 :: u64)"
      using dist_repD(2) [OF d1(3)] by simp_all
    obtain d2 ns2 where "dereg_loop (unat (d_length d1) + 1) ops 0 n d1 = Inr d2"
      "dist_rep brep d2 ns2 ((M(n \<mapsto> (False, [])))(n := None))"
      using dereg_loop_rep [OF d1(3) [unfolded True] M1 [unfolded True] pre] by blast
    then show ?thesis
      using n d1 empty True by (auto simp: deregister_thread_def simp del: fun_upd_apply)
  next
    case False
    then show ?thesis using n d1 empty by (auto simp: deregister_thread_def simp del: fun_upd_apply)
  qed
qed

end

end
