(* ===== verification/Distributed_Run.thy ===== *)
theory Distributed_Run
  imports Distributed_Spec
begin

text \<open>
  Sequences of calls of several threads on \<open>LLDynamicDistributed\<close> and their specification:
  every thread, from its first \<open>put\<close> until it deregisters, has a session with a queue of its
  own, and \<open>get\<close> takes the first element of any session's queue.
\<close>

section \<open>Sequences of calls and what they may observe\<close>

datatype 'e dist_op = DPut nat 'e | DGet nat | DLeave nat

datatype 'e dist_obs = DPutDone bool | DGot 'e | DNothing | DLeft

fun dist_run ::
  "('b, 'e) backend_ops \<Rightarrow> 'b dist_alloc \<Rightarrow> (nat \<Rightarrow> u64) \<Rightarrow> u16 \<Rightarrow> 'e \<Rightarrow> 'e dist_op list \<Rightarrow>
   (nat \<Rightarrow> addr) \<Rightarrow> 'b dist \<Rightarrow> ('e dist_obs list \<times> (nat \<Rightarrow> addr) \<times> 'b dist) result" where
  "dist_run ops da rnd junk e [] locals d = Inr ([], locals, d)"
| "dist_run ops da rnd junk e (DPut t x # cs) locals d =
     bindE (dist_put ops da (locals t) x d) (\<lambda>(ok, local, d').
     bindE (dist_run ops da rnd junk e cs (locals(t := local)) d') (\<lambda>(obs, r).
     Inr (DPutDone ok # obs, r)))"
| "dist_run ops da rnd junk e (DGet t # cs) locals d =
     bindE (dist_get (unat (d_length d) + 1) ops rnd junk (locals t) e d) (\<lambda>(ok, x, d').
     bindE (dist_run ops da rnd junk e cs locals d') (\<lambda>(obs, r).
     Inr ((if ok then DGot x else DNothing) # obs, r)))"
| "dist_run ops da rnd junk e (DLeave t # cs) locals d =
     bindE (deregister_thread ops (locals t) d) (\<lambda>(local, d').
     bindE (dist_run ops da rnd junk e cs (locals(t := local)) d') (\<lambda>(obs, r).
     Inr (DLeft # obs, r)))"

text \<open>\<open>A (t, k)\<close> is the queue of the \<open>k\<close>-th session of thread \<open>t\<close>, \<open>S t\<close> its current session.\<close>

inductive dist_allows ::
  "(nat \<times> nat \<Rightarrow> 'e list) \<Rightarrow> (nat \<Rightarrow> nat) \<Rightarrow> 'e dist_op list \<Rightarrow> 'e dist_obs list \<Rightarrow> bool" where
  allows_nil: "dist_allows A S [] []"
| allows_put: "dist_allows (A((t, S t) := A (t, S t) @ [x])) S cs obs \<Longrightarrow>
    dist_allows A S (DPut t x # cs) (DPutDone True # obs)"
| allows_full: "dist_allows A S cs obs \<Longrightarrow> dist_allows A S (DPut t x # cs) (DPutDone False # obs)"
| allows_got: "A s = x # xs \<Longrightarrow> dist_allows (A(s := xs)) S cs obs \<Longrightarrow>
    dist_allows A S (DGet t # cs) (DGot x # obs)"
| allows_nothing: "(\<And>s. A s = []) \<Longrightarrow> dist_allows A S cs obs \<Longrightarrow>
    dist_allows A S (DGet t # cs) (DNothing # obs)"
| allows_leave: "dist_allows A (S(t := Suc (S t))) cs obs \<Longrightarrow>
    dist_allows A S (DLeave t # cs) (DLeft # obs)"

section \<open>Simulation\<close>

text \<open>\<open>sess\<close> gives the session whose queue a node holds.\<close>

definition sess_ok ::
  "(addr \<Rightarrow> nat \<times> nat) \<Rightarrow> (addr \<rightharpoonup> bool \<times> 'e list) \<Rightarrow> (nat \<Rightarrow> addr) \<Rightarrow> (nat \<times> nat \<Rightarrow> 'e list) \<Rightarrow>
   (nat \<Rightarrow> nat) \<Rightarrow> bool" where
  "sess_ok sess M locals A S \<longleftrightarrow>
     inj_on sess (dom M) \<and>
     (\<forall>n al xs. M n = Some (al, xs) \<longrightarrow> A (sess n) = xs) \<and>
     (\<forall>s. s \<notin> sess ` dom M \<longrightarrow> A s = []) \<and>
     (\<forall>t. locals t \<noteq> nullptr \<longrightarrow> (\<exists>xs. M (locals t) = Some (True, xs)) \<and> sess (locals t) = (t, S t)) \<and>
     (\<forall>n \<in> dom M. \<forall>t k. sess n = (t, k) \<longrightarrow> k \<le> S t \<and> (k = S t \<longrightarrow> locals t = n))"

lemma sess_okD:
  assumes "sess_ok sess M locals A S"
  shows "inj_on sess (dom M)"
    "\<And>n al xs. M n = Some (al, xs) \<Longrightarrow> A (sess n) = xs"
    "\<And>s. s \<notin> sess ` dom M \<Longrightarrow> A s = []"
    "\<And>t. locals t \<noteq> nullptr \<Longrightarrow> \<exists>xs. M (locals t) = Some (True, xs)"
    "\<And>t. locals t \<noteq> nullptr \<Longrightarrow> sess (locals t) = (t, S t)"
    "\<And>n t k. n \<in> dom M \<Longrightarrow> sess n = (t, k) \<Longrightarrow> k \<le> S t"
    "\<And>n t. n \<in> dom M \<Longrightarrow> sess n = (t, S t) \<Longrightarrow> locals t = n"
  using assms unfolding sess_ok_def by - ((elim conjE, blast)+)

lemma sess_okI:
  assumes "inj_on sess (dom M)"
    "\<And>n al xs. M n = Some (al, xs) \<Longrightarrow> A (sess n) = xs"
    "\<And>s. s \<notin> sess ` dom M \<Longrightarrow> A s = []"
    "\<And>t. locals t \<noteq> nullptr \<Longrightarrow> \<exists>xs. M (locals t) = Some (True, xs)"
    "\<And>t. locals t \<noteq> nullptr \<Longrightarrow> sess (locals t) = (t, S t)"
    "\<And>n t k. n \<in> dom M \<Longrightarrow> sess n = (t, k) \<Longrightarrow> k \<le> S t"
    "\<And>n t. n \<in> dom M \<Longrightarrow> sess n = (t, S t) \<Longrightarrow> locals t = n"
  shows "sess_ok sess M locals A S"
  unfolding sess_ok_def using assms by (intro conjI allI ballI impI) simp_all

text \<open>Dropping dead and empty entries changes no queue.\<close>

lemma sess_ok_drop:
  assumes ok: "sess_ok sess M locals A S" and R: "R \<subseteq> droppable M"
  shows "sess_ok sess (M |` (- R)) locals A S"
proof -
  have dom: "n \<in> dom (M |` (- R)) \<Longrightarrow> n \<in> dom M" for n by auto
  show ?thesis
  proof (rule sess_okI)
    show "inj_on sess (dom (M |` (- R)))" using inj_on_subset [OF sess_okD(1) [OF ok]] dom by blast
    show "A (sess n) = xs" if "(M |` (- R)) n = Some (al, xs)" for n al xs
      using that sess_okD(2) [OF ok, of n al xs] by (auto simp: restrict_map_def split: if_splits)
    show "A s = []" if s: "s \<notin> sess ` dom (M |` (- R))" for s
    proof (cases "s \<in> sess ` dom M")
      case True
      then obtain n where n: "n \<in> dom M" "s = sess n" by auto
      then have "n \<in> R" using s by (auto simp: restrict_map_def dom_def split: if_splits)
      then have "M n = Some (False, [])" using R by (auto simp: droppable_def)
      then show ?thesis using sess_okD(2) [OF ok] n(2) by blast
    qed (use sess_okD(3) [OF ok] in blast)
    show "\<exists>xs. (M |` (- R)) (locals t) = Some (True, xs)" if "locals t \<noteq> nullptr" for t
      using sess_okD(4) [OF ok that] R by (auto simp: restrict_map_def droppable_def)
  qed (use sess_okD(5-7) [OF ok] dom in blast)+
qed

text \<open>Changing the queue of one node.\<close>

lemma sess_ok_update:
  assumes ok: "sess_ok sess M locals A S" and M: "M n = Some (al, xs)"
  shows "sess_ok sess (M(n \<mapsto> (al, ys))) locals (A(sess n := ys)) S"
proof (rule sess_okI)
  have dom: "dom (M(n \<mapsto> (al, ys))) = dom M" using M by auto
  show "inj_on sess (dom (M(n \<mapsto> (al, ys))))" unfolding dom by (rule sess_okD(1) [OF ok])
  show "(A(sess n := ys)) (sess m) = zs" if m: "(M(n \<mapsto> (al, ys))) m = Some (al', zs)" for m al' zs
  proof (cases "m = n")
    case False
    then have "m \<in> dom M" "n \<in> dom M" using m M by auto
    then have "sess m \<noteq> sess n" using False inj_onD [OF sess_okD(1) [OF ok]] by blast
    then show ?thesis using m False sess_okD(2) [OF ok, of m al' zs] by simp
  qed (use m in simp)
  show "(A(sess n := ys)) s = []" if "s \<notin> sess ` dom (M(n \<mapsto> (al, ys)))" for s
    using that sess_okD(3) [OF ok, of s] M unfolding dom by (auto simp: dom_def)
  show "\<exists>zs. (M(n \<mapsto> (al, ys))) (locals t) = Some (True, zs)" if "locals t \<noteq> nullptr" for t
    using sess_okD(4) [OF ok that] M by auto
  show "k \<le> S t" if "m \<in> dom (M(n \<mapsto> (al, ys)))" "sess m = (t, k)" for m t k
    using that sess_okD(6) [OF ok] unfolding dom by blast
  show "locals t = m" if "m \<in> dom (M(n \<mapsto> (al, ys)))" "sess m = (t, S t)" for m t
    using that sess_okD(7) [OF ok] unfolding dom by blast
qed (use sess_okD(5) [OF ok] in blast)

text \<open>A new node for a thread that had none.\<close>

lemma sess_ok_new:
  assumes ok: "sess_ok sess M locals A S" and n: "n \<notin> dom M" "n \<noteq> nullptr"
    and t: "locals t = nullptr" and null: "nullptr \<notin> dom M"
  shows "A (t, S t) = [] \<and>
    sess_ok (sess(n := (t, S t))) (M(n \<mapsto> (True, xs))) (locals(t := n)) (A((t, S t) := xs)) S"
proof -
  have new: "(t, S t) \<notin> sess ` dom M"
  proof
    assume "(t, S t) \<in> sess ` dom M"
    then obtain m where "m \<in> dom M" "sess m = (t, S t)" by (metis imageE)
    then have "locals t = m" "m \<in> dom M" using sess_okD(7) [OF ok] by blast+
    with t null show False by metis
  qed
  have ne: "locals u \<noteq> n" if "locals u \<noteq> nullptr" for u
    using sess_okD(4) [OF ok that] n(1) by auto
  have im: "(sess(n := (t, S t))) ` dom (M(n \<mapsto> (True, xs))) = insert (t, S t) (sess ` dom M)"
    using n(1) by (auto simp: image_iff)
  have "sess_ok (sess(n := (t, S t))) (M(n \<mapsto> (True, xs))) (locals(t := n)) (A((t, S t) := xs)) S"
  proof (rule sess_okI)
    have "inj_on (sess(n := (t, S t))) (dom M)"
      using sess_okD(1) [OF ok] n(1) by (subst inj_on_cong [where g = sess]) auto
    then show "inj_on (sess(n := (t, S t))) (dom (M(n \<mapsto> (True, xs))))"
    proof -
      assume "inj_on (sess(n := (t, S t))) (dom M)"
      moreover have "(sess(n := (t, S t))) n \<notin> (sess(n := (t, S t))) ` (dom M - {n})"
        using new by (auto simp: image_iff)
      ultimately show ?thesis by (simp only: dom_fun_upd option.distinct if_False inj_on_insert simp_thms)
    qed
    show "(A((t, S t) := xs)) ((sess(n := (t, S t))) m) = zs"
      if "(M(n \<mapsto> (True, xs))) m = Some (al, zs)" for m al zs
    proof (cases "m = n")
      case False
      then have Mm: "M m = Some (al, zs)" using that by simp
      then have "sess m \<noteq> (t, S t)" using new by (metis domI image_eqI)
      then show ?thesis using False sess_okD(2) [OF ok Mm] by simp
    qed (use that in simp)
    show "(A((t, S t) := xs)) s = []"
      if "s \<notin> (sess(n := (t, S t))) ` dom (M(n \<mapsto> (True, xs)))" for s
      using that sess_okD(3) [OF ok, of s] unfolding im by auto
    show "\<exists>zs. (M(n \<mapsto> (True, xs))) ((locals(t := n)) u) = Some (True, zs)"
      if "(locals(t := n)) u \<noteq> nullptr" for u
      using that sess_okD(4) [OF ok, of u] ne [of u] by (cases "u = t") auto
    show "(sess(n := (t, S t))) ((locals(t := n)) u) = (u, S u)" if "(locals(t := n)) u \<noteq> nullptr" for u
      using that sess_okD(5) [OF ok, of u] ne [of u] by (cases "u = t") auto
    show "k \<le> S u" if "m \<in> dom (M(n \<mapsto> (True, xs)))" "(sess(n := (t, S t))) m = (u, k)" for m u k
      using that sess_okD(6) [OF ok, of m u k] by (cases "m = n") (auto simp: dom_def)
    show "(locals(t := n)) u = m"
      if "m \<in> dom (M(n \<mapsto> (True, xs)))" "(sess(n := (t, S t))) m = (u, S u)" for m u
    proof (cases "m = n")
      case True
      then show ?thesis using that(2) by auto
    next
      case False
      then have "m \<in> dom M" "sess m = (u, S u)" using that by auto
      moreover from this have "u \<noteq> t" using new by (metis image_eqI)
      ultimately show ?thesis using sess_okD(7) [OF ok] by simp
    qed
  qed
  then show ?thesis using sess_okD(3) [OF ok new] by blast
qed

text \<open>Leaving: the node stays, unbound, or is removed with its empty queue.\<close>

lemma sess_ok_leave:
  assumes ok: "sess_ok sess M locals A S" and t: "locals t = nullptr \<or> M (locals t) = Some (True, xs)"
  shows "sess_ok sess (if locals t = nullptr then M else if xs = [] then M(locals t := None)
      else M(locals t \<mapsto> (False, xs))) (locals(t := nullptr)) A (S(t := Suc (S t)))"
    (is "sess_ok sess ?M _ _ _")
proof -
  have loc: "locals u \<noteq> locals t" if "u \<noteq> t" "locals u \<noteq> nullptr" "locals t \<noteq> nullptr" for u
    using sess_okD(5) [OF ok, of u] sess_okD(5) [OF ok, of t] that by auto
  show ?thesis
  proof (rule sess_okI)
    have sub: "n \<in> dom ?M \<Longrightarrow> n \<in> dom M" for n using t by (auto split: if_splits)
    show "inj_on sess (dom ?M)" using inj_on_subset [OF sess_okD(1) [OF ok]] sub by blast
    show "A (sess n) = ys" if "?M n = Some (al, ys)" for n al ys
      using that t sess_okD(2) [OF ok, of n] by (auto split: if_splits)
    show "A s = []" if s: "s \<notin> sess ` dom ?M" for s
    proof (cases "s \<in> sess ` dom M")
      case True
      then obtain n where n: "n \<in> dom M" "s = sess n" by blast
      then have "n \<notin> dom ?M" using s by blast
      then have "M n = Some (True, [])" using n(1) t by (auto split: if_splits)
      then show ?thesis using sess_okD(2) [OF ok] n(2) by blast
    qed (use sess_okD(3) [OF ok] in blast)
    show "\<exists>ys. ?M ((locals(t := nullptr)) u) = Some (True, ys)" if "(locals(t := nullptr)) u \<noteq> nullptr" for u
    proof -
      have u: "u \<noteq> t" "locals u \<noteq> nullptr" using that by (auto split: if_splits)
      then show ?thesis using sess_okD(4) [OF ok u(2)] loc [of u] by auto
    qed
    show "sess ((locals(t := nullptr)) u) = (u, (S(t := Suc (S t))) u)"
      if "(locals(t := nullptr)) u \<noteq> nullptr" for u
      using that sess_okD(5) [OF ok, of u] by (auto split: if_splits)
    show "k \<le> (S(t := Suc (S t))) u" if "n \<in> dom ?M" "sess n = (u, k)" for n u k
      using sess_okD(6) [OF ok sub [OF that(1)] that(2)] by (auto split: if_splits)
    show "(locals(t := nullptr)) u = n" if "n \<in> dom ?M" "sess n = (u, (S(t := Suc (S t))) u)" for n u
      using sess_okD(6,7) [OF ok sub [OF that(1)], of u] that(2) by (cases "u = t") auto
  qed
qed

context backend
begin

definition dist_sim ::
  "'b dist \<Rightarrow> (nat \<Rightarrow> addr) \<Rightarrow> (nat \<times> nat \<Rightarrow> 'e list) \<Rightarrow> (nat \<Rightarrow> nat) \<Rightarrow> bool" where
  "dist_sim d locals A S \<longleftrightarrow> (\<exists>ns M sess. dist_rep brep d ns M \<and> sess_ok sess M locals A S)"

lemma dist_sim_put:
  assumes sim: "dist_sim d locals A S" and al: "alloc_ok (da_node da)" "alloc_ok (da_backend da)"
  shows "dist_put ops da (locals t) x d = Inl BadAlloc \<or>
    (\<exists>ok local d'. dist_put ops da (locals t) x d = Inr (ok, local, d') \<and>
       dist_sim d' (locals(t := local)) (if ok then A((t, S t) := A (t, S t) @ [x]) else A) S)"
proof -
  obtain ns M sess where rep: "dist_rep brep d ns M" and ok: "sess_ok sess M locals A S"
    using sim by (auto simp: dist_sim_def)
  show ?thesis
  proof (cases "locals t = nullptr")
    case False
    obtain xs where M: "M (locals t) = Some (True, xs)" using sess_okD(4) [OF ok False] by blast
    have s: "sess (locals t) = (t, S t)" "A (t, S t) = xs"
      using sess_okD(5) [OF ok False] sess_okD(2) [OF ok M] by auto
    have same: "locals(t := locals t) = locals" by simp
    from dist_put_bound [OF rep M, of da x] show ?thesis
    proof (elim disjE exE conjE)
      fix d'
      assume "dist_put ops da (locals t) x d = Inr (True, locals t, d')"
        and "dist_rep brep d' ns (M(locals t \<mapsto> (True, xs @ [x])))"
      then show ?thesis
        using sess_ok_update [OF ok M, of "xs @ [x]"] unfolding dist_sim_def s
        by (intro disjI2 exI [of _ True] exI [of _ "locals t"] exI [of _ d'])
          (simp only: same if_True simp_thms, blast)
    qed simp
  next
    case True
    have upd: "locals(t := nullptr) = locals" using True by auto
    show ?thesis
    proof (cases "d_length d \<ge> d_capacity d \<and> droppable M = {}")
      case full: True
      then have "dist_put ops da (locals t) x d = Inr (False, nullptr, d)"
        using dist_put_new(1) [OF rep al] True by simp
      then show ?thesis using sim upd by auto
    next
      case False
      then have "dist_put ops da (locals t) x d = Inl BadAlloc \<or>
        (\<exists>n d' ns' R. dist_put ops da (locals t) x d = Inr (True, n, d') \<and> R \<subseteq> droppable M \<and>
           n \<noteq> nullptr \<and> n \<notin> dom (M |` (- R)) \<and>
           dist_rep brep d' ns' ((M |` (- R))(n \<mapsto> (True, [x]))))"
        using dist_put_new(2) [OF rep al, of x] unfolding True by (meson not_le)
      then show ?thesis
      proof (elim disjE exE conjE)
        fix n d' ns' R
        assume a: "dist_put ops da (locals t) x d = Inr (True, n, d')" "R \<subseteq> droppable M"
          "n \<noteq> nullptr" "n \<notin> dom (M |` (- R))"
          and rep': "dist_rep brep d' ns' ((M |` (- R))(n \<mapsto> (True, [x])))"
        have null: "nullptr \<notin> dom (M |` (- R))"
          using dist_repD(6,8) [OF rep] by (auto simp: restrict_map_def split: if_splits)
        note new = sess_ok_new [OF sess_ok_drop [OF ok a(2)] a(4,3) True null, of "[x]"]
        then have "dist_sim d' (locals(t := n)) (A((t, S t) := A (t, S t) @ [x])) S"
          using rep' unfolding dist_sim_def by (metis append_Nil)
        then show ?thesis using a(1) by auto
      qed simp
    qed
  qed
qed

lemma dist_sim_get:
  assumes sim: "dist_sim d locals A S"
  shows "\<exists>ok y d'. dist_get (unat (d_length d) + 1) ops rnd junk (locals t) e d = Inr (ok, y, d') \<and>
    (if ok then \<exists>s xs. A s = y # xs \<and> dist_sim d' locals (A(s := xs)) S
     else (\<forall>s. A s = []) \<and> dist_sim d' locals A S)"
proof -
  obtain ns M sess where rep: "dist_rep brep d ns M" and ok: "sess_ok sess M locals A S"
    using sim by (auto simp: dist_sim_def)
  have l: "locals t = nullptr \<or> locals t \<in> dom M" using sess_okD(4) [OF ok, of t] by blast
  have fuel: "length ns < unat (d_length d) + 1" using dist_repD(2) [OF rep] by simp
  obtain b y d' ns' M' where g: "dist_get (unat (d_length d) + 1) ops rnd junk (locals t) e d = Inr (b, y, d')"
    "dist_rep brep d' ns' M'" "get_outcome M e b y M'"
    using dist_get_rep [OF rep fuel l, of rnd junk e] by blast
  show ?thesis
  proof (cases b)
    case True
    then obtain m al xs R where m: "M m = Some (al, y # xs)" "R \<subseteq> droppable M"
      "M' = (M(m \<mapsto> (al, xs))) |` (- R)"
      using g(3) by (auto simp: get_outcome_def)
    have "m \<notin> R" using m(1,2) by (auto simp: droppable_def)
    have "R \<subseteq> droppable (M(m \<mapsto> (al, xs)))" using m(2) \<open>m \<notin> R\<close> by (auto simp: droppable_def)
    then have "sess_ok sess M' locals (A(sess m := xs)) S"
      unfolding m(3) by (rule sess_ok_drop [OF sess_ok_update [OF ok m(1), of xs]])
    moreover have "A (sess m) = y # xs" using sess_okD(2) [OF ok m(1)] .
    moreover have "dist_sim d' locals (A(sess m := xs)) S"
      using g(2) calculation(1) unfolding dist_sim_def by blast
    ultimately have "\<exists>s xs. A s = y # xs \<and> dist_sim d' locals (A(s := xs)) S" by blast
    then have "if b then \<exists>s xs. A s = y # xs \<and> dist_sim d' locals (A(s := xs)) S
        else (\<forall>s. A s = []) \<and> dist_sim d' locals A S" by (simp only: True if_True)
    then show ?thesis using g(1) by blast
  next
    case False
    then have o: "\<And>m al xs. M m = Some (al, xs) \<Longrightarrow> xs = []" "M' = M |` (- droppable M)"
      using g(3) by (auto simp: get_outcome_def)
    have "A s = []" for s
    proof (cases "s \<in> sess ` dom M")
      case True
      then obtain n al xs where "s = sess n" "M n = Some (al, xs)" by auto
      then show ?thesis using o(1) sess_okD(2) [OF ok] by metis
    qed (use sess_okD(3) [OF ok] in blast)
    moreover have "sess_ok sess M' locals A S" using sess_ok_drop [OF ok order_refl] o(2) by simp
    moreover have "dist_sim d' locals A S"
      using g(2) calculation(2) unfolding dist_sim_def by blast
    ultimately show ?thesis
      using g(1) False by (intro exI [of _ False] exI [of _ y] exI [of _ d']) auto
  qed
qed

lemma dist_sim_leave:
  assumes sim: "dist_sim d locals A S"
  shows "\<exists>d'. deregister_thread ops (locals t) d = Inr (nullptr, d') \<and>
    dist_sim d' (locals(t := nullptr)) A (S(t := Suc (S t)))"
proof -
  obtain ns M sess where rep: "dist_rep brep d ns M" and ok: "sess_ok sess M locals A S"
    using sim by (auto simp: dist_sim_def)
  show ?thesis
  proof (cases "locals t = nullptr")
    case True
    then have "deregister_thread ops (locals t) d = Inr (nullptr, d)"
      by (simp add: deregister_thread_def)
    then show ?thesis
      using sess_ok_leave [OF ok, of t "[]"] rep True unfolding dist_sim_def by auto
  next
    case False
    then obtain xs where M: "M (locals t) = Some (True, xs)" using sess_okD(4) [OF ok] by blast
    then show ?thesis
      using sess_ok_leave [OF ok, of t xs] deregister_rep [OF rep M] False
      unfolding dist_sim_def by (simp only: if_False) blast
  qed
qed

lemma dist_run_allows:
  assumes "dist_sim d locals A S" "alloc_ok (da_node da)" "alloc_ok (da_backend da)"
  shows "dist_run ops da rnd junk e cs locals d = Inl BadAlloc \<or>
    (\<exists>obs r. dist_run ops da rnd junk e cs locals d = Inr (obs, r) \<and> dist_allows A S cs obs)"
  using assms(1)
proof (induction cs arbitrary: d locals A S)
  case Nil
  show ?case by (auto intro: allows_nil)
next
  case (Cons c cs)
  show ?case
  proof (cases c)
    case (DPut t x)
    from dist_sim_put [OF Cons.prems assms(2,3), of t x] show ?thesis
    proof (elim disjE exE conjE)
      fix ok local d'
      assume a: "dist_put ops da (locals t) x d = Inr (ok, local, d')"
        and s: "dist_sim d' (locals(t := local)) (if ok then A((t, S t) := A (t, S t) @ [x]) else A) S"
      from Cons.IH [OF s] show ?thesis
        using a DPut by (cases ok) (auto simp del: fun_upd_apply intro: allows_put allows_full)
    qed (simp add: DPut)
  next
    case (DGet t)
    obtain ok y d' where a: "dist_get (unat (d_length d) + 1) ops rnd junk (locals t) e d = Inr (ok, y, d')"
      and s: "if ok then \<exists>s xs. A s = y # xs \<and> dist_sim d' locals (A(s := xs)) S
        else (\<forall>s. A s = []) \<and> dist_sim d' locals A S"
      using dist_sim_get [OF Cons.prems, of rnd junk t e] by blast
    show ?thesis
    proof (cases ok)
      case True
      then obtain q xs where "A q = y # xs" "dist_sim d' locals (A(q := xs)) S" using s by auto
      then show ?thesis using Cons.IH a DGet True by (fastforce simp del: fun_upd_apply intro: allows_got)
    next
      case False
      then have n: "A q = []" and sim: "dist_sim d' locals A S" for q using s by (cases q, simp_all)
      from Cons.IH [OF sim] show ?thesis
        using a DGet False allows_nothing [OF n] by auto
    qed
  next
    case (DLeave t)
    from dist_sim_leave [OF Cons.prems, of t] obtain d' where
      "deregister_thread ops (locals t) d = Inr (nullptr, d')"
      "dist_sim d' (locals(t := nullptr)) A (S(t := Suc (S t)))" by blast
    then show ?thesis using Cons.IH DLeave by (fastforce simp del: fun_upd_apply intro: allows_leave)
  qed
qed

end

section \<open>Construction and destruction\<close>

lemma dist_new_sim:
  assumes "rc = 0" "unat cap < 2 ^ 60"
  shows "\<exists>d. dist_new rc cap = Inr d \<and> dist_rep brep d [] Map.empty"
proof -
  let ?d = "\<lparr>d_nodes = (\<lambda>_. None), d_backends = (\<lambda>_. None),
    d_segment = replicate (unat cap) nullptr, d_capacity = cap, d_length = 0, d_version = 0\<rparr>"
  have "dist_rep brep ?d [] Map.empty"
    using assms(2) by (intro dist_repI) simp_all
  then show ?thesis using assms(1) by (simp add: dist_new_def)
qed

text \<open>
  The destructor goes through the segment from the end; the entries it has passed keep their
  stale pointers.
\<close>

definition dist_owned :: "'b dist \<Rightarrow> addr list \<Rightarrow> bool" where
  "dist_owned d ns \<longleftrightarrow> take (length ns) (d_segment d) = ns \<and> length ns \<le> length (d_segment d) \<and>
     unat (d_length d) = length ns \<and> distinct ns \<and> nullptr \<notin> set ns \<and> dom (d_nodes d) = set ns \<and>
     inj_on (backend_ptr d) (set ns) \<and> dom (d_backends d) = backend_ptr d ` set ns"

lemma dist_rep_owned: "dist_rep brep d ns M \<Longrightarrow> dist_owned d ns"
  using dist_repD [of brep d ns M] by (simp add: dist_owned_def)

lemma dist_owned_snoc:
  assumes own: "dist_owned d (ns @ [n])"
  shows "\<exists>d'. (let d1 = d\<lparr>d_length := d_length d - 1\<rparr> in
      bindE (seg_at d1 (d_length d1)) (\<lambda>node.
      bindE (assertE (node \<noteq> nullptr)) (\<lambda>_. dist_node_delete node d1))) = Inr d' \<and>
    dist_owned d' ns"
proof -
  let ?ns = "ns @ [n]"
  have o: "take (length ?ns) (d_segment d) = ?ns" "length ?ns \<le> length (d_segment d)"
    "unat (d_length d) = length ?ns" "distinct ?ns" "nullptr \<notin> set ?ns" "dom (d_nodes d) = set ?ns"
    "inj_on (backend_ptr d) (set ?ns)" "dom (d_backends d) = backend_ptr d ` set ?ns"
    using own unfolding dist_owned_def by blast+
  have len: "unat (d_length d - 1) = length ns" using unat_pred [of "d_length d"] o(3) by simp
  have "d_segment d ! length ns = take (length ?ns) (d_segment d) ! length ns" by simp
  then have seg: "d_segment d ! length ns = n" unfolding o(1) by simp
  have "n \<in> dom (d_nodes d)" using o(6) by simp
  then obtain p where p: "d_nodes d n = Some p" by blast
  have bp: "backend_ptr d n = tp_value p" using p by (simp add: backend_ptr_def)
  have "backend_ptr d n \<in> dom (d_backends d)" using o(8) by simp
  then obtain q where q: "d_backends d (tp_value p) = Some q" using bp by auto
  let ?d' = "d\<lparr>d_length := d_length d - 1, d_nodes := (d_nodes d)(n := None),
    d_backends := (d_backends d)(tp_value p := None)\<rparr>"
  have run: "(let d1 = d\<lparr>d_length := d_length d - 1\<rparr> in
      bindE (seg_at d1 (d_length d1)) (\<lambda>node.
      bindE (assertE (node \<noteq> nullptr)) (\<lambda>_. dist_node_delete node d1))) = Inr ?d'"
    using len seg o(2,5) p q
    by (simp add: Let_def seg_at_def dist_node_delete_def node_backend_def node_at_def delete_node_def)
  have same: "backend_ptr ?d' m = backend_ptr d m" if "m \<noteq> n" for m
    using that by (simp add: backend_ptr_def)
  have nin: "n \<notin> set ns" using o(4) by simp
  have im: "backend_ptr ?d' ` set ns = backend_ptr d ` set ns"
    using nin by (intro image_cong refl same) auto
  have "backend_ptr d n \<notin> backend_ptr d ` set ns" "inj_on (backend_ptr d) (set ns)"
    using o(7) nin by simp_all
  moreover have "inj_on (backend_ptr ?d') (set ns) = inj_on (backend_ptr d) (set ns)"
    using nin by (intro inj_on_cong same) auto
  moreover have "take (length ns) (d_segment d) = ns"
    using arg_cong [OF o(1), of "take (length ns)"] by simp
  moreover have "dom (d_backends ?d') = backend_ptr d ` set ns"
    using o(8) calculation(1) bp by auto
  moreover have "dom (d_nodes ?d') = set ns" using o(6) nin by auto
  ultimately have "dist_owned ?d' ns"
    unfolding dist_owned_def im using o(2,4,5) len by auto
  then show ?thesis using run by blast
qed

lemma dist_delete_owned:
  "dist_owned d ns \<Longrightarrow> length ns < fuel \<Longrightarrow>
   \<exists>d'. dist_delete fuel d = Inr d' \<and> d_nodes d' = Map.empty \<and> d_backends d' = Map.empty"
proof (induction ns arbitrary: d fuel rule: rev_induct)
  case Nil
  then obtain f where "fuel = Suc f" by (cases fuel) auto
  moreover have "d_length d = 0" "d_nodes d = Map.empty" "d_backends d = Map.empty"
    using Nil.prems(1) by (auto simp: dist_owned_def unat_eq_0)
  ultimately show ?case by simp
next
  case (snoc n ns)
  obtain f where f: "fuel = Suc f" "length ns < f" using snoc.prems(2) by (cases fuel) auto
  obtain d' where d': "(let d1 = d\<lparr>d_length := d_length d - 1\<rparr> in
      bindE (seg_at d1 (d_length d1)) (\<lambda>node.
      bindE (assertE (node \<noteq> nullptr)) (\<lambda>_. dist_node_delete node d1))) = Inr d'" "dist_owned d' ns"
    using dist_owned_snoc [OF snoc.prems(1)] by blast
  have "unat (d_length d) \<noteq> 0" using snoc.prems(1) by (simp add: dist_owned_def)
  then have pos: "d_length d > 0" by (simp add: word_gt_0 unat_eq_0)
  have "dist_delete fuel d = dist_delete f d'"
    using d'(1) pos f(1) by (auto simp: Let_def bindE_Inr_iff)
  then show ?case using snoc.IH [OF d'(2) f(2)] by simp
qed

section \<open>Properties\<close>

text \<open>
  C7: With \<open>MSQueue\<close> as the backend, any sequence of \<open>put\<close>, \<open>get\<close> and \<open>deregister_thread\<close>
  by any threads on a new container either runs out of memory or is locally linearizable:
  the elements one session of a thread puts come out in that order, each once, \<open>get\<close>
  delivers the first element of some session and fails only when every session's queue is
  empty, and elements of threads that have left are still delivered. This holds for any
  numbers of the random generator, any content of the uninitialised array and any spurious
  failures; no call runs for ever, uses a freed node or leaves the segment.
\<close>

theorem dist_locally_linearizable:
  fixes alloc :: "'a node alloc"
  assumes "alloc_ok (da_node da)" "alloc_ok (da_backend da)" "alloc_ok alloc" "unat cap < 2 ^ 60"
  shows "\<exists>d. dist_new 0 cap = Inr d \<and>
    (dist_run (ms_ops sp alloc dflt) da rnd junk e cs (\<lambda>_. nullptr) d = Inl BadAlloc \<or>
     (\<exists>obs r. dist_run (ms_ops sp alloc dflt) da rnd junk e cs (\<lambda>_. nullptr) d = Inr (obs, r) \<and>
        dist_allows (\<lambda>_. []) (\<lambda>_. 0) cs obs))"
proof -
  obtain d :: "'a msq dist" where d: "dist_new 0 cap = Inr d" "dist_rep ms_rep d [] Map.empty"
    using dist_new_sim [OF refl assms(4), of ms_rep] by blast
  moreover have "sess_ok (\<lambda>_. (0, 0)) Map.empty (\<lambda>_. nullptr) (\<lambda>_. []) (\<lambda>_. 0)"
    by (intro sess_okI) simp_all
  ultimately have "ms.dist_sim d (\<lambda>_. nullptr) (\<lambda>_. []) (\<lambda>_. 0)"
    unfolding ms.dist_sim_def by blast
  from ms.dist_run_allows [OF this assms(1,2), where alloc = alloc] show ?thesis
    using d(1) unfolding checked_alloc_id [OF assms(3)] by blast
qed

text \<open>
  C38: A thread without a backend is refused (\<open>put\<close> returns false and changes nothing) exactly
  when the segment is full and holds no backend that is dead and empty. Otherwise, unless
  memory runs out, it gets a new node that holds the element, and only dead and empty
  backends have been removed, none of them while there was room.
\<close>

theorem dist_put_refused:
  assumes "dist_rep ms_rep d ns M" "alloc_ok (da_node da)" "alloc_ok (da_backend da)" "alloc_ok alloc"
  shows "(d_length d \<ge> d_capacity d \<and> droppable M = {} \<longrightarrow>
      dist_put (ms_ops sp alloc dflt) da nullptr x d = Inr (False, nullptr, d)) \<and>
    (d_length d < d_capacity d \<or> droppable M \<noteq> {} \<longrightarrow>
      dist_put (ms_ops sp alloc dflt) da nullptr x d = Inl BadAlloc \<or>
      (\<exists>n d' ns' R. dist_put (ms_ops sp alloc dflt) da nullptr x d = Inr (True, n, d') \<and>
         R \<subseteq> droppable M \<and> (d_length d < d_capacity d \<longrightarrow> R = {}) \<and> n \<noteq> nullptr \<and>
         n \<notin> dom (M |` (- R)) \<and> dist_rep ms_rep d' ns' ((M |` (- R))(n \<mapsto> (True, [x])))))"
proof (intro conjI impI)
  show "dist_put (ms_ops sp alloc dflt) da nullptr x d = Inr (False, nullptr, d)"
    if "d_length d \<ge> d_capacity d \<and> droppable M = {}"
    using ms.dist_put_new(1) [OF assms(1-3), where alloc = alloc and sp = sp and dflt = dflt and x = x] that
    unfolding checked_alloc_id [OF assms(4)] by blast
  show "dist_put (ms_ops sp alloc dflt) da nullptr x d = Inl BadAlloc \<or>
      (\<exists>n d' ns' R. dist_put (ms_ops sp alloc dflt) da nullptr x d = Inr (True, n, d') \<and>
         R \<subseteq> droppable M \<and> (d_length d < d_capacity d \<longrightarrow> R = {}) \<and> n \<noteq> nullptr \<and>
         n \<notin> dom (M |` (- R)) \<and> dist_rep ms_rep d' ns' ((M |` (- R))(n \<mapsto> (True, [x]))))"
    if "d_length d < d_capacity d \<or> droppable M \<noteq> {}"
    using ms.dist_put_new(2) [OF assms(1-3) that, where alloc = alloc and sp = sp and dflt = dflt and x = x]
    unfolding checked_alloc_id [OF assms(4)] .
qed

text \<open>
  The destructor ends, never meets a null node, and frees every node and every backend.
\<close>

lemma dist_delete_frees:
  assumes "dist_rep ms_rep d ns M" "length ns < fuel"
  shows "\<exists>d'. dist_delete fuel d = Inr d' \<and> d_nodes d' = Map.empty \<and> d_backends d' = Map.empty"
  by (rule dist_delete_owned [OF dist_rep_owned [OF assms(1)] assms(2)])

definition demo_da :: "nat msq dist_alloc" where
  "demo_da = \<lparr>da_node = pool_alloc [1, 2, 3, 4], da_backend = pool_alloc [1, 2, 3, 4]\<rparr>"

theorem dist_locally_linearizable_witness:
  "\<exists>d obs r. dist_new 0 2 = Inr d \<and>
    dist_run (ms_ops [] (pool_alloc [1, 2, 3, 4]) 0) demo_da (\<lambda>_. 7) 9 0
      [DPut 0 5, DPut 1 6, DLeave 0, DGet 1, DGet 1, DPut 0 7, DGet 2, DGet 2] (\<lambda>_. nullptr) d = Inr (obs, r) \<and>
    dist_allows (\<lambda>_. []) (\<lambda>_. 0)
      [DPut 0 5, DPut 1 6, DLeave 0, DGet 1, DGet 1, DPut 0 7, DGet 2, DGet 2] obs"
proof -
  let ?cs = "[DPut 0 5, DPut 1 6, DLeave 0, DGet 1, DGet 1, DPut 0 7, DGet 2, DGet 2] :: nat dist_op list"
  have h: "alloc_ok (da_node demo_da)" "alloc_ok (da_backend demo_da)" "unat (2 :: u64) < 2 ^ 60"
    by (simp_all add: demo_da_def alloc_ok_four)
  have "(case bindE (dist_new 0 2)
      (dist_run (ms_ops [] (pool_alloc [1, 2, 3, 4]) 0) demo_da (\<lambda>_. 7) 9 0 ?cs (\<lambda>_. nullptr)) of
      Inl _ \<Rightarrow> False | Inr _ \<Rightarrow> True)"
    by code_simp
  then show ?thesis
    using dist_locally_linearizable [OF h(1,2) alloc_ok_four h(3), of "[]" 0 "\<lambda>_. 7" 9 0 ?cs] by auto
qed

theorem dist_put_refused_witness:
  "\<exists>d. dist_new 0 0 = Inr d \<and>
    dist_put (ms_ops [] (pool_alloc [1, 2, 3, 4]) 0) demo_da nullptr 5 d = Inr (False, nullptr, d)"
proof -
  have h: "alloc_ok (da_node demo_da)" "alloc_ok (da_backend demo_da)" "unat (0 :: u64) < 2 ^ 60"
    by (simp_all add: demo_da_def alloc_ok_four)
  obtain d :: "nat msq dist" where d: "dist_new 0 0 = Inr d" "dist_rep ms_rep d [] Map.empty"
    using dist_new_sim [OF refl h(3), of ms_rep] by blast
  have "d_length d \<ge> d_capacity d" using d(1) by (auto simp: dist_new_def)
  moreover have "droppable (Map.empty :: addr \<rightharpoonup> bool \<times> nat list) = {}" by (simp add: droppable_def)
  ultimately show ?thesis
    using dist_put_refused [OF d(2) h(1,2) alloc_ok_four, of "[]" 0 5] d(1) by blast
qed

end
