(* ===== verification/Dist_Concurrent.thy ===== *)
theory Dist_Concurrent
  imports Distributed_Run
begin

text \<open>
  \<^verbatim>\<open>include/ni/cds/distributed/dynamic.hh\<close> with any number of threads running at the same time.
  The operations are cut at their statements and conditions; a call of the backend is one step,
  as \<open>MSQueue\<close> is linearizable. \<open>m_lock\<close> is taken and released in one step each (\<open>Spin_Lock\<close> has
  its implementation). \<open>m_segment_length\<close>, \<open>m_version\<close>, the slots of the segment and the tags
  of the nodes are plain variables in the code; here their accesses are sequentially consistent.
\<close>

section \<open>Program points\<close>

datatype remove_pc =
    RemRead u64
  | RemAlive u64 addr
  | RemEmpty u64 addr
  | RemDelete u64 addr
  | RemLength u64
  | RemMove u64
  | RemClear
  | RemVersion

datatype 'e put_pc =
    PutLock 'e
  | PutFull 'e
  | PurgeTest 'e u64
  | PurgeAlive 'e u64
  | PurgeEmpty 'e u64
  | PurgeRemove 'e u64 remove_pc
  | PutRoom 'e
  | PutNew 'e
  | PutStore 'e addr
  | PutVersion 'e
  | PutQueue 'e

text \<open>
  The local variables of \<open>get\<close>: \<open>start\<close>, \<open>version\<close>, the array \<open>tails_states\<close> and \<open>i\<close>, then
  \<open>index\<close> and \<open>node\<close>.
\<close>

datatype get_pc =
    GetLocal
  | GetWhile
  | GetStart
  | GetVersion u64
  | GetArray u64 u64
  | GetTest u64 u64 "u16 list" u64
  | GetNode u64 u64 "u16 list" u64
  | GetPop u64 u64 "u16 list" u64 u64 addr
  | GetAlive u64 u64 "u16 list" u64 u64 addr
  | GetRemove remove_pc
  | GetCheck u64 u64 "u16 list"
  | TailTest u64 "u16 list" u64
  | TailRead u64 "u16 list" u64

datatype leave_pc =
    LeaveOff
  | LeaveEmpty addr
  | LeaveTest addr u64
  | LeaveLook addr u64
  | LeaveLock u64
  | LeaveRemove remove_pc

datatype 'e dist_pc = Outside | InPut "'e put_pc" | InGet get_pc | InLeave leave_pc

text \<open>
  Events: calls, the steps that put into and take out of the backend of a node, returns.
\<close>

datatype 'e dist_call = CPut 'e | CGet | CLeave

datatype 'e dist_ret = RPut bool | RGot 'e | RNothing | RLeft

datatype 'e dist_event = DCall "'e dist_call" | DEnq addr 'e | DDeq addr 'e | DRet "'e dist_ret"

text \<open>
  A step gives the next program point or a result, the thread's \<open>BackendPtr\<close>, whether the lock is
  held, the container and the events.
\<close>

type_synonym ('p, 'b, 'e) dist_outcome = "('p + 'e dist_ret) \<times> addr \<times> bool \<times> 'b dist \<times> 'e dist_event list"

section \<open>The steps of the operations\<close>

fun remove_go :: "('b, 'e) backend_ops \<Rightarrow> remove_pc \<Rightarrow> 'b dist \<Rightarrow> (remove_pc option \<times> 'b dist) result" where
  "remove_go ops (RemRead index) d =
     bindE (seg_at d index) (\<lambda>node. Inr (if node = nullptr then None else Some (RemAlive index node), d))"
| "remove_go ops (RemAlive index node) d =
     bindE (node_alive d node) (\<lambda>alive. Inr (if alive then None else Some (RemEmpty index node), d))"
| "remove_go ops (RemEmpty index node) d =
     bindE (node_empty ops d node) (\<lambda>empty. Inr (if empty then Some (RemDelete index node) else None, d))"
| "remove_go ops (RemDelete index node) d =
     bindE (dist_node_delete node d) (\<lambda>d'. Inr (Some (RemLength index), d'))"
| "remove_go ops (RemLength index) d = Inr (Some (RemMove index), d\<lparr>d_length := d_length d - 1\<rparr>)"
| "remove_go ops (RemMove index) d =
     bindE (seg_at d (d_length d)) (\<lambda>last_node.
     bindE (seg_set index last_node d) (\<lambda>d'. Inr (Some RemClear, d')))"
| "remove_go ops RemClear d =
     bindE (seg_set (d_length d) nullptr d) (\<lambda>d'. Inr (Some RemVersion, d'))"
| "remove_go ops RemVersion d = Inr (None, d\<lparr>d_version := d_version d + 1\<rparr>)"

fun put_go :: "('b, 'e) backend_ops \<Rightarrow> 'b dist_alloc \<Rightarrow> 'e put_pc \<Rightarrow> addr \<Rightarrow> bool \<Rightarrow> 'b dist \<Rightarrow>
    ('e put_pc, 'b, 'e) dist_outcome result" where
  "put_go ops al (PutLock x) local lock d =
     Inr (if local \<noteq> nullptr then (Inl (PutQueue x), local, lock, d, [])
          else if lock then (Inl (PutLock x), local, lock, d, [])
          else (Inl (PutFull x), local, True, d, []))"
| "put_go ops al (PutFull x) local lock d =
     Inr (Inl (if d_length d \<ge> d_capacity d then PurgeTest x 0 else PutRoom x), local, lock, d, [])"
| "put_go ops al (PurgeTest x i) local lock d =
     Inr (Inl (if i < d_length d then PurgeAlive x i else PutRoom x), local, lock, d, [])"
| "put_go ops al (PurgeAlive x i) local lock d =
     bindE (seg_at d i) (\<lambda>node.
     bindE (node_alive d node) (\<lambda>alive.
     Inr (Inl (if \<not> alive then PurgeEmpty x i else PurgeTest x (i + 1)), local, lock, d, [])))"
| "put_go ops al (PurgeEmpty x i) local lock d =
     bindE (seg_at d i) (\<lambda>node.
     bindE (node_empty ops d node) (\<lambda>empty.
     Inr (Inl (if empty then PurgeRemove x i (RemRead i) else PurgeTest x (i + 1)), local, lock, d, [])))"
| "put_go ops al (PurgeRemove x i r) local lock d =
     bindE (remove_go ops r d) (\<lambda>(r', d').
     Inr (Inl (case r' of None \<Rightarrow> PurgeTest x (i + 1) | Some r \<Rightarrow> PurgeRemove x i r), local, lock, d', []))"
| "put_go ops al (PutRoom x) local lock d =
     Inr (if d_length d \<ge> d_capacity d then (Inr (RPut False), local, False, d, [])
          else (Inl (PutNew x), local, lock, d, []))"
| "put_go ops al (PutNew x) local lock d =
     bindE (dist_node_new ops al d) (\<lambda>(node, d'). Inr (Inl (PutStore x node), local, lock, d', []))"
| "put_go ops al (PutStore x node) local lock d =
     bindE (seg_set (d_length d) node d) (\<lambda>d'.
     Inr (Inl (PutVersion x), node, lock, d'\<lparr>d_length := d_length d' + 1\<rparr>, []))"
| "put_go ops al (PutVersion x) local lock d =
     Inr (Inl (PutQueue x), local, False, d\<lparr>d_version := d_version d + 1\<rparr>, [])"
| "put_go ops al (PutQueue x) local lock d =
     bindE (node_backend d local) (\<lambda>b.
     bindE (backend_at d b) (\<lambda>q.
     bindE (backend_put ops x q) (\<lambda>(ok, q').
     Inr (Inr (RPut ok), local, lock, store_backend b q' d, if ok then [DEnq local x] else []))))"

text \<open>
  \<open>rnd\<close> is the number the generator gives in this step, \<open>junk\<close> fills the uninitialised array,
  \<open>e\<close> is what \<open>*element\<close> holds. The size of the array is fixed where it is declared; the loops
  run to the length of the segment at each test.
\<close>

fun get_go :: "('b, 'e) backend_ops \<Rightarrow> u64 \<Rightarrow> u16 \<Rightarrow> 'e \<Rightarrow> get_pc \<Rightarrow> addr \<Rightarrow> bool \<Rightarrow> 'b dist \<Rightarrow>
    (get_pc, 'b, 'e) dist_outcome result" where
  "get_go ops rnd junk e GetLocal local lock d =
     (if local = nullptr then Inr (Inl GetWhile, local, lock, d, [])
      else
        bindE (node_backend d local) (\<lambda>b.
        bindE (backend_at d b) (\<lambda>q.
        bindE (backend_get ops e q) (\<lambda>(ok, x, q').
        Inr (if ok then Inr (RGot x) else Inl GetWhile, local, lock, store_backend b q' d,
             if ok then [DDeq local x] else [])))))"
| "get_go ops rnd junk e GetWhile local lock d =
     Inr (if d_length d \<noteq> 0 then Inl GetStart else Inr RNothing, local, lock, d, [])"
| "get_go ops rnd junk e GetStart local lock d =
     (if d_length d = 0 then Inl DivideByZero
      else Inr (Inl (GetVersion (rnd mod d_length d)), local, lock, d, []))"
| "get_go ops rnd junk e (GetVersion start) local lock d =
     Inr (Inl (GetArray start (d_version d)), local, lock, d, [])"
| "get_go ops rnd junk e (GetArray start version) local lock d =
     Inr (Inl (GetTest start version (replicate (unat (d_length d)) junk) 0), local, lock, d, [])"
| "get_go ops rnd junk e (GetTest start version tails i) local lock d =
     Inr (Inl (if i < d_length d then GetNode start version tails i else GetCheck start version tails),
          local, lock, d, [])"
| "get_go ops rnd junk e (GetNode start version tails i) local lock d =
     (if d_length d = 0 then Inl DivideByZero
      else
        let index = (start + i) mod d_length d in
        bindE (seg_at d index) (\<lambda>node.
        Inr (Inl (GetPop start version tails i index node), local, lock, d, [])))"
| "get_go ops rnd junk e (GetPop start version tails i index node) local lock d =
     bindE (node_backend d node) (\<lambda>b.
     if b = nullptr then Inr (Inl (GetTest start version tails (i + 1)), local, lock, d, [])
     else if unat i \<ge> length tails then Inl (BadIndex i)
     else
       bindE (backend_at d b) (\<lambda>q.
       bindE (backend_pop ops e (tails ! unat i) q) (\<lambda>(ok, x, s, q').
       Inr (if ok then Inr (RGot x)
            else Inl (GetAlive start version (tails[unat i := s]) i index node),
            local, lock, store_backend b q' d, if ok then [DDeq node x] else []))))"
| "get_go ops rnd junk e (GetAlive start version tails i index node) local lock d =
     bindE (node_alive d node) (\<lambda>alive.
     Inr (Inl (if \<not> alive then GetRemove (RemRead index) else GetTest start version tails (i + 1)),
          local, lock, d, []))"
| "get_go ops rnd junk e (GetRemove r) local lock d =
     bindE (remove_go ops r d) (\<lambda>(r', d').
     Inr (Inl (case r' of None \<Rightarrow> GetWhile | Some r \<Rightarrow> GetRemove r), local, lock, d', []))"
| "get_go ops rnd junk e (GetCheck start version tails) local lock d =
     Inr (Inl (if d_version d \<noteq> version then GetWhile else TailTest start tails 0), local, lock, d, [])"
| "get_go ops rnd junk e (TailTest start tails i) local lock d =
     Inr (if i < d_length d then Inl (TailRead start tails i) else Inr RNothing, local, lock, d, [])"
| "get_go ops rnd junk e (TailRead start tails i) local lock d =
     (if d_length d = 0 then Inl DivideByZero
      else
        let index = (start + i) mod d_length d in
        bindE (seg_at d index) (\<lambda>node.
        bindE (node_backend d node) (\<lambda>b.
        if b = nullptr then Inr (Inl (TailTest start tails (i + 1)), local, lock, d, [])
        else if unat i \<ge> length tails then Inl (BadIndex i)
        else
          bindE (backend_at d b) (\<lambda>q.
          Inr (Inl (if backend_tail_state ops q \<noteq> tails ! unat i then GetWhile
                    else TailTest start tails (i + 1)), local, lock, d, [])))))"

fun leave_go :: "('b, 'e) backend_ops \<Rightarrow> leave_pc \<Rightarrow> addr \<Rightarrow> bool \<Rightarrow> 'b dist \<Rightarrow>
    (leave_pc, 'b, 'e) dist_outcome result" where
  "leave_go ops LeaveOff local lock d =
     (if local = nullptr then Inr (Inr RLeft, local, lock, d, [])
      else bindE (turn_off local d) (\<lambda>d'. Inr (Inl (LeaveEmpty local), nullptr, lock, d', [])))"
| "leave_go ops (LeaveEmpty node) local lock d =
     bindE (node_empty ops d node) (\<lambda>empty.
     Inr (if \<not> empty then Inr RLeft else Inl (LeaveTest node 0), local, lock, d, []))"
| "leave_go ops (LeaveTest node i) local lock d =
     Inr (if i < d_length d then Inl (LeaveLook node i) else Inr RLeft, local, lock, d, [])"
| "leave_go ops (LeaveLook node i) local lock d =
     bindE (seg_at d i) (\<lambda>a.
     Inr (Inl (if a = node then LeaveLock i else LeaveTest node (i + 1)), local, lock, d, []))"
| "leave_go ops (LeaveLock i) local lock d =
     Inr (if lock then (Inl (LeaveLock i), local, lock, d, [])
          else (Inl (LeaveRemove (RemRead i)), local, True, d, []))"
| "leave_go ops (LeaveRemove r) local lock d =
     bindE (remove_go ops r d) (\<lambda>(r', d').
     Inr (case r' of None \<Rightarrow> (Inr RLeft, local, False, d', [])
          | Some r \<Rightarrow> (Inl (LeaveRemove r), local, lock, d', [])))"

section \<open>Threads\<close>

record ('t, 'b, 'e) dist_threads =
  container :: "'b dist"
  m_lock :: bool
  local_backend :: "'t \<Rightarrow> addr"
  point :: "'t \<Rightarrow> 'e dist_pc"

fun dist_begin :: "'e dist_call \<Rightarrow> 'e dist_pc" where
  "dist_begin (CPut x) = InPut (PutLock x)"
| "dist_begin CGet = InGet GetLocal"
| "dist_begin CLeave = InLeave LeaveOff"

definition dist_on :: "('p \<Rightarrow> 'e dist_pc) \<Rightarrow> ('p, 'b, 'e) dist_outcome result \<Rightarrow>
    ('e dist_pc \<times> addr \<times> bool \<times> 'b dist \<times> 'e dist_event list) result" where
  "dist_on wrap r =
     bindE r (\<lambda>(k, local, lock, d, es).
     Inr (case k of Inl p \<Rightarrow> (wrap p, local, lock, d, es)
          | Inr v \<Rightarrow> (Outside, local, lock, d, es @ [DRet v])))"

fun dist_go :: "('b, 'e) backend_ops \<Rightarrow> 'b dist_alloc \<Rightarrow> u16 \<Rightarrow> 'e \<Rightarrow> u64 \<Rightarrow> 'e dist_pc \<Rightarrow> addr \<Rightarrow> bool \<Rightarrow>
    'b dist \<Rightarrow> ('e dist_pc \<times> addr \<times> bool \<times> 'b dist \<times> 'e dist_event list) result" where
  "dist_go ops al junk e rnd Outside local lock d = Inr (Outside, local, lock, d, [])"
| "dist_go ops al junk e rnd (InPut p) local lock d = dist_on InPut (put_go ops al p local lock d)"
| "dist_go ops al junk e rnd (InGet p) local lock d = dist_on InGet (get_go ops rnd junk e p local lock d)"
| "dist_go ops al junk e rnd (InLeave p) local lock d = dist_on InLeave (leave_go ops p local lock d)"

datatype ('t, 'e) dist_choice = Begin 't "'e dist_call" | Go 't u64

fun dist_next :: "('b, 'e) backend_ops \<Rightarrow> 'b dist_alloc \<Rightarrow> u16 \<Rightarrow> 'e \<Rightarrow> ('t, 'e) dist_choice \<Rightarrow>
    ('t, 'b, 'e) dist_threads \<Rightarrow> (('t, 'b, 'e) dist_threads \<times> ('t \<times> 'e dist_event) list) result" where
  "dist_next ops al junk e (Begin t c) s =
     Inr (if point s t = Outside
          then (s\<lparr>point := (point s)(t := dist_begin c)\<rparr>, [(t, DCall c)]) else (s, []))"
| "dist_next ops al junk e (Go t rnd) s =
     bindE (dist_go ops al junk e rnd (point s t) (local_backend s t) (m_lock s) (container s))
       (\<lambda>(p, local, lock, d, es).
     Inr (s\<lparr>container := d, m_lock := lock, local_backend := (local_backend s)(t := local),
            point := (point s)(t := p)\<rparr>, map (Pair t) es))"

fun dist_exec :: "('b, 'e) backend_ops \<Rightarrow> 'b dist_alloc \<Rightarrow> u16 \<Rightarrow> 'e \<Rightarrow> ('t, 'e) dist_choice list \<Rightarrow>
    ('t, 'b, 'e) dist_threads \<Rightarrow> (('t, 'b, 'e) dist_threads \<times> ('t \<times> 'e dist_event) list) result" where
  "dist_exec ops al junk e [] s = Inr (s, [])"
| "dist_exec ops al junk e (c # cs) s =
     bindE (dist_next ops al junk e c s) (\<lambda>(s', es).
     bindE (dist_exec ops al junk e cs s') (\<lambda>(s'', es').
     Inr (s'', es @ es')))"

definition dist_start :: "'b dist \<Rightarrow> ('t, 'b, 'e) dist_threads" where
  "dist_start d = \<lparr>container = d, m_lock = False, local_backend = \<lambda>_. nullptr, point = \<lambda>_. Outside\<rparr>"

end
