(* ===== verification/Dist_Linear.thy ===== *)
theory Dist_Linear
  imports Dist_Concurrent
begin

text \<open>
  What holds of \<^verbatim>\<open>include/ni/cds/distributed/dynamic.hh\<close> while threads run at the same time: as
  long as no backend is added or removed, \<open>put\<close> and \<open>get\<close> of any threads are safe, each backend is
  a FIFO queue, and a \<open>get\<close> that finds nothing is right, in the sense that all backends were
  empty at one moment of its run, unless some backend got \<open>2 ^ 16\<close> elements meanwhile.
\<close>

section \<open>The specification\<close>

text \<open>
  What each backend holds, and how many elements have been put into it. A running \<open>get\<close> remembers
  whether all backends have been empty since it was called, and the numbers at its call.
\<close>

record 'e dist_view =
  held :: "addr \<Rightarrow> 'e list"
  puts :: "addr \<Rightarrow> nat"

datatype 'e dist_status = NotIn | Putting 'e | PutIn | Getting bool "addr \<Rightarrow> nat" | GotIn 'e

definition all_empty :: "addr list \<Rightarrow> 'e dist_view \<Rightarrow> bool" where
  "all_empty ns v = list_all (\<lambda>n. held v n = []) ns"

definition late :: "addr list \<Rightarrow> 'e dist_view \<Rightarrow> (addr \<Rightarrow> nat) \<Rightarrow> bool" where
  "late ns v P0 = list_ex (\<lambda>n. P0 n + 65536 \<le> puts v n) ns"

definition look :: "addr list \<Rightarrow> 'e dist_view \<Rightarrow> 'e dist_status \<Rightarrow> 'e dist_status" where
  "look ns v st = (case st of Getting seen P0 \<Rightarrow> Getting (seen \<or> all_empty ns v) P0 | _ \<Rightarrow> st)"

text \<open>\<open>mine\<close> is the node of the thread's own backend.\<close>

fun view_go :: "addr list \<Rightarrow> addr \<Rightarrow> 'e dist_event \<Rightarrow> 'e dist_view \<Rightarrow> 'e dist_status \<Rightarrow>
    ('e dist_view \<times> 'e dist_status) option" where
  "view_go ns mine (DCall (CPut x)) v NotIn = Some (v, Putting x)"
| "view_go ns mine (DEnq n x) v (Putting y) =
     (if n = mine \<and> x = y
      then Some (v\<lparr>held := (held v)(n := held v n @ [x]), puts := (puts v)(n := puts v n + 1)\<rparr>, PutIn)
      else None)"
| "view_go ns mine (DRet (RPut True)) v PutIn = Some (v, NotIn)"
| "view_go ns mine (DCall CGet) v NotIn = Some (v, Getting False (puts v))"
| "view_go ns mine (DDeq n x) v (Getting seen P0) =
     (case held v n of [] \<Rightarrow> None
      | y # ys \<Rightarrow> if x = y then Some (v\<lparr>held := (held v)(n := ys)\<rparr>, GotIn x) else None)"
| "view_go ns mine (DRet (RGot x)) v (GotIn y) = (if x = y then Some (v, NotIn) else None)"
| "view_go ns mine (DRet RNothing) v (Getting seen P0) =
     (if seen \<or> late ns v P0 then Some (v, NotIn) else None)"
| "view_go ns mine _ v _ = None"

fun view_run :: "addr list \<Rightarrow> addr \<Rightarrow> 'e dist_event list \<Rightarrow> 'e dist_view \<Rightarrow> 'e dist_status \<Rightarrow>
    ('e dist_view \<times> 'e dist_status) option" where
  "view_run ns mine [] v x = Some (v, x)"
| "view_run ns mine (e # es) v x =
     (case view_go ns mine e v x of None \<Rightarrow> None
      | Some (v', x') \<Rightarrow> view_run ns mine es v' (look ns v' x'))"

text \<open>The events of all threads; after each, every running \<open>get\<close> looks whether all is empty.\<close>

fun view_trace :: "addr list \<Rightarrow> ('t \<Rightarrow> addr) \<Rightarrow> ('t \<times> 'e dist_event) list \<Rightarrow> 'e dist_view \<Rightarrow>
    ('t \<Rightarrow> 'e dist_status) \<Rightarrow> ('e dist_view \<times> ('t \<Rightarrow> 'e dist_status)) option" where
  "view_trace ns mine [] v st = Some (v, st)"
| "view_trace ns mine ((t, e) # es) v st =
     (case view_go ns (mine t) e v (st t) of None \<Rightarrow> None
      | Some (v', x) \<Rightarrow> view_trace ns mine es v' (\<lambda>u. look ns v' ((st(t := x)) u)))"

lemma view_trace_append:
  "view_trace ns mine (es @ es') v st =
    (case view_trace ns mine es v st of None \<Rightarrow> None | Some (v', st') \<Rightarrow> view_trace ns mine es' v' st')"
  by (induction es arbitrary: v st) (auto split: option.splits)

text \<open>A status that has been looked at, and how looking changes it.\<close>

definition grew :: "'e dist_status \<Rightarrow> 'e dist_status \<Rightarrow> bool" where
  "grew x y \<longleftrightarrow> x = y \<or> (\<exists>P0. x = Getting False P0 \<and> y = Getting True P0)"

lemma grew_refl [simp]: "grew x x"
  by (simp add: grew_def)

lemma grew_trans: "grew x y \<Longrightarrow> grew y z \<Longrightarrow> grew x z"
  by (auto simp: grew_def)

lemma grew_look [simp]: "grew x (look ns v x)"
  by (cases x) (auto simp: grew_def look_def)

lemma look_look [simp]: "look ns v (look ns v x) = look ns v x"
  by (cases x) (auto simp: look_def)

lemma view_trace_thread:
  assumes "view_run ns (mine t) es v (st t) = Some (v', x)" "\<And>u. look ns v (st u) = st u"
  shows "\<exists>st'. view_trace ns mine (map (Pair t) es) v st = Some (v', st') \<and> st' t = x \<and>
    (\<forall>u. u \<noteq> t \<longrightarrow> grew (st u) (st' u)) \<and> (\<forall>u. look ns v' (st' u) = st' u)"
  using assms
proof (induction es arbitrary: v st)
  case Nil
  then show ?case by auto
next
  case (Cons e es)
  obtain v1 x1 where g: "view_go ns (mine t) e v (st t) = Some (v1, x1)"
    "view_run ns (mine t) es v1 (look ns v1 x1) = Some (v', x)"
    using Cons.prems(1) by (auto split: option.splits)
  let ?st = "\<lambda>u. look ns v1 ((st(t := x1)) u)"
  have "view_run ns (mine t) es v1 (?st t) = Some (v', x)" using g(2) by simp
  from Cons.IH [of v1 ?st, OF this] obtain st' where st': "view_trace ns mine (map (Pair t) es) v1 ?st = Some (v', st')"
    "st' t = x" "\<And>u. u \<noteq> t \<Longrightarrow> grew (?st u) (st' u)" "\<And>u. look ns v' (st' u) = st' u"
    by auto
  have "grew (st u) (st' u)" if "u \<noteq> t" for u
    using grew_trans [OF grew_look st'(3) [OF that]] that by simp
  then show ?case using g(1) st' by auto
qed

section \<open>Invariant\<close>

definition nth_node :: "addr list \<Rightarrow> nat \<Rightarrow> nat \<Rightarrow> addr" where
  "nth_node ns s j = ns ! ((s + j) mod length ns)"

lemma nth_node_in: "ns \<noteq> [] \<Longrightarrow> nth_node ns s j \<in> set ns"
  by (simp add: nth_node_def)

lemma nth_node_onto:
  assumes "n \<in> set ns"
  obtains j where "j < length ns" "nth_node ns s j = n"
proof -
  obtain k where k: "k < length ns" "ns ! k = n" using assms by (auto simp: in_set_conv_nth)
  obtain j where "j < length ns" "(s + j) mod length ns = k"
    using mod_rotation_onto [OF k(1), of s] by blast
  then show ?thesis using k that by (simp add: nth_node_def)
qed

text \<open>The container holds the view. No step changes its nodes, its segment or its version.\<close>

definition shows_view ::
  "('b \<Rightarrow> 'e list \<Rightarrow> bool) \<Rightarrow> ('b, 'e) backend_ops \<Rightarrow> addr list \<Rightarrow> (addr \<Rightarrow> u16) \<Rightarrow> u64 \<Rightarrow> 'b dist \<Rightarrow>
   'e dist_view \<Rightarrow> bool" where
  "shows_view brep ops ns base ver d v \<longleftrightarrow>
     dist_rep brep d ns (\<lambda>n. if n \<in> set ns then Some (True, held v n) else None) \<and>
     d_version d = ver \<and> (\<forall>n \<in> set ns. tail_of ops d n = base n + of_nat (puts v n))"

text \<open>
  The first loop has read the tail states of \<open>k\<close> backends, each when it was empty: \<open>p\<close> is how many
  elements had been put by then, and if no more were put, it is empty still.
\<close>

definition scan_inv ::
  "addr list \<Rightarrow> (addr \<Rightarrow> u16) \<Rightarrow> 'e dist_view \<Rightarrow> (addr \<Rightarrow> nat) \<Rightarrow> nat \<Rightarrow> u16 list \<Rightarrow> nat \<Rightarrow> bool" where
  "scan_inv ns base v P0 s tails k \<longleftrightarrow> s < length ns \<and> length tails = length ns \<and>
     (\<exists>p. (\<forall>n \<in> set ns. P0 n \<le> p n \<and> p n \<le> puts v n) \<and>
        (\<forall>j < k. tails ! j = base (nth_node ns s j) + of_nat (p (nth_node ns s j)) \<and>
           (puts v (nth_node ns s j) = p (nth_node ns s j) \<longrightarrow> held v (nth_node ns s j) = [])))"

text \<open>
  The second loop has compared \<open>k\<close> tail states. Either all backends have been empty at one moment,
  or one of the backends still to be compared has got an element.
\<close>

definition check_inv ::
  "addr list \<Rightarrow> (addr \<Rightarrow> u16) \<Rightarrow> 'e dist_view \<Rightarrow> (addr \<Rightarrow> nat) \<Rightarrow> bool \<Rightarrow> nat \<Rightarrow> u16 list \<Rightarrow> nat \<Rightarrow> bool" where
  "check_inv ns base v P0 seen s tails k \<longleftrightarrow> s < length ns \<and> length tails = length ns \<and>
     (\<exists>p. (\<forall>n \<in> set ns. P0 n \<le> p n \<and> p n \<le> puts v n) \<and>
        (\<forall>j < length ns. tails ! j = base (nth_node ns s j) + of_nat (p (nth_node ns s j))) \<and>
        (seen \<or> late ns v P0 \<or>
         (\<exists>j < length ns. k \<le> j \<and> p (nth_node ns s j) < puts v (nth_node ns s j))))"

fun get_inv ::
  "addr list \<Rightarrow> (addr \<Rightarrow> u16) \<Rightarrow> u64 \<Rightarrow> 'e dist_view \<Rightarrow> (addr \<Rightarrow> nat) \<Rightarrow> bool \<Rightarrow> get_pc \<Rightarrow> bool" where
  "get_inv ns base ver v P0 seen GetLocal = True"
| "get_inv ns base ver v P0 seen GetWhile = True"
| "get_inv ns base ver v P0 seen GetStart = (ns \<noteq> [])"
| "get_inv ns base ver v P0 seen (GetVersion start) = (unat start < length ns)"
| "get_inv ns base ver v P0 seen (GetArray start version) = (unat start < length ns \<and> version = ver)"
| "get_inv ns base ver v P0 seen (GetTest start version tails i) =
     (version = ver \<and> unat i \<le> length ns \<and> scan_inv ns base v P0 (unat start) tails (unat i))"
| "get_inv ns base ver v P0 seen (GetNode start version tails i) =
     (version = ver \<and> unat i < length ns \<and> scan_inv ns base v P0 (unat start) tails (unat i))"
| "get_inv ns base ver v P0 seen (GetPop start version tails i index node) =
     (version = ver \<and> unat i < length ns \<and> scan_inv ns base v P0 (unat start) tails (unat i) \<and>
      node = nth_node ns (unat start) (unat i))"
| "get_inv ns base ver v P0 seen (GetAlive start version tails i index node) =
     (version = ver \<and> unat i < length ns \<and> scan_inv ns base v P0 (unat start) tails (Suc (unat i)) \<and>
      node = nth_node ns (unat start) (unat i))"
| "get_inv ns base ver v P0 seen (GetRemove r) = False"
| "get_inv ns base ver v P0 seen (GetCheck start version tails) =
     (version = ver \<and> scan_inv ns base v P0 (unat start) tails (length ns))"
| "get_inv ns base ver v P0 seen (TailTest start tails i) =
     (unat i \<le> length ns \<and> check_inv ns base v P0 seen (unat start) tails (unat i))"
| "get_inv ns base ver v P0 seen (TailRead start tails i) =
     (unat i < length ns \<and> check_inv ns base v P0 seen (unat start) tails (unat i))"

fun thread_inv ::
  "addr list \<Rightarrow> (addr \<Rightarrow> u16) \<Rightarrow> u64 \<Rightarrow> 'e dist_view \<Rightarrow> addr \<Rightarrow> 'e dist_status \<Rightarrow> 'e dist_pc \<Rightarrow> bool" where
  "thread_inv ns base ver v mine st Outside = (st = NotIn)"
| "thread_inv ns base ver v mine st (InPut (PutLock x)) = (st = Putting x \<and> mine \<in> set ns)"
| "thread_inv ns base ver v mine st (InPut (PutQueue x)) = (st = Putting x \<and> mine \<in> set ns)"
| "thread_inv ns base ver v mine st (InPut p) = False"
| "thread_inv ns base ver v mine st (InGet p) =
     (\<exists>seen P0. st = Getting seen P0 \<and> (\<forall>n \<in> set ns. P0 n \<le> puts v n) \<and>
        (mine = nullptr \<or> mine \<in> set ns) \<and> get_inv ns base ver v P0 seen p)"
| "thread_inv ns base ver v mine st (InLeave p) = False"

text \<open>The steps of other threads keep it.\<close>

definition later :: "'e dist_view \<Rightarrow> 'e dist_view \<Rightarrow> bool" where
  "later v v' \<longleftrightarrow> (\<forall>n. puts v n \<le> puts v' n \<and>
     (puts v' n = puts v n \<longrightarrow> held v n = [] \<longrightarrow> held v' n = []))"

lemma later_refl [simp]: "later v v"
  by (simp add: later_def)

lemma later_puts: "later v v' \<Longrightarrow> puts v n \<le> puts v' n"
  by (simp add: later_def)

lemma late_later: "later v v' \<Longrightarrow> late ns v P0 \<Longrightarrow> late ns v' P0"
  unfolding late_def list_ex_iff by (meson later_puts le_trans)

lemma scan_inv_later:
  assumes l: "later v v'" and s: "scan_inv ns base v P0 s tails k"
  shows "scan_inv ns base v' P0 s tails k"
proof -
  obtain p where p: "\<And>n. n \<in> set ns \<Longrightarrow> P0 n \<le> p n \<and> p n \<le> puts v n"
    "\<And>j. j < k \<Longrightarrow> tails ! j = base (nth_node ns s j) + of_nat (p (nth_node ns s j)) \<and>
       (puts v (nth_node ns s j) = p (nth_node ns s j) \<longrightarrow> held v (nth_node ns s j) = [])"
    and h: "s < length ns" "length tails = length ns"
    using s by (auto simp: scan_inv_def)
  have 1: "P0 n \<le> p n \<and> p n \<le> puts v' n" if "n \<in> set ns" for n
    using p(1) [OF that] later_puts [OF l, of n] by linarith
  have 2: "held v' n = []" if "n = nth_node ns s j" "j < k" "puts v' n = p n" for n j
  proof -
    have n: "n \<in> set ns" using that(1) nth_node_in [of ns s j] h(1) by (cases ns) auto
    then have eq: "puts v n = p n"
      using p(1) [OF n] later_puts [OF l, of n] that(3) by linarith
    then have "held v n = []" using p(2) [OF that(2)] that(1) by simp
    then show ?thesis using l eq that(3) by (simp add: later_def)
  qed
  show ?thesis
    unfolding scan_inv_def using h p(2) 1 2 by (intro conjI exI [of _ p]) auto
qed

lemma check_inv_later:
  assumes l: "later v v'" and s: "check_inv ns base v P0 seen s tails k" and g: "seen \<longrightarrow> seen'"
  shows "check_inv ns base v' P0 seen' s tails k"
proof -
  obtain p where p: "\<And>n. n \<in> set ns \<Longrightarrow> P0 n \<le> p n \<and> p n \<le> puts v n"
    "\<And>j. j < length ns \<Longrightarrow> tails ! j = base (nth_node ns s j) + of_nat (p (nth_node ns s j))"
    "seen \<or> late ns v P0 \<or> (\<exists>j < length ns. k \<le> j \<and> p (nth_node ns s j) < puts v (nth_node ns s j))"
    and h: "s < length ns" "length tails = length ns"
    using s by (auto simp: check_inv_def)
  have 1: "P0 n \<le> p n \<and> p n \<le> puts v' n" if "n \<in> set ns" for n
    using p(1) [OF that] later_puts [OF l, of n] by linarith
  have 2: "seen' \<or> late ns v' P0 \<or> (\<exists>j < length ns. k \<le> j \<and> p (nth_node ns s j) < puts v' (nth_node ns s j))"
    using p(3) g late_later [OF l, of ns P0] later_puts [OF l] by (meson less_le_trans)
  show ?thesis
    unfolding check_inv_def using h p(2) 1 2 by (intro conjI exI [of _ p]) auto
qed

lemma get_inv_later:
  assumes "later v v'" "get_inv ns base ver v P0 seen p" "seen \<longrightarrow> seen'"
  shows "get_inv ns base ver v' P0 seen' p"
  using assms by (cases p) (auto intro: scan_inv_later check_inv_later)

lemma thread_inv_later:
  assumes l: "later v v'" and i: "thread_inv ns base ver v mine st p" and g: "grew st st'"
  shows "thread_inv ns base ver v' mine st' p"
proof (cases p)
  case (InPut r)
  then show ?thesis using i g by (cases r) (auto simp: grew_def)
next
  case (InGet r)
  then obtain seen P0 where st: "st = Getting seen P0" "\<forall>n \<in> set ns. P0 n \<le> puts v n"
    "mine = nullptr \<or> mine \<in> set ns" "get_inv ns base ver v P0 seen r"
    using i by auto
  then obtain seen' where st': "st' = Getting seen' P0" "seen \<longrightarrow> seen'"
    using g by (auto simp: grew_def)
  have "P0 n \<le> puts v' n" if "n \<in> set ns" for n
    using st(2) that later_puts [OF l, of n] by (meson le_trans)
  then show ?thesis
    using InGet st st' get_inv_later [OF l st(4) st'(2)] by simp
qed (use i g in \<open>auto simp: grew_def\<close>)

section \<open>Steps\<close>

definition dist_moves ::
  "('b \<Rightarrow> 'e list \<Rightarrow> bool) \<Rightarrow> ('b, 'e) backend_ops \<Rightarrow> addr list \<Rightarrow> (addr \<Rightarrow> u16) \<Rightarrow> u64 \<Rightarrow> 'e dist_view \<Rightarrow>
   addr \<Rightarrow> 'e dist_status \<Rightarrow> ('e dist_pc \<times> addr \<times> bool \<times> 'b dist \<times> 'e dist_event list) result \<Rightarrow> bool" where
  "dist_moves brep ops ns base ver v mine st r \<longleftrightarrow> r = Inl BadAlloc \<or>
     (\<exists>k lock d es v' x. r = Inr (k, mine, lock, d, es) \<and> view_run ns mine es v st = Some (v', x) \<and>
        shows_view brep ops ns base ver d v' \<and> later v v' \<and> thread_inv ns base ver v' mine x k)"

lemma dist_movesI:
  assumes "view_run ns mine es v st = Some (v', x)" "shows_view brep ops ns base ver d v'"
    "later v v'" "thread_inv ns base ver v' mine x k"
  shows "dist_moves brep ops ns base ver v mine st (Inr (k, mine, lock, d, es))"
  unfolding dist_moves_def using assms by blast

lemma dist_moves_quiet:
  assumes "shows_view brep ops ns base ver d v" "thread_inv ns base ver v mine st k"
  shows "dist_moves brep ops ns base ver v mine st (Inr (k, mine, lock, d, []))"
  using assms by (intro dist_movesI [where v' = v and x = st]) simp_all

lemma dist_on_simps [simp]:
  "dist_on wrap (Inl e) = Inl e"
  "dist_on wrap (Inr (Inl p, local, lock, d, es)) = Inr (wrap p, local, lock, d, es)"
  "dist_on wrap (Inr (Inr v, local, lock, d, es)) = Inr (Outside, local, lock, d, es @ [DRet v])"
  by (simp_all add: dist_on_def)

lemma shows_view_length:
  assumes "shows_view brep ops ns base ver d v"
  shows "unat (d_length d) = length ns" "d_length d = 0 \<longleftrightarrow> ns = []" "length ns < 2 ^ 60"
    "d_version d = ver"
proof -
  have rep: "dist_rep brep d ns (\<lambda>n. if n \<in> set ns then Some (True, held v n) else None)"
    and ver: "d_version d = ver"
    using assms by (auto simp: shows_view_def)
  show "unat (d_length d) = length ns" by (rule dist_repD(2) [OF rep])
  then show "d_length d = 0 \<longleftrightarrow> ns = []" by (metis length_0_conv unat_eq_0)
  show "length ns < 2 ^ 60" using dist_repD(3,4) [OF rep] by simp
  show "d_version d = ver" by (rule ver)
qed

lemma shows_view_seg:
  assumes "shows_view brep ops ns base ver d v" "unat start < length ns" "unat i < length ns"
  shows "seg_at d ((start + i) mod d_length d) = Inr (nth_node ns (unat start) (unat i))"
proof -
  have rep: "dist_rep brep d ns (\<lambda>n. if n \<in> set ns then Some (True, held v n) else None)"
    using assms(1) by (simp add: shows_view_def)
  show ?thesis
    using seg_at_rep [OF rep, of "(start + i) mod d_length d"] scan_index [OF rep assms(2,3)]
    by (simp add: nth_node_def)
qed

lemma shows_view_node:
  assumes "shows_view brep ops ns base ver d v" "n \<in> set ns"
  obtains q where "node_alive d n = Inr True" "node_backend d n = Inr (backend_ptr d n)"
    "backend_ptr d n \<noteq> nullptr" "backend_at d (backend_ptr d n) = Inr q" "brep q (held v n)"
    "d_backends d (backend_ptr d n) = Some q" "n \<noteq> nullptr"
    "backend_tail_state ops q = base n + of_nat (puts v n)"
proof -
  have rep: "dist_rep brep d ns (\<lambda>n. if n \<in> set ns then Some (True, held v n) else None)"
    and tail: "tail_of ops d n = base n + of_nat (puts v n)"
    using assms by (auto simp: shows_view_def)
  have M: "(\<lambda>n. if n \<in> set ns then Some (True, held v n) else None) n = Some (True, held v n)"
    using assms(2) by simp
  show ?thesis
    using dist_rep_node [OF rep M] that tail by (metis tail_of_def option.sel)
qed

lemma shows_view_store:
  assumes sv: "shows_view brep ops ns base ver d v" and n: "n \<in> set ns" and q: "brep q xs"
    and t: "backend_tail_state ops q = base n + of_nat k"
  shows "shows_view brep ops ns base ver (store_backend (backend_ptr d n) q d)
    (v\<lparr>held := (held v)(n := xs), puts := (puts v)(n := k)\<rparr>)"
proof -
  let ?M = "\<lambda>n. if n \<in> set ns then Some (True, held v n) else None"
  let ?d = "store_backend (backend_ptr d n) q d"
  have rep: "dist_rep brep d ns ?M" using sv by (simp add: shows_view_def)
  have M: "?M n = Some (True, held v n)" using n by simp
  have "?M(n \<mapsto> (True, xs)) = (\<lambda>m. if m \<in> set ns then Some (True, ((held v)(n := xs)) m) else None)"
    using n by (auto simp: fun_eq_iff)
  then have rep': "dist_rep brep ?d ns (\<lambda>m. if m \<in> set ns then Some (True, ((held v)(n := xs)) m) else None)"
    using store_backend_rep [OF rep M q] by simp
  have ptr: "backend_ptr ?d = backend_ptr d"
    by (simp add: backend_ptr_def store_backend_def fun_eq_iff)
  have "tail_of ops ?d m = base m + of_nat (((puts v)(n := k)) m)" if m: "m \<in> set ns" for m
  proof (cases "m = n")
    case True
    then show ?thesis using t unfolding tail_of_def ptr by (simp add: store_backend_def)
  next
    case False
    then have "backend_ptr d m \<noteq> backend_ptr d n"
      using inj_onD [OF dist_repD(9) [OF rep]] m n by blast
    then have "tail_of ops ?d m = tail_of ops d m"
      unfolding tail_of_def ptr by (simp add: store_backend_def)
    then show ?thesis using sv m False by (simp add: shows_view_def)
  qed
  then show ?thesis
    using rep' sv by (simp add: shows_view_def store_backend_def cong: if_cong)
qed

text \<open>Putting into and taking from a backend, as the view sees it.\<close>

lemma later_put: "later v (v\<lparr>held := (held v)(n := ys), puts := (puts v)(n := Suc (puts v n))\<rparr>)"
  by (simp add: later_def)

lemma later_take: "held v n = x # xs \<Longrightarrow> later v (v\<lparr>held := (held v)(n := xs)\<rparr>)"
  by (simp add: later_def)

lemma nth_node_inj:
  assumes "distinct ns" "i < length ns" "j < length ns" "nth_node ns s i = nth_node ns s j"
  shows "i = j"
proof -
  have lt: "(s + i) mod length ns < length ns" "(s + j) mod length ns < length ns"
    using assms(2) by (simp_all add: mod_less_divisor [OF le_less_trans [OF le0 assms(2)]])
  then have "(s + i) mod length ns = (s + j) mod length ns"
    using assms(1,4) nth_eq_iff_index_eq by (auto simp: nth_node_def)
  then show ?thesis using mod_add_cancel_less assms(2,3) by blast
qed

lemma scan_inv_step:
  assumes s: "scan_inv ns base v P0 s tails k" and k: "k < length ns" and d: "distinct ns"
    and e: "held v (nth_node ns s k) = []" and P0: "\<forall>n \<in> set ns. P0 n \<le> puts v n"
    and t: "x = base (nth_node ns s k) + of_nat (puts v (nth_node ns s k))"
  shows "scan_inv ns base v P0 s (tails[k := x]) (Suc k)"
proof -
  obtain p where p: "\<And>n. n \<in> set ns \<Longrightarrow> P0 n \<le> p n \<and> p n \<le> puts v n"
    "\<And>j. j < k \<Longrightarrow> tails ! j = base (nth_node ns s j) + of_nat (p (nth_node ns s j)) \<and>
       (puts v (nth_node ns s j) = p (nth_node ns s j) \<longrightarrow> held v (nth_node ns s j) = [])"
    and h: "s < length ns" "length tails = length ns"
    using s by (auto simp: scan_inv_def)
  let ?n = "nth_node ns s k"
  have ne: "nth_node ns s j \<noteq> ?n" if "j < k" for j
    using nth_node_inj [OF d, of j k s] that k by auto
  show ?thesis
    unfolding scan_inv_def using h p e P0 t k ne
    by (intro conjI exI [of _ "p(?n := puts v ?n)"]) (auto simp: less_Suc_eq nth_list_update)
qed

text \<open>At the end of the first loop; and when a tail state is found unchanged.\<close>

lemma scan_check:
  assumes s: "scan_inv ns base v P0 s tails (length ns)" and seen: "all_empty ns v \<longrightarrow> seen"
  shows "check_inv ns base v P0 seen s tails 0"
proof -
  obtain p where p: "\<And>n. n \<in> set ns \<Longrightarrow> P0 n \<le> p n \<and> p n \<le> puts v n"
    "\<And>j. j < length ns \<Longrightarrow> tails ! j = base (nth_node ns s j) + of_nat (p (nth_node ns s j)) \<and>
       (puts v (nth_node ns s j) = p (nth_node ns s j) \<longrightarrow> held v (nth_node ns s j) = [])"
    and h: "s < length ns" "length tails = length ns"
    using s by (auto simp: scan_inv_def)
  have "seen" if "\<not> (\<exists>j < length ns. p (nth_node ns s j) < puts v (nth_node ns s j))"
  proof -
    have "held v n = []" if n: "n \<in> set ns" for n
    proof -
      obtain j where j: "j < length ns" "nth_node ns s j = n" using nth_node_onto [OF n] .
      then have "puts v n = p n"
        using p(1) [OF n] \<open>\<not> (\<exists>j < length ns. p (nth_node ns s j) < puts v (nth_node ns s j))\<close> by auto
      then show ?thesis using p(2) [OF j(1)] j(2) by simp
    qed
    then show ?thesis using seen by (simp add: all_empty_def list_all_iff)
  qed
  then show ?thesis
    unfolding check_inv_def using h p by (intro conjI exI [of _ p]) auto
qed

lemma check_inv_step:
  assumes s: "check_inv ns base v P0 seen s tails k" and k: "k < length ns"
    and t: "tails ! k = base (nth_node ns s k) + of_nat (puts v (nth_node ns s k))"
  shows "check_inv ns base v P0 seen s tails (Suc k)"
proof -
  obtain p where p: "\<And>n. n \<in> set ns \<Longrightarrow> P0 n \<le> p n \<and> p n \<le> puts v n"
    "\<And>j. j < length ns \<Longrightarrow> tails ! j = base (nth_node ns s j) + of_nat (p (nth_node ns s j))"
    "seen \<or> late ns v P0 \<or> (\<exists>j < length ns. k \<le> j \<and> p (nth_node ns s j) < puts v (nth_node ns s j))"
    and h: "s < length ns" "length tails = length ns"
    using s by (auto simp: check_inv_def)
  let ?n = "nth_node ns s k"
  have n: "?n \<in> set ns" using nth_node_in [of ns s k] k by (cases ns) auto
  have "late ns v P0" if lt: "p ?n < puts v ?n"
  proof -
    have "(of_nat (puts v ?n) :: u16) = of_nat (p ?n)" using t p(2) [OF k] by simp
    then have "65536 dvd puts v ?n - p ?n"
      using lt by (simp add: word_of_nat_eq_iff take_bit_eq_mod mod_eq_dvd_iff_nat)
    then have "65536 \<le> puts v ?n - p ?n" using lt by (intro dvd_imp_le) simp_all
    then have "P0 ?n + 65536 \<le> puts v ?n" using p(1) [OF n] lt by linarith
    then show ?thesis using n by (auto simp: late_def list_ex_iff)
  qed
  then have "seen \<or> late ns v P0 \<or> (\<exists>j < length ns. Suc k \<le> j \<and> p (nth_node ns s j) < puts v (nth_node ns s j))"
    using p(3) by (metis Suc_leI le_neq_implies_less)
  then show ?thesis
    unfolding check_inv_def using h p by (intro conjI exI [of _ p]) auto
qed

lemma check_inv_end:
  "check_inv ns base v P0 seen s tails (length ns) \<Longrightarrow> seen \<or> late ns v P0"
  by (auto simp: check_inv_def)

text \<open>
  All threads: \<open>mine\<close> are their backends, none of which is added or removed.
\<close>

definition dist_inv ::
  "('b \<Rightarrow> 'e list \<Rightarrow> bool) \<Rightarrow> ('b, 'e) backend_ops \<Rightarrow> addr list \<Rightarrow> (addr \<Rightarrow> u16) \<Rightarrow> u64 \<Rightarrow> ('t \<Rightarrow> addr) \<Rightarrow>
   'e dist_view \<Rightarrow> ('t \<Rightarrow> 'e dist_status) \<Rightarrow> ('t, 'b, 'e) dist_threads \<Rightarrow> bool" where
  "dist_inv brep ops ns base ver mine v st s \<longleftrightarrow> shows_view brep ops ns base ver (container s) v \<and>
     local_backend s = mine \<and> (\<forall>t. mine t = nullptr \<or> mine t \<in> set ns) \<and>
     (\<forall>t. thread_inv ns base ver v (mine t) (st t) (point s t)) \<and> (\<forall>t. look ns v (st t) = st t)"

context versioned_backend
begin

lemma put_moves:
  assumes sv: "shows_view brep ops ns base ver d v" and i: "thread_inv ns base ver v mine st (InPut p)"
  shows "dist_moves brep ops ns base ver v mine st (dist_on InPut (put_go ops al p mine lock d))"
proof (cases p)
  case (PutLock x)
  then have h: "st = Putting x" "mine \<in> set ns" using i by simp_all
  have "mine \<noteq> nullptr" using shows_view_node [OF sv h(2)] by metis
  then show ?thesis
    using PutLock h by (auto intro!: dist_moves_quiet [OF sv])
next
  case (PutQueue x)
  then have h: "st = Putting x" "mine \<in> set ns" using i by simp_all
  obtain q where q: "node_backend d mine = Inr (backend_ptr d mine)"
    "backend_at d (backend_ptr d mine) = Inr q" "brep q (held v mine)"
    "backend_tail_state ops q = base mine + of_nat (puts v mine)"
    using shows_view_node [OF sv h(2)] by metis
  consider (bad) "backend_put ops x q = Inl BadAlloc"
    | (ok) q' where "backend_put ops x q = Inr (True, q')" "brep q' (held v mine @ [x])"
    using put_rep [OF q(3), of x] by blast
  then show ?thesis
  proof cases
    case bad
    then show ?thesis using PutQueue q by (simp add: dist_moves_def)
  next
    case ok
    let ?v = "v\<lparr>held := (held v)(mine := held v mine @ [x]), puts := (puts v)(mine := Suc (puts v mine))\<rparr>"
    have t: "backend_tail_state ops q' = base mine + of_nat (Suc (puts v mine))"
      using put_state [OF q(3) ok(1)] q(4) by simp
    have "shows_view brep ops ns base ver (store_backend (backend_ptr d mine) q' d) ?v"
      by (rule shows_view_store [OF sv h(2) ok(2) t])
    then have "dist_moves brep ops ns base ver v mine st
        (Inr (Outside, mine, lock, store_backend (backend_ptr d mine) q' d, [DEnq mine x, DRet (RPut True)]))"
      using h later_put by (intro dist_movesI [where v' = ?v and x = NotIn]) (simp_all add: look_def)
    then show ?thesis using PutQueue q ok by simp
  qed
qed (use i in simp_all)

lemma take_moves:
  assumes sv: "shows_view brep ops ns base ver d v" and n: "n \<in> set ns"
    and q: "brep q' xs" "backend_tail_state ops q' = base n + of_nat (puts v n)" "held v n = x # xs"
    and st: "st = Getting seen P0"
  shows "dist_moves brep ops ns base ver v mine st
    (Inr (Outside, mine, lock, store_backend (backend_ptr d n) q' d, [DDeq n x, DRet (RGot x)]))"
proof -
  let ?v = "v\<lparr>held := (held v)(n := xs)\<rparr>"
  have "v\<lparr>held := (held v)(n := xs), puts := (puts v)(n := puts v n)\<rparr> = ?v" by simp
  then have "shows_view brep ops ns base ver (store_backend (backend_ptr d n) q' d) ?v"
    using shows_view_store [OF sv n q(1,2)] by simp
  then show ?thesis
    using q(3) st later_take [OF q(3)]
    by (intro dist_movesI [where v' = ?v and x = NotIn]) (simp_all add: look_def)
qed

lemma get_moves:
  assumes sv: "shows_view brep ops ns base ver d v" and i: "thread_inv ns base ver v mine st (InGet p)"
    and lk: "look ns v st = st"
  shows "dist_moves brep ops ns base ver v mine st (dist_on InGet (get_go ops rnd junk e p mine lock d))"
proof -
  obtain seen P0 where st: "st = Getting seen P0" and P0: "\<forall>n \<in> set ns. P0 n \<le> puts v n"
    and mine: "mine = nullptr \<or> mine \<in> set ns" and g: "get_inv ns base ver v P0 seen p"
    using i by auto
  have seen: "all_empty ns v \<longrightarrow> seen" using lk st by (auto simp: look_def)
  note len = shows_view_length [OF sv]
  have dist: "distinct ns" using sv dist_repD(5) by (auto simp: shows_view_def)
  have quiet: "dist_moves brep ops ns base ver v mine st (Inr (InGet k, mine, lock, d, []))"
    if "get_inv ns base ver v P0 seen k" for k
    using that st P0 mine by (intro dist_moves_quiet [OF sv]) simp
  have none: "dist_moves brep ops ns base ver v mine st (Inr (Outside, mine, lock, d, [DRet RNothing]))"
    if "seen \<or> late ns v P0"
    using that st by (intro dist_movesI [where v' = v and x = NotIn] sv) (simp_all add: look_def)
  have succ: "unat (j + 1) = Suc (unat j)" if "unat j < length ns" for j :: u64
    using unat_Suc [of j] that len(3) by simp
  show ?thesis
  proof (cases p)
    case GetLocal
    show ?thesis
    proof (cases "mine = nullptr")
      case True
      then show ?thesis using GetLocal quiet [of GetWhile] by simp
    next
      case False
      then have n: "mine \<in> set ns" using mine by simp
      obtain q where q: "node_backend d mine = Inr (backend_ptr d mine)"
        "backend_at d (backend_ptr d mine) = Inr q" "brep q (held v mine)"
        "d_backends d (backend_ptr d mine) = Some q"
        "backend_tail_state ops q = base mine + of_nat (puts v mine)"
        using shows_view_node [OF sv n] by metis
      show ?thesis
      proof (cases "held v mine")
        case Nil
        then have "backend_get ops e q = Inr (False, e, q)" using get_nil q(3) by simp
        then show ?thesis
          using GetLocal False q store_same [OF q(4)] by (simp add: quiet)
      next
        case (Cons x xs)
        then obtain q' where q': "backend_get ops e q = Inr (True, x, q')" "brep q' xs"
          using get_cons q(3) by metis
        have "backend_tail_state ops q' = base mine + of_nat (puts v mine)"
          using get_state [OF q(3) q'(1)] q(5) by simp
        from take_moves [OF sv n q'(2) this Cons st, of mine lock] show ?thesis
          using GetLocal False q q' by simp
      qed
    qed
  next
    case GetWhile
    show ?thesis
    proof (cases "d_length d = 0")
      case True
      then have "seen" using len(2) seen by (simp add: all_empty_def)
      then have "dist_moves brep ops ns base ver v mine st (Inr (Outside, mine, lock, d, [DRet RNothing]))"
        by (intro none disjI1)
      then show ?thesis using GetWhile True by simp
    next
      case False
      then show ?thesis using GetWhile len(2) quiet [of GetStart] by simp
    qed
  next
    case GetStart
    then have "unat (rnd mod d_length d) < length ns"
      using g len(1) by (simp add: unat_mod)
    then show ?thesis using GetStart g len(2) by (simp add: quiet)
  next
    case (GetVersion start)
    then show ?thesis using g len(4) by (simp add: quiet)
  next
    case (GetArray start version)
    then have "scan_inv ns base v P0 (unat start) (replicate (unat (d_length d)) junk) 0"
      using g len(1) P0 by (auto simp: scan_inv_def)
    then show ?thesis using GetArray g by (simp add: quiet)
  next
    case (GetTest start version tails j)
    then have "\<not> j < d_length d \<longrightarrow> unat j = length ns"
      using g len(1) by (auto simp: word_less_nat_alt)
    then show ?thesis
      using GetTest g len(1) by (auto simp: word_less_nat_alt intro!: quiet)
  next
    case (GetNode start version tails j)
    then have "unat start < length ns" "unat j < length ns" using g by (auto simp: scan_inv_def)
    then have "seg_at d ((start + j) mod d_length d) = Inr (nth_node ns (unat start) (unat j))"
      by (rule shows_view_seg [OF sv])
    moreover have "d_length d \<noteq> 0" using GetNode g len(2) by auto
    ultimately show ?thesis using GetNode g by (simp add: Let_def quiet)
  next
    case (GetPop start version tails j index node)
    then have h: "version = ver" "unat j < length ns" "scan_inv ns base v P0 (unat start) tails (unat j)"
      "node = nth_node ns (unat start) (unat j)" using g by simp_all
    have n: "node \<in> set ns" using nth_node_in [of ns] h(2,4) by (cases ns) auto
    obtain q where q: "node_backend d node = Inr (backend_ptr d node)" "backend_ptr d node \<noteq> nullptr"
      "backend_at d (backend_ptr d node) = Inr q" "brep q (held v node)"
      "d_backends d (backend_ptr d node) = Some q"
      "backend_tail_state ops q = base node + of_nat (puts v node)"
      using shows_view_node [OF sv n] by metis
    have tl: "length tails = length ns" using h(3) by (simp add: scan_inv_def)
    show ?thesis
    proof (cases "held v node")
      case Nil
      then have pop: "backend_pop ops e (tails ! unat j) q = Inr (False, e, backend_tail_state ops q, q)"
        using pop_nil q(4) by simp
      have "scan_inv ns base v P0 (unat start) (tails[unat j := backend_tail_state ops q]) (Suc (unat j))"
        using Nil q(6) h(4) by (intro scan_inv_step [OF h(3,2) dist _ P0]) simp_all
      then show ?thesis
        using GetPop q(1-3) pop h tl store_same [OF q(5)] by (simp add: quiet)
    next
      case (Cons x xs)
      then obtain s' q' where q': "backend_pop ops e (tails ! unat j) q = Inr (True, x, s', q')" "brep q' xs"
        using pop_cons q(4) by metis
      have "backend_tail_state ops q' = base node + of_nat (puts v node)"
        using pop_state [OF q(4) q'(1)] q(6) by simp
      from take_moves [OF sv n q'(2) this Cons st, of mine lock] show ?thesis
        using GetPop q(1-3) q' h tl by simp
    qed
  next
    case (GetAlive start version tails j index node)
    then have h: "unat j < length ns" "node = nth_node ns (unat start) (unat j)" using g by simp_all
    have "node \<in> set ns" using nth_node_in [of ns] h by (cases ns) auto
    then have "node_alive d node = Inr True" using shows_view_node [OF sv] by metis
    then show ?thesis using GetAlive g by (simp add: quiet succ)
  next
    case (GetCheck start version tails)
    then have "check_inv ns base v P0 seen (unat start) tails 0"
      using g by (intro scan_check [OF _ seen]) simp
    then show ?thesis using GetCheck g len(4) by (simp add: quiet)
  next
    case (TailTest start tails j)
    have "seen \<or> late ns v P0" if "\<not> j < d_length d"
    proof -
      have "unat j = length ns" using TailTest g len(1) that by (auto simp: word_less_nat_alt)
      then show ?thesis
        using TailTest g check_inv_end [of ns base v P0 seen "unat start" tails] by simp
    qed
    then show ?thesis
      using TailTest g len(1) by (auto simp: word_less_nat_alt intro!: quiet none)
  next
    case (TailRead start tails j)
    then have h: "unat j < length ns" "check_inv ns base v P0 seen (unat start) tails (unat j)"
      using g by simp_all
    let ?n = "nth_node ns (unat start) (unat j)"
    have n: "?n \<in> set ns" using nth_node_in [of ns] h(1) by (cases ns) auto
    obtain q where q: "node_backend d ?n = Inr (backend_ptr d ?n)" "backend_ptr d ?n \<noteq> nullptr"
      "backend_at d (backend_ptr d ?n) = Inr q"
      "backend_tail_state ops q = base ?n + of_nat (puts v ?n)"
      using shows_view_node [OF sv n] by metis
    have "unat start < length ns" "length tails = length ns" using h(2) by (simp_all add: check_inv_def)
    moreover from this have "seg_at d ((start + j) mod d_length d) = Inr ?n"
      using shows_view_seg [OF sv _ h(1)] by blast
    moreover have "check_inv ns base v P0 seen (unat start) tails (Suc (unat j))"
      if "backend_tail_state ops q = tails ! unat j"
      using that q(4) by (intro check_inv_step [OF h(2,1)]) simp
    moreover have "d_length d \<noteq> 0" using h(1) len(2) by auto
    ultimately show ?thesis
      using TailRead q(1-3) h(1) by (auto simp: Let_def succ intro!: quiet)
  qed (use g in simp_all)
qed

lemma dist_go_moves:
  assumes "shows_view brep ops ns base ver d v" "thread_inv ns base ver v mine st p" "look ns v st = st"
  shows "dist_moves brep ops ns base ver v mine st (dist_go ops al junk e rnd p mine lock d)"
proof (cases p)
  case Outside
  then show ?thesis using assms by (auto intro: dist_moves_quiet)
next
  case (InPut r)
  then show ?thesis using put_moves [OF assms(1)] assms(2) by simp
next
  case (InGet r)
  then show ?thesis using get_moves [OF assms(1) _ assms(3)] assms(2) by simp
qed (use assms(2) in simp)

lemma dist_next_inv:
  assumes inv: "dist_inv brep ops ns base ver mine v st s"
    and c: "case c of Begin t (CPut x) \<Rightarrow> mine t \<noteq> nullptr | Begin t CLeave \<Rightarrow> False | _ \<Rightarrow> True"
  shows "dist_next ops al junk e c s = Inl BadAlloc \<or>
    (\<exists>s' es v' st'. dist_next ops al junk e c s = Inr (s', es) \<and>
       view_trace ns mine es v st = Some (v', st') \<and> dist_inv brep ops ns base ver mine v' st' s')"
proof -
  have sv: "shows_view brep ops ns base ver (container s) v" and lb: "local_backend s = mine"
    and own: "\<And>t. mine t = nullptr \<or> mine t \<in> set ns"
    and th: "\<And>t. thread_inv ns base ver v (mine t) (st t) (point s t)"
    and lk: "\<And>t. look ns v (st t) = st t"
    using inv by (auto simp: dist_inv_def)
  show ?thesis
  proof (cases c)
    case (Begin t call)
    show ?thesis
    proof (cases "point s t = Outside")
      case True
      then have idle: "st t = NotIn" using th [of t] by simp
      define x where "x = (case call of CPut y \<Rightarrow> Putting y | _ \<Rightarrow> Getting False (puts v))"
      have go: "view_go ns (mine t) (DCall call) v (st t) = Some (v, x)"
        using idle c Begin by (auto simp: x_def split: dist_call.splits)
      have new: "thread_inv ns base ver v (mine t) (look ns v x) (dist_begin call)"
        using own [of t] c Begin by (auto simp: x_def look_def split: dist_call.splits)
      let ?st = "\<lambda>u. look ns v ((st(t := x)) u)"
      have "?st u = (if u = t then look ns v x else st u)" for u using lk by simp
      then have "dist_inv brep ops ns base ver mine v ?st (s\<lparr>point := (point s)(t := dist_begin call)\<rparr>)"
        using sv lb own th lk new by (auto simp: dist_inv_def)
      moreover have "view_trace ns mine [(t, DCall call)] v st = Some (v, ?st)" using go by simp
      ultimately show ?thesis using Begin True by auto
    next
      case False
      have "view_trace ns mine [] v st = Some (v, st)" by simp
      then show ?thesis using Begin False inv by auto
    qed
  next
    case (Go t rnd)
    let ?r = "dist_go ops al junk e rnd (point s t) (mine t) (m_lock s) (container s)"
    have "dist_moves brep ops ns base ver v (mine t) (st t) ?r"
      by (rule dist_go_moves [OF sv th lk])
    then consider (bad) "?r = Inl BadAlloc"
      | (go) k lock d es v' x where "?r = Inr (k, mine t, lock, d, es)"
        "view_run ns (mine t) es v (st t) = Some (v', x)" "shows_view brep ops ns base ver d v'"
        "later v v'" "thread_inv ns base ver v' (mine t) x k"
      unfolding dist_moves_def by blast
    then show ?thesis
    proof cases
      case bad
      then show ?thesis using Go lb by simp
    next
      case go
      obtain st' where st': "view_trace ns mine (map (Pair t) es) v st = Some (v', st')" "st' t = x"
        "\<And>u. u \<noteq> t \<Longrightarrow> grew (st u) (st' u)" "\<And>u. look ns v' (st' u) = st' u"
        using view_trace_thread [of ns mine t es v st v' x, OF go(2) lk] by blast
      let ?s = "s\<lparr>container := d, m_lock := lock, local_backend := (local_backend s)(t := mine t),
        point := (point s)(t := k)\<rparr>"
      have "thread_inv ns base ver v' (mine u) (st' u) (point ?s u)" for u
        using go(5) st'(2) thread_inv_later [OF go(4) th st'(3)] by (cases "u = t") simp_all
      then have "dist_inv brep ops ns base ver mine v' st' ?s"
        using go(3) lb own st'(4) by (simp add: dist_inv_def fun_upd_idem)
      moreover have "dist_next ops al junk e c s = Inr (?s, map (Pair t) es)"
        using Go go(1) lb by simp
      ultimately show ?thesis using st'(1) by blast
    qed
  qed
qed

lemma dist_exec_inv:
  assumes "dist_inv brep ops ns base ver mine v st s"
    and "\<forall>c \<in> set cs. case c of Begin t (CPut x) \<Rightarrow> mine t \<noteq> nullptr | Begin t CLeave \<Rightarrow> False | _ \<Rightarrow> True"
  shows "dist_exec ops al junk e cs s = Inl BadAlloc \<or>
    (\<exists>s' es v' st'. dist_exec ops al junk e cs s = Inr (s', es) \<and>
       view_trace ns mine es v st = Some (v', st') \<and> dist_inv brep ops ns base ver mine v' st' s')"
  using assms
proof (induction cs arbitrary: v st s)
  case Nil
  then show ?case by auto
next
  case (Cons c cs)
  have c: "case c of Begin t (CPut x) \<Rightarrow> mine t \<noteq> nullptr | Begin t CLeave \<Rightarrow> False | _ \<Rightarrow> True"
    and cs: "\<forall>c \<in> set cs. case c of Begin t (CPut x) \<Rightarrow> mine t \<noteq> nullptr | Begin t CLeave \<Rightarrow> False | _ \<Rightarrow> True"
    using Cons.prems(2) by auto
  from dist_next_inv [OF Cons.prems(1) c, of al junk e] show ?case
  proof (elim disjE exE conjE)
    fix s1 es1 v1 st1
    assume h: "dist_next ops al junk e c s = Inr (s1, es1)" "view_trace ns mine es1 v st = Some (v1, st1)"
      "dist_inv brep ops ns base ver mine v1 st1 s1"
    from Cons.IH [OF h(3) cs] show ?case
      using h(1,2) by (auto simp: view_trace_append)
  qed simp
qed

end

section \<open>Properties\<close>

text \<open>
  A container whose backends are all bound to threads, seen from outside: what is in it, and
  which choices leave the set of its backends alone.
\<close>

definition bound_only :: "('t \<Rightarrow> addr) \<Rightarrow> ('t, 'e) dist_choice \<Rightarrow> bool" where
  "bound_only mine c = (case c of Begin t (CPut x) \<Rightarrow> mine t \<noteq> nullptr | Begin t CLeave \<Rightarrow> False | _ \<Rightarrow> True)"

definition initial_view :: "(addr \<rightharpoonup> bool \<times> 'e list) \<Rightarrow> 'e dist_view" where
  "initial_view M = \<lparr>held = (\<lambda>n. case M n of None \<Rightarrow> [] | Some (al, xs) \<Rightarrow> xs), puts = (\<lambda>_. 0)\<rparr>"

definition view_runs ::
  "addr list \<Rightarrow> ('t \<Rightarrow> addr) \<Rightarrow> (addr \<rightharpoonup> bool \<times> 'e list) \<Rightarrow> ('t \<times> 'e dist_event) list \<Rightarrow> bool" where
  "view_runs ns mine M es = (view_trace ns mine es (initial_view M) (\<lambda>_. NotIn) \<noteq> None)"



end
