(* ===== verification/Dist_Races.thy ===== *)
theory Dist_Races
  imports Dist_Linear
begin

text \<open>
  What \<^verbatim>\<open>include/ni/cds/distributed/dynamic.hh\<close> does outside the limits of \<open>dist_get_empty_sound\<close>: runs
  of threads that bind or leave backends while others are in \<open>get\<close>, and of a \<open>push\<close> whose weak
  compare-exchange fails spuriously.
\<close>

section \<open>Queues\<close>

text \<open>
  A new queue; the queue after a \<open>push\<close> of 6 whose second compare-exchange fails spuriously, so that
  the tail stays behind; a queue that holds 7, and what a \<open>pop\<close> leaves of it.
\<close>

definition new_msq :: "nat msq" where
  "new_msq = \<lparr>msq_heap = [1 \<mapsto> \<lparr>node_value = 0, node_next = atp_default\<rparr>],
     m_head = atp_store atp_default (tp_pack 1 0), m_tail = atp_store atp_default (tp_pack 1 0)\<rparr>"

definition lagging_msq :: "nat msq" where
  "lagging_msq = new_msq\<lparr>msq_heap :=
     [2 \<mapsto> \<lparr>node_value = 6, node_next = atp_default\<rparr>,
      1 \<mapsto> \<lparr>node_value = 0, node_next = atp_store atp_default (tp_pack 2 1)\<rparr>]\<rparr>"

definition seven_msq :: "nat msq" where
  "seven_msq = \<lparr>msq_heap =
       [1 \<mapsto> \<lparr>node_value = 0, node_next = atp_store atp_default (tp_pack 2 1)\<rparr>,
        2 \<mapsto> \<lparr>node_value = 7, node_next = atp_default\<rparr>],
     m_head = atp_store atp_default (tp_pack 1 0), m_tail = atp_store atp_default (tp_pack 2 1)\<rparr>"

definition taken_msq :: "nat msq" where
  "taken_msq = \<lparr>msq_heap = [2 \<mapsto> \<lparr>node_value = 7, node_next = atp_default\<rparr>],
     m_head = atp_store (m_head seven_msq) (tp_pack 2 1), m_tail = m_tail seven_msq\<rparr>"

abbreviation spurious_ops :: "bool list \<Rightarrow> (nat msq, nat) backend_ops" where
  "spurious_ops sp \<equiv> ms_ops sp (pool_alloc [1, 2, 3, 4]) 0"

lemmas queue_defs = ms_ops_def ms_new_def new_node_def pool_alloc_def queue_put_def queue_get_def ms_push_def
  ms_pop_def ms_tail_state_def new_msq_def lagging_msq_def seven_msq_def taken_msq_def

lemma new_msq_ops:
  "backend_new (spurious_ops sp) = Inr new_msq"
  "backend_pop (spurious_ops sp) e s new_msq = Inr (False, e, 0, new_msq)"
  "backend_empty (spurious_ops sp) new_msq = Inr True"
  "backend_tail_state (spurious_ops sp) new_msq = 0"
proof -
  have "tp_of_value 1 = Inr (tp_pack 1 0)" by (simp add: tp_of_value_Inr_iff)
  then show "backend_new (spurious_ops sp) = Inr new_msq" by (simp add: queue_defs)
qed (simp_all add: queue_defs numeral_eq_Suc Let_def)

lemma lagging_msq_ops:
  "backend_put (spurious_ops [False, True]) 6 new_msq = Inr (True, lagging_msq)"
  "backend_tail_state (spurious_ops sp) lagging_msq = 0"
  by (simp_all add: queue_defs numeral_eq_Suc Let_def spurious_def cas_next_weak_def atp_cas_weak_eq)

lemma seven_msq_ops:
  "backend_get (spurious_ops (False # sp)) e seven_msq = Inr (True, 7, taken_msq)"
  "backend_pop (spurious_ops sp) e s taken_msq = Inr (False, e, 1, taken_msq)"
  "backend_tail_state (spurious_ops sp) taken_msq = 1"
  by (simp_all add: queue_defs numeral_eq_Suc Let_def spurious_def atp_cas_weak_eq load_value_def delete_node_def)

section \<open>Runs\<close>

text \<open>
  A container with one backend, at node 1, whose queue is empty, alive and bound to thread 1 or left
  by its thread.
\<close>

definition one_backend :: "nat \<Rightarrow> bool \<Rightarrow> (nat, nat msq, nat) dist_threads" where
  "one_backend capacity alive = \<lparr>container = \<lparr>d_nodes = [1 \<mapsto> tp_pack 1 (if alive then 1 else 0)],
       d_backends = [1 \<mapsto> new_msq], d_segment = 1 # replicate (capacity - 1) nullptr,
       d_capacity = of_nat capacity, d_length = 1, d_version = 1\<rparr>,
     m_lock = False, local_backend = (\<lambda>_. nullptr)(1 := if alive then 1 else nullptr), point = \<lambda>_. Outside\<rparr>"

text \<open>Two backends, bound to the threads 1 and 2: the first is empty, the second holds 7.\<close>

definition two_backends :: "(nat, nat msq, nat) dist_threads" where
  "two_backends = \<lparr>container = \<lparr>d_nodes = [1 \<mapsto> tp_pack 1 1, 2 \<mapsto> tp_pack 2 1],
       d_backends = [1 \<mapsto> new_msq, 2 \<mapsto> seven_msq], d_segment = [1, 2, 0, 0],
       d_capacity = 4, d_length = 2, d_version = 2\<rparr>,
     m_lock = False, local_backend = (\<lambda>_. nullptr)(1 := 1, 2 := 2), point = \<lambda>_. Outside\<rparr>"

definition steps :: "nat \<Rightarrow> nat \<Rightarrow> (nat, nat) dist_choice list" where
  "steps n t = replicate n (Go t 0)"

lemma steps_unroll [simp]: "steps 0 t = []" "steps (Suc k) t = Go t 0 # steps k t" "steps (numeral n) t = Go t 0 # steps (pred_numeral n) t"
  by (simp_all add: steps_def numeral_eq_Suc)

lemma replicate_small: "replicate 2 x = [x, x]" "replicate 3 x = [x, x, x]"
  by (simp_all add: numeral_eq_Suc)

definition msq_exec :: "bool list \<Rightarrow> (nat, nat) dist_choice list \<Rightarrow> (nat, nat msq, nat) dist_threads \<Rightarrow>
    ((nat, nat msq, nat) dist_threads \<times> (nat \<times> nat dist_event) list) result" where
  "msq_exec sp = dist_exec (spurious_ops sp) demo_da 9 0"

lemmas run_defs = msq_exec_def one_backend_def two_backends_def demo_da_def pool_alloc_def seg_at_def seg_set_def
  node_at_def node_backend_def node_alive_def turn_off_def backend_at_def store_backend_def node_empty_def dist_node_new_def
  dist_node_delete_def delete_node_def dist_on_def Let_def word_le_nat_alt word_less_nat_alt
  replicate_small new_msq_ops lagging_msq_ops seven_msq_ops

lemma bindE_first: "r = r' \<Longrightarrow> bindE r f = bindE r' f"
  by simp



end
