(* ===== verification/Dist_Lock.thy ===== *)
theory Dist_Lock
  imports Dist_Concurrent
begin

text \<open>
  What \<open>m_lock\<close> of \<^verbatim>\<open>include/ni/cds/distributed/dynamic.hh\<close> protects. Threads that only put, new ones
  among them, bind their backends and remove dead ones under the lock, while those that have a
  backend put into it without the lock.
\<close>

section \<open>The critical section\<close>

fun crit_pc :: "'e put_pc \<Rightarrow> bool" where
  "crit_pc (PutLock x) = False"
| "crit_pc (PutQueue x) = False"
| "crit_pc _ = True"

fun elem_of :: "'e put_pc \<Rightarrow> 'e" where
  "elem_of (PutLock x) = x"
| "elem_of (PutFull x) = x"
| "elem_of (PurgeTest x i) = x"
| "elem_of (PurgeAlive x i) = x"
| "elem_of (PurgeEmpty x i) = x"
| "elem_of (PurgeRemove x i r) = x"
| "elem_of (PutRoom x) = x"
| "elem_of (PutNew x) = x"
| "elem_of (PutStore x n) = x"
| "elem_of (PutVersion x) = x"
| "elem_of (PutQueue x) = x"

text \<open>
  A node disappears with \<open>delete\<close> and appears with \<open>new\<close>; the steps of the lock's holder that
  follow bring the segment, its length and the version into line. \<open>closing\<close> is what is left of
  \<open>remove_backend\<close>, \<open>binding\<close> what is left of \<open>put\<close>.
\<close>

fun closing :: "remove_pc \<Rightarrow> 'b dist \<Rightarrow> 'b dist result" where
  "closing RemVersion d = Inr (d\<lparr>d_version := d_version d + 1\<rparr>)"
| "closing RemClear d =
     bindE (seg_set (d_length d) nullptr d) (\<lambda>d. Inr (d\<lparr>d_version := d_version d + 1\<rparr>))"
| "closing (RemMove i) d =
     bindE (seg_at d (d_length d)) (\<lambda>last_node.
     bindE (seg_set i last_node d) (\<lambda>d.
     bindE (seg_set (d_length d) nullptr d) (\<lambda>d. Inr (d\<lparr>d_version := d_version d + 1\<rparr>))))"
| "closing (RemLength i) d =
     (let d = d\<lparr>d_length := d_length d - 1\<rparr> in
      bindE (seg_at d (d_length d)) (\<lambda>last_node.
      bindE (seg_set i last_node d) (\<lambda>d.
      bindE (seg_set (d_length d) nullptr d) (\<lambda>d. Inr (d\<lparr>d_version := d_version d + 1\<rparr>)))))"
| "closing _ d = Inr d"

definition binding :: "addr \<Rightarrow> 'b dist \<Rightarrow> 'b dist result" where
  "binding node d =
     bindE (seg_set (d_length d) node d) (\<lambda>d.
     Inr (d\<lparr>d_length := d_length d + 1, d_version := d_version d + 1\<rparr>))"

lemma closing_fields:
  "closing r d = Inr C \<Longrightarrow> d_nodes C = d_nodes d \<and> d_backends C = d_backends d"
  by (cases r) (auto simp: bindE_Inr_iff Let_def seg_set_def split: if_splits)

lemma closing_store:
  "closing r d = Inr C \<Longrightarrow> closing r (store_backend b q d) = Inr (store_backend b q C)"
  by (cases r) (auto simp: bindE_Inr_iff Let_def seg_at_def seg_set_def store_backend_def split: if_splits)

lemma binding_fields:
  "binding n d = Inr C \<Longrightarrow> d_nodes C = d_nodes d \<and> d_backends C = d_backends d"
  by (auto simp: binding_def bindE_Inr_iff seg_set_def split: if_splits)

lemma binding_store:
  "binding n d = Inr C \<Longrightarrow> binding n (store_backend b q d) = Inr (store_backend b q C)"
  by (auto simp: binding_def bindE_Inr_iff seg_set_def store_backend_def split: if_splits)

lemma remove_backend_closing:
  assumes "seg_at d i = Inr n" "n \<noteq> nullptr" "node_alive d n = Inr False" "node_empty ops d n = Inr True"
  shows "remove_backend ops i d = bindE (dist_node_delete n d) (closing (RemLength i))"
  using assms by (cases "dist_node_delete n d") (simp_all add: remove_backend_def Let_def)

text \<open>
  The holder of the lock at a program point: \<open>C\<close> is the container once its steps are finished,
  which represents \<open>ns\<close> and \<open>M\<close>, and \<open>d\<close> the container now.
\<close>

fun remove_inv ::
  "addr list \<Rightarrow> (addr \<rightharpoonup> bool \<times> 'e list) \<Rightarrow> 'b dist \<Rightarrow> 'b dist \<Rightarrow> u64 \<Rightarrow> remove_pc \<Rightarrow> bool" where
  "remove_inv ns M C d i (RemRead j) \<longleftrightarrow> d = C \<and> j = i \<and> unat i < length ns"
| "remove_inv ns M C d i (RemAlive j n) \<longleftrightarrow> d = C \<and> j = i \<and> unat i < length ns \<and> n = ns ! unat i"
| "remove_inv ns M C d i (RemEmpty j n) \<longleftrightarrow>
     d = C \<and> j = i \<and> unat i < length ns \<and> n = ns ! unat i \<and> (\<exists>xs. M n = Some (False, xs))"
| "remove_inv ns M C d i (RemDelete j n) \<longleftrightarrow>
     d = C \<and> j = i \<and> unat i < length ns \<and> n = ns ! unat i \<and> M n = Some (False, [])"
| "remove_inv ns M C d i r \<longleftrightarrow> closing r d = Inr C"

fun put_inv :: "addr list \<Rightarrow> (addr \<rightharpoonup> bool \<times> 'e list) \<Rightarrow> 'b dist \<Rightarrow> 'b dist \<Rightarrow> 'e put_pc \<Rightarrow> bool" where
  "put_inv ns M C d (PurgeAlive x i) \<longleftrightarrow> d = C \<and> unat i < length ns"
| "put_inv ns M C d (PurgeEmpty x i) \<longleftrightarrow> d = C \<and> unat i < length ns"
| "put_inv ns M C d (PurgeRemove x i r) \<longleftrightarrow> remove_inv ns M C d i r"
| "put_inv ns M C d (PutNew x) \<longleftrightarrow> d = C \<and> d_length C < d_capacity C"
| "put_inv ns M C d (PutStore x n) \<longleftrightarrow> binding n d = Inr C \<and> n \<noteq> nullptr \<and> M n = Some (True, [])"
| "put_inv ns M C d (PutVersion x) \<longleftrightarrow> d\<lparr>d_version := d_version d + 1\<rparr> = C"
| "put_inv ns M C d _ \<longleftrightarrow> d = C"

text \<open>The thread's own backend is not bound before the store into the segment.\<close>

fun local_ok :: "addr \<Rightarrow> 'e put_pc \<Rightarrow> bool" where
  "local_ok local (PutLock x) = True"
| "local_ok local (PutVersion x) \<longleftrightarrow> local \<noteq> nullptr"
| "local_ok local (PutQueue x) \<longleftrightarrow> local \<noteq> nullptr"
| "local_ok local _ \<longleftrightarrow> local = nullptr"

lemma put_inv_fields:
  "put_inv ns M C d p \<Longrightarrow> d_nodes d = d_nodes C \<and> d_backends d = d_backends C"
  by (induction ns M C d p rule: put_inv.induct)
    (auto dest: closing_fields binding_fields elim!: remove_inv.elims)

text \<open>It survives a \<open>put\<close> of another thread to its own backend.\<close>

lemma put_inv_store:
  assumes "put_inv ns M C d p" "M m = Some (True, xs)" "\<And>x. p \<noteq> PutStore x m"
  shows "put_inv ns (M(m \<mapsto> (True, ys))) (store_backend b q C) (store_backend b q d) p"
proof (cases p)
  case (PurgeRemove x i r)
  then show ?thesis using assms(1,2)
    by (cases r) (auto simp: closing_store simp del: closing.simps(1-4))
next
  case (PutStore x n)
  then show ?thesis using assms by (auto intro: binding_store)
qed (use assms(1) in \<open>auto simp: store_backend_def\<close>)

text \<open>
  What the holder's steps do to the nodes: nothing, a dead and empty one goes, or a new one comes.
\<close>

definition node_change :: "(addr \<rightharpoonup> bool \<times> 'e list) \<Rightarrow> (addr \<rightharpoonup> bool \<times> 'e list) \<Rightarrow> addr option \<Rightarrow> bool" where
  "node_change M M' new \<longleftrightarrow>
     (case new of
        None \<Rightarrow> M' = M \<or> (\<exists>n. M n = Some (False, []) \<and> M' = M(n := None))
      | Some n \<Rightarrow> n \<noteq> nullptr \<and> M n = None \<and> M' = M(n \<mapsto> (True, [])))"

definition store_of :: "'e put_pc \<Rightarrow> addr option" where
  "store_of p = (case p of PutStore x n \<Rightarrow> Some n | _ \<Rightarrow> None)"

lemma store_of_simps [simp]:
  "store_of (PutStore x n) = Some n" "store_of (PutLock x) = None" "store_of (PutFull x) = None"
  "store_of (PurgeTest x i) = None" "store_of (PurgeAlive x i) = None" "store_of (PurgeEmpty x i) = None"
  "store_of (PurgeRemove x i r) = None" "store_of (PutRoom x) = None" "store_of (PutNew x) = None"
  "store_of (PutVersion x) = None" "store_of (PutQueue x) = None"
  by (simp_all add: store_of_def)

text \<open>The outcome of a step inside the critical section.\<close>

definition crit_moves ::
  "('b \<Rightarrow> 'e list \<Rightarrow> bool) \<Rightarrow> (addr \<rightharpoonup> bool \<times> 'e list) \<Rightarrow> 'e put_pc \<Rightarrow> addr \<Rightarrow>
    ('e put_pc, 'b, 'e) dist_outcome result \<Rightarrow> bool" where
  "crit_moves brep M p local r \<longleftrightarrow> r = Inl BadAlloc \<or>
     (\<exists>k local' lock d C ns M'. r = Inr (k, local', lock, d, []) \<and> dist_rep brep C ns M' \<and>
        (case k of
           Inl p' \<Rightarrow> crit_pc p' = lock \<and> elem_of p' = elem_of p \<and> put_inv ns M' C d p' \<and> local_ok local' p' \<and>
             node_change M M' (if store_of p = None then store_of p' else None) \<and>
             (if store_of p = None then local' = local else local' = the (store_of p) \<and> store_of p' = None)
         | Inr v \<Rightarrow> v = RPut False \<and> \<not> lock \<and> M' = M \<and> local' = local) \<and>
        (\<not> lock \<longrightarrow> d = C))"

lemma crit_moves_same:
  assumes "dist_rep brep C ns M" "r = Inr (Inl p', local, True, d, [])" "crit_pc p'" "elem_of p' = elem_of p"
    "put_inv ns M C d p'" "local_ok local p'" "store_of p = None" "store_of p' = None"
  shows "crit_moves brep M p local r"
  unfolding crit_moves_def
  by (rule disjI2, rule exI [of _ "Inl p'"], rule exI [of _ local], rule exI [of _ True], rule exI [of _ d],
      rule exI [of _ C], rule exI [of _ ns], rule exI [of _ M]) (use assms in \<open>simp add: node_change_def\<close>)

context backend
begin

lemma purge_moves:
  assumes rep: "dist_rep brep C ns M" and inv: "remove_inv ns M C d i r"
  shows "crit_moves brep M (PurgeRemove x i r) nullptr (put_go ops al (PurgeRemove x i r) nullptr True d)"
proof (cases r)
  case (RemRead j)
  then have h: "d = C" "j = i" "unat i < length ns" using inv by simp_all
  have "ns ! unat i \<noteq> nullptr" using dist_repD(6) [OF rep] h(3) nth_mem by metis
  then show ?thesis
    using RemRead h seg_at_rep [OF rep h(3)]
    by (intro crit_moves_same [OF rep, of _ "PurgeRemove x i (RemAlive i (ns ! unat i))" _ C]) simp_all
next
  case (RemAlive j n)
  then have h: "d = C" "j = i" "unat i < length ns" "n = ns ! unat i" using inv by simp_all
  then have "n \<in> dom M" using dist_repD(8) [OF rep] by simp
  then obtain alive xs where M: "M n = Some (alive, xs)" by auto
  have "node_alive C n = Inr alive" by (rule dist_rep_node [OF rep M])
  then show ?thesis
    using RemAlive h M
    by (intro crit_moves_same [OF rep, of _ "if alive then PurgeTest x (i + 1) else PurgeRemove x i (RemEmpty i n)" _ C])
      auto
next
  case (RemEmpty j n)
  then obtain xs where h: "d = C" "j = i" "unat i < length ns" "n = ns ! unat i" "M n = Some (False, xs)"
    using inv by auto
  then show ?thesis
    using RemEmpty node_empty_rep [OF rep h(5)]
    by (intro crit_moves_same [OF rep, of _ "if xs = [] then PurgeRemove x i (RemDelete i n) else PurgeTest x (i + 1)" _ C])
      auto
next
  case (RemDelete j n)
  have "remove_inv ns M C d i (RemDelete j n)" using inv unfolding RemDelete .
  then have h: "d = C" "j = i" "unat i < length ns" "n = ns ! unat i" "M n = Some (False, [])"
    unfolding remove_inv.simps by blast+
  have alive: "node_alive C n = Inr False" by (rule dist_rep_node [OF rep h(5)])
  have null: "n \<noteq> nullptr" by (rule dist_rep_node [OF rep h(5)])
  obtain C' where C': "remove_backend ops i C = Inr C'"
    "dist_rep brep C' ((butlast ns)[unat i := last ns]) (M(n := None))" (is "dist_rep _ _ ?ns _")
    using remove_backend_removes [OF rep h(3)] h(4,5) by auto
  obtain d' where d': "dist_node_delete n C = Inr d'" using dist_node_delete_rep [OF rep h(5)] by blast
  have "seg_at C i = Inr n" "node_empty ops C n = Inr True"
    using seg_at_rep [OF rep h(3)] h(4) node_empty_rep [OF rep h(5)] by simp_all
  from remove_backend_closing [OF this(1) null alive this(2)]
  have "closing (RemLength i) d' = Inr C'" using C'(1) d' by (simp del: closing.simps)
  then show ?thesis
    unfolding crit_moves_def
    using RemDelete h C'(2) d'
    by (intro disjI2 exI [of _ "Inl (PurgeRemove x i (RemLength i))"] exI [of _ nullptr] exI [of _ True]
        exI [of _ d'] exI [of _ C'] exI [of _ ?ns] exI [of _ "M(n := None)"])
      (auto simp: node_change_def simp del: closing.simps)
next
  case (RemLength j)
  then show ?thesis
    using inv
    by (intro crit_moves_same [OF rep, of _ "PurgeRemove x i (RemMove j)" _ "d\<lparr>d_length := d_length d - 1\<rparr>"])
      (simp_all add: Let_def)
next
  case (RemMove j)
  then obtain a d' where "seg_at d (d_length d) = Inr a" "seg_set j a d = Inr d'" "closing RemClear d' = Inr C"
    using inv by (auto simp: bindE_Inr_iff)
  then show ?thesis
    using RemMove
    by (intro crit_moves_same [OF rep, of _ "PurgeRemove x i RemClear" _ d']) simp_all
next
  case RemClear
  then obtain d' where "seg_set (d_length d) nullptr d = Inr d'" "closing RemVersion d' = Inr C"
    using inv by (auto simp: bindE_Inr_iff)
  then show ?thesis
    using RemClear
    by (intro crit_moves_same [OF rep, of _ "PurgeRemove x i RemVersion" _ d']) simp_all
next
  case RemVersion
  then show ?thesis
    using inv by (intro crit_moves_same [OF rep, of _ "PurgeTest x (i + 1)" _ C]) simp_all
qed

lemma crit_step:
  assumes rep: "dist_rep brep C ns M" and inv: "put_inv ns M C d p" and crit: "crit_pc p"
    and loc: "local_ok local p" and al: "alloc_ok (da_node al)" "alloc_ok (da_backend al)"
  shows "crit_moves brep M p local (put_go ops al p local True d)"
proof (cases p)
  case (PurgeTest x i)
  then have "d = C" using inv by simp
  then show ?thesis
    using PurgeTest loc dist_repD(2) [OF rep]
    by (intro crit_moves_same [OF rep, of _ "if i < d_length C then PurgeAlive x i else PutRoom x" _ C])
      (auto simp: word_less_nat_alt)
next
  case (PurgeAlive x i)
  then have h: "d = C" "unat i < length ns" using inv by simp_all
  then have "ns ! unat i \<in> dom M" using dist_repD(8) [OF rep] by simp
  then obtain alive xs where M: "M (ns ! unat i) = Some (alive, xs)" by auto
  have "node_alive C (ns ! unat i) = Inr alive" by (rule dist_rep_node [OF rep M])
  then show ?thesis
    using PurgeAlive h loc seg_at_rep [OF rep h(2)]
    by (intro crit_moves_same [OF rep, of _ "if alive then PurgeTest x (i + 1) else PurgeEmpty x i" _ C]) auto
next
  case (PurgeEmpty x i)
  then have h: "d = C" "unat i < length ns" using inv by simp_all
  then have "ns ! unat i \<in> dom M" using dist_repD(8) [OF rep] by simp
  then obtain alive xs where M: "M (ns ! unat i) = Some (alive, xs)" by auto
  show ?thesis
    using PurgeEmpty h loc seg_at_rep [OF rep h(2)] node_empty_rep [OF rep M]
    by (intro crit_moves_same [OF rep, of _ "if xs = [] then PurgeRemove x i (RemRead i) else PurgeTest x (i + 1)" _ C])
      auto
next
  case (PurgeRemove x i r)
  then show ?thesis using purge_moves [OF rep, of d i r x al] inv loc by simp
next
  case (PutFull x)
  then show ?thesis
    using inv loc
    by (intro crit_moves_same [OF rep, of _ "if d_length C \<ge> d_capacity C then PurgeTest x 0 else PutRoom x" _ C])
      auto
next
  case (PutRoom x)
  then have d: "d = C" using inv by simp
  show ?thesis
  proof (cases "d_length C \<ge> d_capacity C")
    case True
    then show ?thesis
      unfolding crit_moves_def using PutRoom d rep
      by (intro disjI2 exI [of _ "Inr (RPut False)"] exI [of _ local] exI [of _ False] exI [of _ C] exI [of _ C]
        exI [of _ ns] exI [of _ M]) simp
  next
    case False
    then show ?thesis
      using PutRoom d loc by (intro crit_moves_same [OF rep, of _ "PutNew x" _ C]) auto
  qed
next
  case (PutNew x)
  then have h: "d = C" "d_length C < d_capacity C" using inv by simp_all
  from dist_add_node [OF rep al h(2)] show ?thesis
  proof (elim disjE exE conjE)
    fix n d2 d3
    assume n: "dist_node_new ops al C = Inr (n, d2)" "seg_set (d_length d2) n d2 = Inr d3" "n \<notin> dom M" "n \<noteq> nullptr"
      and rep': "dist_rep brep (d3\<lparr>d_length := d_length d3 + 1, d_version := d_version d3 + 1\<rparr>) (ns @ [n])
        (M(n \<mapsto> (True, [])))" (is "dist_rep _ ?C _ _")
    have "binding n d2 = Inr ?C" using n(2) by (simp add: binding_def)
    then show ?thesis
      unfolding crit_moves_def using PutNew h n(1,3,4) rep' loc
      by (intro disjI2 exI [of _ "Inl (PutStore x n)"] exI [of _ local] exI [of _ True] exI [of _ d2] exI [of _ ?C]
        exI [of _ "ns @ [n]"] exI [of _ "M(n \<mapsto> (True, []))"]) (auto simp: node_change_def)
  qed (simp add: PutNew h(1) crit_moves_def)
next
  case (PutStore x n)
  then obtain d' where "seg_set (d_length d) n d = Inr d'"
    "d'\<lparr>d_length := d_length d' + 1, d_version := d_version d' + 1\<rparr> = C" "n \<noteq> nullptr"
    using inv by (auto simp: binding_def bindE_Inr_iff)
  then show ?thesis
    unfolding crit_moves_def using PutStore rep
    by (intro disjI2 exI [of _ "Inl (PutVersion x)"] exI [of _ n] exI [of _ True]
      exI [of _ "d'\<lparr>d_length := d_length d' + 1\<rparr>"] exI [of _ C] exI [of _ ns] exI [of _ M])
      (auto simp: node_change_def)
next
  case (PutVersion x)
  then show ?thesis
    unfolding crit_moves_def using inv rep loc
    by (intro disjI2 exI [of _ "Inl (PutQueue x)"] exI [of _ local] exI [of _ False] exI [of _ C] exI [of _ C]
      exI [of _ ns] exI [of _ M]) (auto simp: node_change_def)
qed (use crit in simp_all)

end

section \<open>All threads\<close>

text \<open>
  The calls of one thread: a \<open>put\<close> that returns true has put its element once, one that returns
  false has put nothing.
\<close>

datatype 'e put_status = Resting | Called 'e | Stored

fun put_event :: "'e dist_event \<Rightarrow> 'e put_status \<Rightarrow> 'e put_status option" where
  "put_event (DCall (CPut x)) Resting = Some (Called x)"
| "put_event (DEnq n x) (Called y) = (if x = y then Some Stored else None)"
| "put_event (DRet (RPut True)) Stored = Some Resting"
| "put_event (DRet (RPut False)) (Called x) = Some Resting"
| "put_event _ _ = None"

fun put_events :: "'e dist_event list \<Rightarrow> 'e put_status \<Rightarrow> 'e put_status option" where
  "put_events [] st = Some st"
| "put_events (e # es) st = (case put_event e st of None \<Rightarrow> None | Some st' \<Rightarrow> put_events es st')"

definition events_of :: "'t \<Rightarrow> ('t \<times> 'e dist_event) list \<Rightarrow> 'e dist_event list" where
  "events_of t es = map snd (filter (\<lambda>(u, e). u = t) es)"

fun status_of :: "'e dist_pc \<Rightarrow> 'e put_status" where
  "status_of (InPut p) = Called (elem_of p)"
| "status_of _ = Resting"

lemma put_events_append:
  "put_events (es @ es') st = (case put_events es st of None \<Rightarrow> None | Some st' \<Rightarrow> put_events es' st')"
  by (induction es arbitrary: st) (simp_all split: option.splits)

lemma events_of_append [simp]: "events_of t (es @ es') = events_of t es @ events_of t es'"
  by (simp add: events_of_def)

lemma events_of_thread [simp]: "events_of u (map (Pair t) es) = (if u = t then es else [])"
  by (induction es) (auto simp: events_of_def)

text \<open>What the backend of a node holds: what it held at first and what was put into it since.\<close>

definition puts_into :: "addr \<Rightarrow> ('t \<times> 'e dist_event) list \<Rightarrow> 'e list" where
  "puts_into n es = concat (map (\<lambda>(t, e). case e of DEnq m x \<Rightarrow> if m = n then [x] else [] | _ \<Rightarrow> []) es)"

definition contents :: "(addr \<rightharpoonup> bool \<times> 'e list) \<Rightarrow> addr \<Rightarrow> 'e list" where
  "contents M n = (case M n of None \<Rightarrow> [] | Some (al, xs) \<Rightarrow> xs)"

definition nothing_lost ::
  "(addr \<rightharpoonup> bool \<times> 'e list) \<Rightarrow> ('t \<times> 'e dist_event) list \<Rightarrow> (addr \<rightharpoonup> bool \<times> 'e list) \<Rightarrow> bool" where
  "nothing_lost M0 es M \<longleftrightarrow> (\<forall>n. contents M n = contents M0 n @ puts_into n es)"

lemma puts_into_append [simp]: "puts_into n (es @ es') = puts_into n es @ puts_into n es'"
  by (simp add: puts_into_def)

lemma puts_into_simps [simp]:
  "puts_into n [] = []" "puts_into n [(t, DCall c)] = []"
  "puts_into n [(t, DRet v)] = []" "puts_into n [(t, DEnq m x), (t, DRet v)] = (if m = n then [x] else [])"
  by (simp_all add: puts_into_def)

definition in_crit :: "('t, 'b, 'e) dist_threads \<Rightarrow> 't \<Rightarrow> bool" where
  "in_crit s t \<longleftrightarrow> (\<exists>p. point s t = InPut p \<and> crit_pc p)"

text \<open>The node of the thread's backend, from its creation on.\<close>

definition owns :: "('t, 'b, 'e) dist_threads \<Rightarrow> 't \<Rightarrow> addr \<Rightarrow> bool" where
  "owns s t n \<longleftrightarrow> n \<noteq> nullptr \<and> (local_backend s t = n \<or> (\<exists>p. point s t = InPut p \<and> store_of p = Some n))"

text \<open>
  The invariant: \<open>l0\<close> are the backends the threads had at first, \<open>es\<close> is what has happened.
\<close>

definition put_point_ok ::
  "addr list \<Rightarrow> (addr \<rightharpoonup> bool \<times> 'e list) \<Rightarrow> 'b dist \<Rightarrow> ('t, 'b, 'e) dist_threads \<Rightarrow> 't \<Rightarrow> bool" where
  "put_point_ok ns M C s t \<longleftrightarrow>
     (case point s t of
        Outside \<Rightarrow> True
      | InPut p \<Rightarrow> local_ok (local_backend s t) p \<and> (crit_pc p \<longrightarrow> put_inv ns M C (container s) p)
      | _ \<Rightarrow> False)"

definition own_inv :: "('t \<Rightarrow> addr) \<Rightarrow> (addr \<rightharpoonup> bool \<times> 'e list) \<Rightarrow> ('t, 'b, 'e) dist_threads \<Rightarrow> bool" where
  "own_inv l0 M s \<longleftrightarrow>
     (\<forall>t n. owns s t n \<longrightarrow> (\<exists>xs. M n = Some (True, xs))) \<and>
     (\<forall>t. l0 t \<noteq> nullptr \<longrightarrow> local_backend s t = l0 t) \<and>
     (\<forall>t u n. owns s t n \<and> owns s u n \<and> l0 t = nullptr \<longrightarrow> u = t)"

definition trace_inv ::
  "('t, 'b, 'e) dist_threads \<Rightarrow> ('t \<times> 'e dist_event) list \<Rightarrow> bool" where
  "trace_inv s es \<longleftrightarrow>
     (\<forall>t. put_events (events_of t es) Resting = Some (status_of (point s t))) \<and>
     (\<forall>t n x. (t, DEnq n x) \<in> set es \<longrightarrow> n = local_backend s t \<and> n \<noteq> nullptr)"

definition lock_inv ::
  "('b \<Rightarrow> 'e list \<Rightarrow> bool) \<Rightarrow> (addr \<rightharpoonup> bool \<times> 'e list) \<Rightarrow> ('t \<Rightarrow> addr) \<Rightarrow> addr list \<Rightarrow>
    (addr \<rightharpoonup> bool \<times> 'e list) \<Rightarrow> 'b dist \<Rightarrow> ('t, 'b, 'e) dist_threads \<Rightarrow> ('t \<times> 'e dist_event) list \<Rightarrow> bool" where
  "lock_inv brep M0 l0 ns M C s es \<longleftrightarrow>
     dist_rep brep C ns M \<and> nothing_lost M0 es M \<and> (\<forall>t. put_point_ok ns M C s t) \<and>
     (\<forall>t u. in_crit s t \<and> in_crit s u \<longrightarrow> t = u) \<and> (m_lock s \<longleftrightarrow> (\<exists>t. in_crit s t)) \<and>
     (\<not> m_lock s \<longrightarrow> container s = C) \<and> own_inv l0 M s \<and> trace_inv s es"

lemma node_change_contents: "node_change M M' new \<Longrightarrow> contents M' n = contents M n"
  by (cases new) (auto simp: node_change_def contents_def)

lemma nothing_lost_quiet:
  "nothing_lost M0 es M \<Longrightarrow> node_change M M' new \<Longrightarrow> (\<And>n. puts_into n es' = []) \<Longrightarrow>
    nothing_lost M0 (es @ es') M'"
  by (simp add: nothing_lost_def node_change_contents)

lemma nothing_lost_put:
  assumes "nothing_lost M0 es M" "M n = Some (True, xs)" "\<And>m. puts_into m es' = (if m = n then [x] else [])"
  shows "nothing_lost M0 (es @ es') (M(n \<mapsto> (True, xs @ [x])))"
  unfolding nothing_lost_def
proof
  fix m
  have "contents M m = contents M0 m @ puts_into m es" using assms(1) by (simp add: nothing_lost_def)
  then show "contents (M(n \<mapsto> (True, xs @ [x]))) m = contents M0 m @ puts_into m (es @ es')"
    using assms(2,3) by (auto simp: contents_def)
qed

text \<open>Preservation of \<open>trace_inv\<close> under a step of thread \<open>t\<close>.\<close>

lemma trace_inv_step:
  assumes inv: "trace_inv s es"
    and others: "\<And>u. u \<noteq> t \<Longrightarrow> point s' u = point s u \<and> local_backend s' u = local_backend s u"
    and here: "put_events es' (status_of (point s t)) = Some (status_of (point s' t))"
    and enq: "\<And>n x. DEnq n x \<in> set es' \<Longrightarrow> n = local_backend s' t \<and> n \<noteq> nullptr"
    and keep: "local_backend s t \<noteq> nullptr \<Longrightarrow> local_backend s' t = local_backend s t"
  shows "trace_inv s' (es @ map (Pair t) es')"
  unfolding trace_inv_def
proof (intro conjI allI impI)
  fix u
  have "put_events (events_of u es) Resting = Some (status_of (point s u))"
    using inv by (simp add: trace_inv_def)
  then show "put_events (events_of u (es @ map (Pair t) es')) Resting = Some (status_of (point s' u))"
    using others here by (cases "u = t") (simp_all add: put_events_append)
next
  fix u n x
  assume "(u, DEnq n x) \<in> set (es @ map (Pair t) es')"
  then consider "(u, DEnq n x) \<in> set es" | "u = t" "DEnq n x \<in> set es'" by auto
  then have "n = local_backend s' u \<and> n \<noteq> nullptr"
  proof cases
    case 1
    then have "n = local_backend s u" "n \<noteq> nullptr" using inv by (auto simp: trace_inv_def)
    then show ?thesis using others keep by (cases "u = t") auto
  qed (use enq in blast)
  then show "n = local_backend s' u" "n \<noteq> nullptr" by blast+
qed

section \<open>Preservation\<close>

definition moved ::
  "'t \<Rightarrow> 'e dist_pc \<Rightarrow> addr \<Rightarrow> bool \<Rightarrow> 'b dist \<Rightarrow> ('t, 'b, 'e) dist_threads \<Rightarrow> ('t, 'b, 'e) dist_threads" where
  "moved t q l lock d s = s\<lparr>container := d, m_lock := lock, local_backend := (local_backend s)(t := l),
     point := (point s)(t := q)\<rparr>"

lemma moved_simps [simp]:
  "container (moved t q l lock d s) = d" "m_lock (moved t q l lock d s) = lock"
  "local_backend (moved t q l lock d s) = (local_backend s)(t := l)"
  "point (moved t q l lock d s) = (point s)(t := q)"
  by (simp_all add: moved_def)

lemma in_crit_moved:
  "in_crit (moved t q l lock d s) u \<longleftrightarrow> (if u = t then \<exists>p. q = InPut p \<and> crit_pc p else in_crit s u)"
  by (simp add: in_crit_def)

lemma owns_moved:
  "owns (moved t q l lock d s) u n \<longleftrightarrow>
    (if u = t then n \<noteq> nullptr \<and> (l = n \<or> (\<exists>p. q = InPut p \<and> store_of p = Some n)) else owns s u n)"
  by (simp add: owns_def)

lemma own_invD:
  assumes "own_inv l0 M s"
  shows "owns s t n \<Longrightarrow> \<exists>xs. M n = Some (True, xs)"
    "l0 t \<noteq> nullptr \<Longrightarrow> local_backend s t = l0 t"
    "owns s t n \<Longrightarrow> owns s u n \<Longrightarrow> l0 t = nullptr \<Longrightarrow> u = t"
  using assms unfolding own_inv_def by blast+

lemma own_inv_moved:
  assumes inv: "own_inv l0 M s"
    and alive: "\<And>n xs. M n = Some (True, xs) \<Longrightarrow> \<exists>ys. M' n = Some (True, ys)"
    and here: "\<And>n. owns (moved t q l lock d s) t n \<Longrightarrow>
      owns s t n \<or> M n = None \<and> (\<exists>ys. M' n = Some (True, ys))"
    and keep: "local_backend s t \<noteq> nullptr \<Longrightarrow> l = local_backend s t"
  shows "own_inv l0 M' (moved t q l lock d s)"
  unfolding own_inv_def
proof (intro conjI allI impI)
  let ?s = "moved t q l lock d s"
  note I = own_invD [OF inv]
  have old: "owns s u n" if "owns ?s u n" "M n \<noteq> None" for u n
    using here [of n] that by (cases "u = t") (auto simp: owns_moved)
  have other: "owns s u n" if "owns ?s u n" "u \<noteq> t" for u n
    using that by (simp add: owns_moved)
  show "\<exists>xs. M' n = Some (True, xs)" if "owns ?s u n" for u n
    using here [of n] I(1) alive that other by (cases "u = t") blast+
  show "local_backend ?s u = l0 u" if "l0 u \<noteq> nullptr" for u
    using I(2) [OF that] keep that by (cases "u = t") auto
  show "v = u" if h: "owns ?s u n \<and> owns ?s v n \<and> l0 u = nullptr" for u v n
  proof (cases "M n = None")
    case True
    then have "\<not> owns s w n" for w using I(1) by fastforce
    then show ?thesis using h other by metis
  next
    case False
    then show ?thesis using h old I(3) by blast
  qed
qed

lemma lock_inv_moved:
  assumes inv: "lock_inv brep M0 l0 ns M C s es"
    and rep: "dist_rep brep C' ns' M'" "nothing_lost M0 (es @ map (Pair t) es') M'"
    and here: "put_point_ok ns' M' C' (moved t q l lock d s) t"
    and others: "\<And>u p. u \<noteq> t \<Longrightarrow> point s u = InPut p \<Longrightarrow> crit_pc p \<Longrightarrow> put_inv ns' M' C' d p"
    and lock: "lock \<longleftrightarrow> (\<exists>p. q = InPut p \<and> crit_pc p) \<or> (\<exists>u. u \<noteq> t \<and> in_crit s u)"
    and alone: "\<And>p u. q = InPut p \<Longrightarrow> crit_pc p \<Longrightarrow> in_crit s u \<Longrightarrow> u = t"
    and free: "\<not> lock \<Longrightarrow> d = C'"
    and own: "own_inv l0 M' (moved t q l lock d s)"
    and trace: "trace_inv (moved t q l lock d s) (es @ map (Pair t) es')"
  shows "lock_inv brep M0 l0 ns' M' C' (moved t q l lock d s) (es @ map (Pair t) es')"
  unfolding lock_inv_def
proof (intro conjI allI impI)
  have I: "\<And>t. put_point_ok ns M C s t" "\<And>t u. in_crit s t \<Longrightarrow> in_crit s u \<Longrightarrow> t = u"
    using inv unfolding lock_inv_def by blast+
  show "put_point_ok ns' M' C' (moved t q l lock d s) u" for u
  proof (cases "u = t")
    case False
    then show ?thesis using I(1) [of u] others [OF False]
      by (auto simp: put_point_ok_def split: dist_pc.splits)
  qed (use here in simp)
  show "u = v" if "in_crit (moved t q l lock d s) u \<and> in_crit (moved t q l lock d s) v" for u v
    using that I(2) alone by (auto simp: in_crit_moved split: if_splits)
  show "m_lock (moved t q l lock d s) = (\<exists>u. in_crit (moved t q l lock d s) u)"
    using lock by (auto simp: in_crit_moved)
  show "container (moved t q l lock d s) = C'" if "\<not> m_lock (moved t q l lock d s)"
    using free that by simp
qed (use rep own trace in simp_all)

lemma lock_invD:
  assumes "lock_inv brep M0 l0 ns M C s es"
  shows "dist_rep brep C ns M" "nothing_lost M0 es M" "put_point_ok ns M C s t"
    "in_crit s t \<Longrightarrow> in_crit s u \<Longrightarrow> t = u" "m_lock s \<longleftrightarrow> (\<exists>t. in_crit s t)"
    "\<not> m_lock s \<Longrightarrow> container s = C" "own_inv l0 M s" "trace_inv s es"
  using assms unfolding lock_inv_def by blast+

lemma lock_inv_others:
  assumes "lock_inv brep M0 l0 ns M C s es" "point s u = InPut p" "crit_pc p"
  shows "put_inv ns M C (container s) p"
  using lock_invD(3) [OF assms(1), of u] assms(2,3) by (simp add: put_point_ok_def)

text \<open>A step that changes nothing but where the thread is and the lock.\<close>

lemma lock_inv_goes:
  assumes inv: "lock_inv brep M0 l0 ns M C s es" and t: "\<not> in_crit s t"
    and q: "q = InPut p" "local_ok (local_backend s t) p" "store_of p = None" "crit_pc p \<Longrightarrow> \<not> m_lock s \<and> put_inv ns M C C p"
    and st: "put_events es' (status_of (point s t)) = Some (Called (elem_of p))"
    and es': "\<And>n. puts_into n (map (Pair t) es') = []" "\<And>n x. DEnq n x \<notin> set es'"
  shows "lock_inv brep M0 l0 ns M C (moved t q (local_backend s t) (m_lock s \<or> crit_pc p) (container s) s)
    (es @ map (Pair t) es')"
proof (rule lock_inv_moved [OF inv lock_invD(1) [OF inv]])
  note I = lock_invD [OF inv]
  show "nothing_lost M0 (es @ map (Pair t) es') M"
    by (rule nothing_lost_quiet [OF I(2), where new = None]) (simp_all add: node_change_def es'(1))
  show "put_point_ok ns M C (moved t q (local_backend s t) (m_lock s \<or> crit_pc p) (container s) s) t"
    using q I(6) by (auto simp: put_point_ok_def)
  show "put_inv ns M C (container s) p'" if "u \<noteq> t" "point s u = InPut p'" "crit_pc p'" for u p'
    by (rule lock_inv_others [OF inv that(2,3)])
  show "(m_lock s \<or> crit_pc p) = ((\<exists>p. q = InPut p \<and> crit_pc p) \<or> (\<exists>u. u \<noteq> t \<and> in_crit s u))"
    using t I(5) q(1) by auto
  show "u = t" if "q = InPut p'" "crit_pc p'" "in_crit s u" for p' u
    using that q(1,4) I(5) by auto
  show "own_inv l0 M (moved t q (local_backend s t) (m_lock s \<or> crit_pc p) (container s) s)"
    by (rule own_inv_moved [OF I(7)]) (use q(1,3) in \<open>auto simp: owns_moved owns_def\<close>)
  show "trace_inv (moved t q (local_backend s t) (m_lock s \<or> crit_pc p) (container s) s) (es @ map (Pair t) es')"
    by (rule trace_inv_step [OF I(8)]) (use st q(1) es'(2) in auto)
qed (use lock_invD(6) [OF inv] in auto)

definition puts_only :: "('t, 'e) dist_choice \<Rightarrow> bool" where
  "puts_only c = (case c of Begin t (CPut x) \<Rightarrow> True | Begin t _ \<Rightarrow> False | Go t rnd \<Rightarrow> True)"

lemma moved_here: "moved t (point s t) (local_backend s t) (m_lock s) (container s) s = s"
  by (simp add: moved_def)

lemma dist_next_Go:
  "dist_next ops al junk e (Go t rnd) s =
    bindE (dist_go ops al junk e rnd (point s t) (local_backend s t) (m_lock s) (container s))
      (\<lambda>(q, l, lock, d, es). Inr (moved t q l lock d s, map (Pair t) es))"
  by (simp add: moved_def)

context backend
begin

lemma lock_step_enter:
  assumes inv: "lock_inv brep M0 l0 ns M C s es" and pc: "point s t = InPut (PutLock x)"
  shows "\<exists>s'. dist_next ops al junk e (Go t rnd) s = Inr (s', []) \<and> lock_inv brep M0 l0 ns M C s' es"
proof -
  let ?p = "if local_backend s t \<noteq> nullptr then PutQueue x else if m_lock s then PutLock x else PutFull x"
  have "\<not> in_crit s t" using pc by (simp add: in_crit_def)
  then have "lock_inv brep M0 l0 ns M C
      (moved t (InPut ?p) (local_backend s t) (m_lock s \<or> crit_pc ?p) (container s) s) (es @ map (Pair t) [])"
    by (rule lock_inv_goes [OF inv _ refl]) (auto simp: pc split: if_splits)
  moreover have "dist_next ops al junk e (Go t rnd) s =
      Inr (moved t (InPut ?p) (local_backend s t) (m_lock s \<or> crit_pc ?p) (container s) s, [])"
    unfolding dist_next_Go pc by (simp add: dist_on_def)
  ultimately show ?thesis by auto
qed

lemma lock_step_put:
  assumes inv: "lock_inv brep M0 l0 ns M C s es" and pc: "point s t = InPut (PutQueue x)"
  shows "dist_next ops al junk e (Go t rnd) s = Inl BadAlloc \<or>
    (\<exists>s' es' M' C'. dist_next ops al junk e (Go t rnd) s = Inr (s', map (Pair t) es') \<and>
       lock_inv brep M0 l0 ns M' C' s' (es @ map (Pair t) es'))"
proof -
  note I = lock_invD [OF inv]
  let ?n = "local_backend s t" and ?d = "container s"
  have n: "?n \<noteq> nullptr" using I(3) [of t] pc by (simp add: put_point_ok_def)
  then have owns: "owns s t ?n" by (simp add: owns_def)
  obtain xs where M: "M ?n = Some (True, xs)" using own_invD(1) [OF I(7) owns] by blast
  obtain q where q: "node_backend C ?n = Inr (backend_ptr C ?n)" "backend_at C (backend_ptr C ?n) = Inr q" "brep q xs"
    by (rule dist_rep_node [OF I(1) M])
  have crit: "put_inv ns M C ?d p" if "point s u = InPut p" "crit_pc p" for u p
    by (rule lock_inv_others [OF inv that])
  have "d_nodes ?d = d_nodes C \<and> d_backends ?d = d_backends C"
    using I(5,6) crit put_inv_fields by (metis in_crit_def)
  then have at: "node_backend ?d ?n = Inr (backend_ptr C ?n)" "backend_at ?d (backend_ptr C ?n) = Inr q"
    using q by (simp_all add: node_backend_def node_at_def backend_at_def)
  from put_rep [OF q(3), of x] show ?thesis
  proof (elim disjE exE conjE)
    fix q'
    assume q': "backend_put ops x q = Inr (True, q')" "brep q' (xs @ [x])"
    let ?b = "backend_ptr C ?n" and ?es = "[DEnq ?n x, DRet (RPut True)]"
    let ?M = "M(?n \<mapsto> (True, xs @ [x]))" and ?s = "moved t Outside ?n (m_lock s) (store_backend (backend_ptr C ?n) q' ?d) s"
    have "lock_inv brep M0 l0 ns ?M (store_backend ?b q' C) ?s (es @ map (Pair t) ?es)"
    proof (rule lock_inv_moved [OF inv])
      show "dist_rep brep (store_backend ?b q' C) ns ?M" by (rule store_backend_rep [OF I(1) M q'(2)])
      show "nothing_lost M0 (es @ map (Pair t) ?es) ?M"
        by (rule nothing_lost_put [OF I(2) M]) simp
      show "put_point_ok ns ?M (store_backend ?b q' C) ?s t" by (simp add: put_point_ok_def)
      show "put_inv ns ?M (store_backend ?b q' C) (store_backend ?b q' ?d) p"
        if u: "u \<noteq> t" "point s u = InPut p" "crit_pc p" for u p
      proof (rule put_inv_store [OF crit [OF u(2,3)] M])
        fix y
        show "p \<noteq> PutStore y ?n"
        proof
          assume p: "p = PutStore y ?n"
          then have "owns s u ?n" using n u(2) by (simp add: owns_def)
          moreover have "local_backend s u = nullptr" using I(3) [of u] u(2) p by (simp add: put_point_ok_def)
          then have "l0 u = nullptr" using own_invD(2) [OF I(7), of u] by auto
          ultimately show False using own_invD(3) [OF I(7)] owns u(1) by blast
        qed
      qed
      have "\<not> in_crit s t" using pc by (simp add: in_crit_def)
      then show "m_lock s = ((\<exists>p. Outside = InPut p \<and> crit_pc p) \<or> (\<exists>u. u \<noteq> t \<and> in_crit s u))"
        using I(5) by auto
      show "own_inv l0 ?M ?s"
        by (rule own_inv_moved [OF I(7)]) (auto simp: owns_moved owns_def)
      show "trace_inv ?s (es @ map (Pair t) ?es)"
        by (rule trace_inv_step [OF I(8)]) (use pc n in auto)
    qed (use I(6) in auto)
    moreover have "dist_next ops al junk e (Go t rnd) s = Inr (?s, map (Pair t) ?es)"
      unfolding dist_next_Go pc using at q'(1) by (simp add: dist_on_def)
    ultimately show ?thesis by blast
  next
    assume "backend_put ops x q = Inl BadAlloc"
    then show ?thesis unfolding dist_next_Go pc using at by (simp add: dist_on_def)
  qed
qed

lemma lock_step_crit:
  assumes inv: "lock_inv brep M0 l0 ns M C s es" and pc: "point s t = InPut p" "crit_pc p"
    and al: "alloc_ok (da_node al)" "alloc_ok (da_backend al)"
  shows "dist_next ops al junk e (Go t rnd) s = Inl BadAlloc \<or>
    (\<exists>s' es' ns' M' C'. dist_next ops al junk e (Go t rnd) s = Inr (s', map (Pair t) es') \<and>
       lock_inv brep M0 l0 ns' M' C' s' (es @ map (Pair t) es'))"
proof -
  note I = lock_invD [OF inv]
  let ?l = "local_backend s t"
  have crit: "in_crit s t" using pc by (simp add: in_crit_def)
  then have "m_lock s" using I(5) by blast
  have alone: "\<not> in_crit s u" if "u \<noteq> t" for u using I(4) [OF crit] that by blast
  have loc: "local_ok ?l p" and "put_inv ns M C (container s) p"
    using I(3) [of t] pc by (simp_all add: put_point_ok_def)
  from crit_step [OF I(1) this(2) pc(2) this(1) al]
  have "crit_moves brep M p ?l (put_go ops al p ?l (m_lock s) (container s))"
    using \<open>m_lock s\<close> by simp
  then show ?thesis unfolding crit_moves_def
  proof (elim disjE exE conjE)
    fix k l lock d C' ns' M'
    assume k: "put_go ops al p ?l (m_lock s) (container s) = Inr (k, l, lock, d, [])"
      and rep: "dist_rep brep C' ns' M'" and free: "\<not> lock \<longrightarrow> d = C'"
      and out: "case k of Inl p' \<Rightarrow> crit_pc p' = lock \<and> elem_of p' = elem_of p \<and> put_inv ns' M' C' d p' \<and>
          local_ok l p' \<and> node_change M M' (if store_of p = None then store_of p' else None) \<and>
          (if store_of p = None then l = ?l else l = the (store_of p) \<and> store_of p' = None)
        | Inr v \<Rightarrow> v = RPut False \<and> \<not> lock \<and> M' = M \<and> l = ?l"
    let ?q = "case k of Inl p' \<Rightarrow> InPut p' | Inr v \<Rightarrow> Outside"
    let ?es = "case k of Inl p' \<Rightarrow> [] | Inr v \<Rightarrow> [DRet v]"
    let ?s = "moved t ?q l lock d s"
    have next_eq: "dist_next ops al junk e (Go t rnd) s = Inr (?s, map (Pair t) ?es)"
      unfolding dist_next_Go pc(1) using k by (simp add: dist_on_def split: sum.splits)
    have change: "\<exists>new. node_change M M' new \<and> (new \<noteq> None \<longrightarrow> (\<exists>p'. k = Inl p' \<and> store_of p' = new \<and> store_of p = None))"
      using out by (cases k) (auto simp: node_change_def split: if_splits)
    then obtain new where new: "node_change M M' new"
      "new \<noteq> None \<Longrightarrow> \<exists>p'. k = Inl p' \<and> store_of p' = new \<and> store_of p = None" by blast
    have l: "l = ?l \<or> store_of p = Some l \<and> ?l = nullptr"
      using out loc by (cases k; cases p) (auto split: if_splits)
    have "lock_inv brep M0 l0 ns' M' C' ?s (es @ map (Pair t) ?es)"
    proof (rule lock_inv_moved [OF inv rep])
      show "nothing_lost M0 (es @ map (Pair t) ?es) M'"
        by (rule nothing_lost_quiet [OF I(2) new(1)]) (cases k; simp)
      show "put_point_ok ns' M' C' ?s t"
        using out by (cases k) (auto simp: put_point_ok_def)
      show "put_inv ns' M' C' d p'" if "u \<noteq> t" "point s u = InPut p'" "crit_pc p'" for u p'
        using alone [OF that(1)] that(2,3) by (auto simp: in_crit_def)
      show "lock = ((\<exists>p. ?q = InPut p \<and> crit_pc p) \<or> (\<exists>u. u \<noteq> t \<and> in_crit s u))"
        using alone out by (cases k) auto
      show "u = t" if "?q = InPut p'" "crit_pc p'" "in_crit s u" for p' u
        using alone that(3) by blast
      show "own_inv l0 M' ?s"
      proof (rule own_inv_moved [OF I(7)])
        show "\<exists>ys. M' n = Some (True, ys)" if "M n = Some (True, xs)" for n xs
          using new(1) that by (cases new) (auto simp: node_change_def)
        show "owns s t n \<or> M n = None \<and> (\<exists>ys. M' n = Some (True, ys))" if "owns ?s t n" for n
          using that l out pc(1)
          by (cases k) (auto simp: owns_moved owns_def node_change_def split: if_splits)
      qed (use l in auto)
      show "trace_inv ?s (es @ map (Pair t) ?es)"
        by (rule trace_inv_step [OF I(8)]) (use pc(1) out l in \<open>auto split: sum.splits\<close>)
    qed (use free in blast)
    then show ?thesis using next_eq by blast
  next
    assume "put_go ops al p ?l (m_lock s) (container s) = Inl BadAlloc"
    then show ?thesis unfolding dist_next_Go pc(1) by (simp add: dist_on_def)
  qed
qed

lemma lock_inv_next:
  assumes inv: "lock_inv brep M0 l0 ns M C s es" and c: "puts_only c"
    and al: "alloc_ok (da_node al)" "alloc_ok (da_backend al)"
  shows "dist_next ops al junk e c s = Inl BadAlloc \<or>
    (\<exists>s' es' ns' M' C'. dist_next ops al junk e c s = Inr (s', es') \<and>
       lock_inv brep M0 l0 ns' M' C' s' (es @ es'))"
proof (cases c)
  case (Begin t call)
  then obtain x where x: "call = CPut x" using c by (cases call) (auto simp: puts_only_def)
  show ?thesis
  proof (cases "point s t = Outside")
    case True
    let ?s = "moved t (InPut (PutLock x)) (local_backend s t) (m_lock s \<or> crit_pc (PutLock x)) (container s) s"
    have "lock_inv brep M0 l0 ns M C ?s (es @ map (Pair t) [DCall (CPut x)])"
      by (rule lock_inv_goes [OF inv _ refl]) (use True in \<open>simp_all add: in_crit_def\<close>)
    moreover have "dist_next ops al junk e c s = Inr (?s, map (Pair t) [DCall (CPut x)])"
      using True by (simp add: Begin x moved_def)
    ultimately show ?thesis by blast
  next
    case False
    then show ?thesis using inv by (auto simp: Begin)
  qed
next
  case (Go t rnd)
  have ok: "put_point_ok ns M C s t" by (rule lock_invD(3) [OF inv])
  show ?thesis
  proof (cases "point s t")
    case Outside
    then have "dist_next ops al junk e c s = Inr (s, [])"
      unfolding Go dist_next_Go using moved_here [of t s] by simp
    then show ?thesis using inv by auto
  next
    case (InPut p)
    show ?thesis
    proof (cases "crit_pc p")
      case True
      from lock_step_crit [OF inv InPut True al] show ?thesis unfolding Go by blast
    next
      case False
      then consider x where "p = PutLock x" | x where "p = PutQueue x" by (cases p) auto
      then show ?thesis
      proof cases
        case 1
        then show ?thesis using lock_step_enter [OF inv, of t x] InPut unfolding Go by fastforce
      next
        case 2
        then show ?thesis using lock_step_put [OF inv, of t x] InPut unfolding Go by blast
      qed
    qed
  qed (use ok in \<open>simp_all add: put_point_ok_def\<close>)
qed

lemma lock_inv_exec:
  assumes "lock_inv brep M0 l0 ns M C s es" "\<forall>c \<in> set cs. puts_only c"
    and al: "alloc_ok (da_node al)" "alloc_ok (da_backend al)"
  shows "dist_exec ops al junk e cs s = Inl BadAlloc \<or>
    (\<exists>s' es' ns' M' C'. dist_exec ops al junk e cs s = Inr (s', es') \<and>
       lock_inv brep M0 l0 ns' M' C' s' (es @ es'))"
  using assms(1,2)
proof (induction cs arbitrary: ns M C s es)
  case Nil
  then show ?case by auto
next
  case (Cons c cs)
  have c: "puts_only c" and cs: "\<forall>c \<in> set cs. puts_only c" using Cons.prems(2) by auto
  from lock_inv_next [OF Cons.prems(1) c al, of junk e] show ?case
  proof (elim disjE exE conjE)
    fix s1 es1 ns1 M1 C1
    assume h: "dist_next ops al junk e c s = Inr (s1, es1)" "lock_inv brep M0 l0 ns1 M1 C1 s1 (es @ es1)"
    from Cons.IH [OF h(2) cs] show ?case using h(1) by fastforce
  qed simp
qed

end

section \<open>Properties\<close>

text \<open>
  From \<open>s\<close>, whose backends hold \<open>M\<close>, threads have come to \<open>s'\<close> with the events \<open>es\<close>.
\<close>

definition puts_safe ::
  "('b \<Rightarrow> 'e list \<Rightarrow> bool) \<Rightarrow> (addr \<rightharpoonup> bool \<times> 'e list) \<Rightarrow> ('t, 'b, 'e) dist_threads \<Rightarrow>
    ('t, 'b, 'e) dist_threads \<Rightarrow> ('t \<times> 'e dist_event) list \<Rightarrow> bool" where
  "puts_safe brep M s s' es \<longleftrightarrow>
     (\<forall>t u. in_crit s' t \<and> in_crit s' u \<longrightarrow> t = u) \<and>
     (\<forall>t. put_events (events_of t es) Resting = Some (status_of (point s' t))) \<and>
     (\<forall>t n x. (t, DEnq n x) \<in> set es \<longrightarrow> n = local_backend s' t \<and> n \<noteq> nullptr) \<and>
     (\<forall>t. local_backend s t \<noteq> nullptr \<longrightarrow> local_backend s' t = local_backend s t) \<and>
     (\<forall>t u. local_backend s t = nullptr \<and> local_backend s' t \<noteq> nullptr \<and>
        local_backend s' u = local_backend s' t \<longrightarrow> u = t) \<and>
     (\<exists>ns' M'. nothing_lost M es M' \<and> (\<not> m_lock s' \<longrightarrow> dist_rep brep (container s') ns' M') \<and>
        (\<forall>t. local_backend s' t \<noteq> nullptr \<longrightarrow> (\<exists>xs. M' (local_backend s' t) = Some (True, xs))))"

lemma lock_inv_start:
  assumes "dist_rep brep (container s) ns M" "\<not> m_lock s" "\<forall>t. point s t = Outside"
    and "\<forall>t. local_backend s t = nullptr \<or> (\<exists>xs. M (local_backend s t) = Some (True, xs))"
  shows "lock_inv brep M (local_backend s) ns M (container s) s []"
  using assms
  by (auto simp: lock_inv_def nothing_lost_def put_point_ok_def in_crit_def own_inv_def owns_def trace_inv_def
      events_of_def puts_into_def)

lemma lock_inv_safe:
  assumes inv: "lock_inv brep M (local_backend s) ns' M' C s' es"
  shows "puts_safe brep M s s' es"
  unfolding puts_safe_def
proof (intro conjI allI impI)
  note I = lock_invD [OF inv] and own = own_invD [OF lock_invD(7) [OF inv]]
  show "t = u" if "in_crit s' t \<and> in_crit s' u" for t u using I(4) that by blast
  show "put_events (events_of t es) Resting = Some (status_of (point s' t))" for t
    using I(8) by (simp add: trace_inv_def)
  show "n = local_backend s' t" "n \<noteq> nullptr" if "(t, DEnq n x) \<in> set es" for t n x
    using I(8) that by (auto simp: trace_inv_def)
  show "local_backend s' t = local_backend s t" if "local_backend s t \<noteq> nullptr" for t
    by (rule own(2) [OF that])
  show "u = t" if "local_backend s t = nullptr \<and> local_backend s' t \<noteq> nullptr \<and>
      local_backend s' u = local_backend s' t" for t u
    using own(3) [of t "local_backend s' t" u] that by (simp add: owns_def)
  show "\<exists>ns' M'. nothing_lost M es M' \<and> (\<not> m_lock s' \<longrightarrow> dist_rep brep (container s') ns' M') \<and>
      (\<forall>t. local_backend s' t \<noteq> nullptr \<longrightarrow> (\<exists>xs. M' (local_backend s' t) = Some (True, xs)))"
    using I(1,2,6) own(1) by (intro exI [of _ ns'] exI [of _ M']) (auto simp: owns_def)
qed

text \<open>
  C10: With \<open>MSQueue\<close> as the backend and under any spurious failures, let any threads call \<open>put\<close> in
  any interleaving, threads without a backend among them, in a segment that may be full and hold
  dead backends. Then the run ends early only when the allocator throws: no deleted node is used
  and no index leaves the segment. At most one thread is inside the critical section; a thread
  without a backend gets one of its own, and keeps it; every element goes into the backend of the
  thread that puts it, once, before its call returns true, and not at all if it returns false;
  each backend holds what it held at first and then these elements, in order; and whenever the
  lock is free, the segment, its length and its nodes agree with one another.
\<close>

theorem dist_put_locked:
  fixes alloc :: "'a node alloc" and s :: "('t, 'a msq, 'a) dist_threads"
  assumes "alloc_ok alloc" "alloc_ok (da_node da)" "alloc_ok (da_backend da)"
    and "dist_rep ms_rep (container s) ns M" "\<not> m_lock s" "\<forall>t. point s t = Outside"
    and "\<forall>t. local_backend s t = nullptr \<or> (\<exists>xs. M (local_backend s t) = Some (True, xs))"
    and "\<forall>c \<in> set cs. puts_only c"
  shows "case dist_exec (ms_ops sp alloc dflt) da junk e cs s of
      Inl err \<Rightarrow> err = BadAlloc
    | Inr (s', es) \<Rightarrow> puts_safe ms_rep M s s' es"
  using ms.lock_inv_exec [where alloc = alloc, unfolded checked_alloc_id [OF assms(1)],
      OF lock_inv_start [OF assms(4-7)] assms(8,2,3), of sp dflt junk e]
  by (elim disjE exE conjE) (auto dest: lock_inv_safe)

theorem dist_put_locked_witness:
  "\<exists>d. dist_new 0 4 = Inr d \<and>
    (case dist_exec (ms_ops [True] (pool_alloc [1, 2, 3, 4]) 0) demo_da 9 0
        ([Begin 1 (CPut 5), Begin 2 (CPut 6), Go 1 0, Go 2 0, Go 1 0] @ replicate 20 (Go (2 :: nat) 0) @
         replicate 9 (Go 1 0) @ replicate 9 (Go 2 0)) (dist_start d) of
       Inl err \<Rightarrow> err = BadAlloc
     | Inr (s', es) \<Rightarrow> puts_safe ms_rep Map.empty (dist_start d) s' es)"
proof -
  have h: "alloc_ok (da_node demo_da)" "alloc_ok (da_backend demo_da)" "unat (4 :: u64) < 2 ^ 60"
    by (simp_all add: demo_da_def alloc_ok_four)
  obtain d :: "nat msq dist" where d: "dist_new 0 4 = Inr d" "dist_rep ms_rep d [] Map.empty"
    using dist_new_sim [OF refl h(3), of ms_rep] by blast
  have rep: "dist_rep ms_rep (container (dist_start d)) [] Map.empty" using d(2) by (simp add: dist_start_def)
  have "case dist_exec (ms_ops [True] (pool_alloc [1, 2, 3, 4]) 0) demo_da 9 0
        ([Begin 1 (CPut 5), Begin 2 (CPut 6), Go 1 0, Go 2 0, Go 1 0] @ replicate 20 (Go (2 :: nat) 0) @
         replicate 9 (Go 1 0) @ replicate 9 (Go 2 0)) (dist_start d) of
       Inl err \<Rightarrow> err = BadAlloc
     | Inr (s', es) \<Rightarrow> puts_safe ms_rep Map.empty (dist_start d) s' es"
    by (rule dist_put_locked [OF alloc_ok_four h(1,2) rep]) (auto simp: dist_start_def puts_only_def)
  then show ?thesis using d(1) by blast
qed

end
