(* ===== verification/Static_Distributed.thy ===== *)
theory Static_Distributed
  imports Prelude
begin

text \<open>
  \<^verbatim>\<open>include/ni/cds/distributed/static.hh\<close>: the class \<open>DistributedInterface\<close>, which owns a balancer and
  whose \<open>put\<close> and \<open>get\<close> have empty bodies.
\<close>

text \<open>\<open>m_balancer\<close> is a \<open>unique_ptr\<close>; the constructor moves it and leaves null in its argument.\<close>

record distributed_interface =
  m_balancer :: addr

definition di_new :: "addr \<Rightarrow> distributed_interface \<times> addr" where
  "di_new balancer = (\<lparr>m_balancer = balancer\<rparr>, nullptr)"

definition di_put :: "'e \<Rightarrow> distributed_interface \<Rightarrow> distributed_interface" where
  "di_put element d = d"

text \<open>\<open>element\<close> is what \<open>*element\<close> holds.\<close>

definition di_get :: "'e \<Rightarrow> distributed_interface \<Rightarrow> 'e \<times> distributed_interface" where
  "di_get element d = (element, d)"

text \<open>Whatever is put, \<open>get\<close> leaves its argument as it was: no element is ever delivered.\<close>

lemma di_get_after_puts: "di_get y (fold di_put xs (fst (di_new b))) = (y, fst (di_new b))"
proof -
  have "fold di_put xs d = d" for d by (induction xs) (simp_all add: di_put_def)
  then show ?thesis by (simp add: di_get_def)
qed

end
