(* ===== verification/Jump_Hash.thy ===== *)
theory Jump_Hash
  imports Prelude
begin

text \<open>
  \<^verbatim>\<open>src/hash/jump_consistent_hash.cc\<close>: the jump consistent hash of Lamping and Veach. The
  two operations on doubles of each iteration are modelled with their rounding (53 bits, to
  nearest, ties to even): every value that occurs is at least 1 and so a whole multiple of
  \<open>2 ^ -52\<close>, and is represented by that multiple, a natural number.
\<close>

section \<open>Doubles from 1 on\<close>

fun ilog2 :: "nat \<Rightarrow> nat" where
  "ilog2 n = (if n < 2 then 0 else Suc (ilog2 (n div 2)))"

declare ilog2.simps [simp del]

definition round_half_even :: "nat \<Rightarrow> nat \<Rightarrow> nat" where
  "round_half_even n d =
     (let q = n div d; r = n mod d in if 2 * r < d \<or> (2 * r = d \<and> even q) then q else q + 1)"

text \<open>
  The double nearest to the rational \<open>n / d \<ge> 1\<close>, in units of \<open>2 ^ -52\<close>: with exponent \<open>e\<close>,
  its 53 significant bits are multiples of \<open>2 ^ (e - 52)\<close>, that is of \<open>2 ^ e\<close> units.
\<close>

definition dbl_of_ratio :: "nat \<Rightarrow> nat \<Rightarrow> nat" where
  "dbl_of_ratio n d =
     (let e = ilog2 (n div d) in round_half_even (n * 2 ^ 52) (d * 2 ^ e) * 2 ^ e)"

definition dbl_mult_int :: "nat \<Rightarrow> nat \<Rightarrow> nat" where
  "dbl_mult_int i x = dbl_of_ratio (i * x) (2 ^ 52)"

definition dbl_to_int :: "nat \<Rightarrow> nat" where
  "dbl_to_int x = x div 2 ^ 52"

lemma ilog2_bounds: "0 < n \<Longrightarrow> 2 ^ ilog2 n \<le> n \<and> n < 2 ^ Suc (ilog2 n)"
proof (induction n rule: ilog2.induct)
  case (1 n)
  show ?case
  proof (cases "n < 2")
    case True
    with 1 show ?thesis by (simp add: ilog2.simps [of n])
  next
    case False
    then have "2 ^ ilog2 (n div 2) \<le> n div 2 \<and> n div 2 < 2 ^ Suc (ilog2 (n div 2))"
      using 1 by simp
    then show ?thesis using False by (simp add: ilog2.simps [of n]) linarith
  qed
qed

lemma round_half_even_bounds: "n div d \<le> round_half_even n d" "round_half_even n d \<le> Suc (n div d)"
  by (simp_all add: round_half_even_def Let_def)

lemma round_half_even_le: "0 < d \<Longrightarrow> n \<le> m * d \<Longrightarrow> round_half_even n d \<le> m"
proof -
  assume d: "0 < d" and n: "n \<le> m * d"
  show ?thesis
  proof (cases "n = m * d")
    case True
    with d show ?thesis by (simp add: round_half_even_def Let_def)
  next
    case False
    with n have "n < m * d" by simp
    then have "n div d < m" using d by (simp add: div_less_iff_less_mult)
    then show ?thesis using round_half_even_bounds(2) [of n d] by linarith
  qed
qed

text \<open>Rounding respects a bound that is itself a double.\<close>

lemma dbl_of_ratio_ge:
  assumes d: "0 < d" and k: "0 < k" "k * d \<le> n" "k < 2 ^ 53"
  shows "k * 2 ^ 52 \<le> dbl_of_ratio n d"
proof -
  let ?e = "ilog2 (n div d)"
  let ?r = "round_half_even (n * 2 ^ 52) (d * 2 ^ ?e)"
  have kq: "k \<le> n div d" using d k(2) by (simp add: less_eq_div_iff_mult_less_eq)
  have e: "2 ^ ?e \<le> n div d" "n div d < 2 ^ Suc ?e" using ilog2_bounds [of "n div d"] kq k(1) by simp_all
  have fl: "n * 2 ^ 52 div (d * 2 ^ ?e) \<le> ?r" by (rule round_half_even_bounds)
  show ?thesis
  proof (cases "?e \<le> 52")
    case True
    then have split: "(2 :: nat) ^ 52 = 2 ^ (52 - ?e) * 2 ^ ?e" by (simp flip: power_add)
    have "k * 2 ^ (52 - ?e) * (d * 2 ^ ?e) = k * d * (2 ^ (52 - ?e) * 2 ^ ?e)" by (simp only: ac_simps)
    also have "\<dots> = k * d * 2 ^ 52" by (simp only: split)
    also have "\<dots> \<le> n * 2 ^ 52" using k(2) by simp
    finally have "k * 2 ^ (52 - ?e) \<le> n * 2 ^ 52 div (d * 2 ^ ?e)"
      using d by (simp add: less_eq_div_iff_mult_less_eq)
    then have "k * 2 ^ (52 - ?e) \<le> ?r" using fl by (rule order_trans)
    then have "k * 2 ^ (52 - ?e) * 2 ^ ?e \<le> ?r * 2 ^ ?e" by (rule mult_le_mono1)
    then show ?thesis by (simp only: dbl_of_ratio_def Let_def split mult.assoc)
  next
    case False
    have "2 ^ ?e * d \<le> n" using e(1) d by (simp add: less_eq_div_iff_mult_less_eq)
    then have "2 ^ 52 * (d * 2 ^ ?e) \<le> n * 2 ^ 52" by (simp add: algebra_simps)
    then have "2 ^ 52 \<le> n * 2 ^ 52 div (d * 2 ^ ?e)" using d by (simp add: less_eq_div_iff_mult_less_eq)
    then have r: "2 ^ 52 \<le> ?r" using fl by (rule order_trans)
    have "k \<le> 2 ^ ?e"
      using k(3) False power_increasing [of 53 ?e "2 :: nat"] by linarith
    then have "k * 2 ^ 52 \<le> ?r * 2 ^ ?e" using r mult_le_mono by (metis mult.commute)
    then show ?thesis by (simp add: dbl_of_ratio_def Let_def)
  qed
qed

lemma dbl_of_ratio_le_pow2:
  assumes d: "0 < d" "d \<le> n" and n: "n \<le> 2 ^ m * d"
  shows "dbl_of_ratio n d \<le> 2 ^ m * 2 ^ 52"
proof -
  let ?e = "ilog2 (n div d)"
  have "0 < n div d" using d by (simp add: div_greater_zero_iff)
  then have e: "2 ^ ?e \<le> n div d" "n div d < 2 ^ Suc ?e" using ilog2_bounds by blast+
  have "n div d \<le> 2 ^ m" using n d(1) by (metis div_le_mono nonzero_mult_div_cancel_right not_gr_zero)
  then have em: "?e \<le> m" using e(1) by (metis order_trans power_le_imp_le_exp one_less_numeral_iff semiring_norm(76))
  show ?thesis
  proof (cases "?e = m")
    case True
    have "n * 2 ^ 52 \<le> 2 ^ 52 * (d * 2 ^ ?e)" using n True by (simp add: algebra_simps)
    then have "round_half_even (n * 2 ^ 52) (d * 2 ^ ?e) \<le> 2 ^ 52"
      using d(1) by (intro round_half_even_le) simp_all
    then show ?thesis using True by (simp add: dbl_of_ratio_def Let_def)
  next
    case False
    have "n < 2 ^ Suc ?e * d" using e(2) d(1) by (simp only: div_less_iff_less_mult)
    then have "n \<le> 2 ^ Suc ?e * d" by (rule less_imp_le)
    then have "n * 2 ^ 52 \<le> 2 ^ Suc ?e * d * 2 ^ 52" by (rule mult_le_mono1)
    then have "n * 2 ^ 52 \<le> 2 ^ 53 * (d * 2 ^ ?e)" by simp
    then have "round_half_even (n * 2 ^ 52) (d * 2 ^ ?e) \<le> 2 ^ 53"
      using d(1) by (intro round_half_even_le) simp_all
    then have "dbl_of_ratio n d \<le> 2 ^ 53 * 2 ^ ?e"
      by (simp add: dbl_of_ratio_def Let_def)
    also have "\<dots> = 2 ^ Suc ?e * 2 ^ 52" by simp
    also have "\<dots> \<le> 2 ^ m * 2 ^ 52" using False em by (intro mult_le_mono1 power_increasing) simp_all
    finally show ?thesis .
  qed
qed

section \<open>The hash\<close>

definition jump_next :: "u64 \<Rightarrow> nat \<Rightarrow> nat" where
  "jump_next key b =
     dbl_to_int (dbl_mult_int (b + 1) (dbl_of_ratio (2 ^ 31) (unat (drop_bit 33 key) + 1)))"

text \<open>The quotient is between 1 and \<open>2 ^ 31\<close>, so the next bucket lies beyond \<open>b\<close>.\<close>

lemma jump_divisor: "unat (drop_bit 33 (key :: u64)) + 1 \<le> 2 ^ 31"
proof -
  have "unat (drop_bit 33 key) = drop_bit 33 (unat key)"
    by (rule unat_drop_bit_eq)
  also have "\<dots> = unat key div 2 ^ 33" by (rule drop_bit_eq_div)
  also have "\<dots> < 2 ^ 31"
    using unat_bound [of key] by (simp add: div_less_iff_less_mult)
  finally show ?thesis by simp
qed

lemma jump_next_bounds:
  assumes "b < 2 ^ 31"
  shows "b < jump_next key b" "jump_next key b \<le> 2 ^ 62"
proof -
  let ?d = "unat (drop_bit 33 key) + 1"
  let ?q = "dbl_of_ratio (2 ^ 31) ?d"
  have d: "0 < ?d" "?d \<le> 2 ^ 31" using jump_divisor by simp_all
  have "1 * 2 ^ 52 \<le> ?q" using d by (intro dbl_of_ratio_ge) simp_all
  then have q: "2 ^ 52 \<le> ?q" by simp
  have "?q \<le> 2 ^ 31 * 2 ^ 52" using d by (intro dbl_of_ratio_le_pow2) simp_all
  then have "(b + 1) * ?q \<le> 2 ^ 31 * (2 ^ 31 * 2 ^ 52)" using assms by (intro mult_le_mono) simp_all
  then have upper: "(b + 1) * ?q \<le> 2 ^ 62 * 2 ^ 52" by simp
  have lower: "(b + 1) * 2 ^ 52 \<le> (b + 1) * ?q" using q by (intro mult_le_mono2)
  have "(b + 1) * 2 ^ 52 \<le> dbl_mult_int (b + 1) ?q"
    unfolding dbl_mult_int_def using assms lower by (intro dbl_of_ratio_ge) simp_all
  then show "b < jump_next key b"
    by (simp add: jump_next_def dbl_to_int_def less_eq_div_iff_mult_less_eq Suc_le_eq [symmetric])
  have "2 ^ 52 \<le> (b + 1) * ?q" using lower by (rule order_trans [rotated]) simp
  then have "dbl_mult_int (b + 1) ?q \<le> 2 ^ 62 * 2 ^ 52"
    unfolding dbl_mult_int_def using upper by (intro dbl_of_ratio_le_pow2) simp_all
  then have "dbl_to_int (dbl_mult_int (b + 1) ?q) \<le> (2 ^ 62 * 2 ^ 52) div 2 ^ 52"
    unfolding dbl_to_int_def by (rule div_le_mono)
  then show "jump_next key b \<le> 2 ^ 62" by (simp add: jump_next_def)
qed

lemma sint_u32_bound: "sint (n :: u32) < 2 ^ 31"
  using sint_less [of n] by simp

text \<open>
  The loop of the hash. \<open>num_buckets\<close> is a signed 32-bit integer; \<open>b\<close> and \<open>j\<close> are 64 bits
  wide and never overflow, as \<open>jump_next_bounds\<close> shows for every \<open>b\<close> a 32-bit number of
  buckets allows.
\<close>

function jump_loop :: "u64 \<Rightarrow> nat \<Rightarrow> nat \<Rightarrow> u32 \<Rightarrow> nat" where
  "jump_loop key b j num_buckets =
     (if int j < sint num_buckets then
        let key' = key * 2862933555777941757 + 1 in jump_loop key' j (jump_next key' j) num_buckets
      else b)"
  by pat_completeness auto

termination
proof (relation "measure (\<lambda>(key, b, j, num_buckets). nat (sint num_buckets - int j))")
  fix key b j and num_buckets :: u32 and key'
  assume "int j < sint num_buckets"
  moreover have "int j < int (2 ^ 31)" using calculation sint_u32_bound [of num_buckets] by simp
  then have "j < 2 ^ 31" by (simp only: of_nat_less_iff)
  ultimately show "((key', j, jump_next key' j, num_buckets), key, b, j, num_buckets)
      \<in> measure (\<lambda>(key, b, j, num_buckets). nat (sint num_buckets - int j))"
    using jump_next_bounds(1) [of j key'] by simp
qed simp

declare jump_loop.simps [simp del]

definition jump_consistent_hash :: "u64 \<Rightarrow> u32 \<Rightarrow> u32" where
  "jump_consistent_hash key num_buckets = word_of_nat (jump_loop key 1 0 num_buckets)"

lemma jump_loop_range:
  "int j < sint num_buckets \<Longrightarrow> int (jump_loop key b j num_buckets) < sint num_buckets"
proof (induction key b j num_buckets rule: jump_loop.induct)
  case (1 key b j num_buckets)
  let ?key = "key * 2862933555777941757 + 1"
  have step: "jump_loop key b j num_buckets = jump_loop ?key j (jump_next ?key j) num_buckets"
    using 1(2) by (simp add: jump_loop.simps [of key b j] Let_def)
  show ?case
  proof (cases "int (jump_next ?key j) < sint num_buckets")
    case True
    then show ?thesis using 1(1) [OF 1(2) refl] step by simp
  next
    case False
    then have "jump_loop ?key j (jump_next ?key j) num_buckets = j"
      by (simp add: jump_loop.simps [of ?key])
    then show ?thesis using step 1(2) by simp
  qed
qed

lemma sint_plus_one:
  assumes "sint (n :: u32) < 2 ^ 31 - 1"
  shows "sint (n + 1) = sint n + 1"
proof -
  have "- (2 ^ 31) \<le> sint n" using sint_ge [of n] by simp
  then show ?thesis using assms by (simp add: sint_word_ariths signed_take_bit_int_eq_self)
qed

lemma jump_loop_consistent:
  assumes "sint num_buckets < 2 ^ 31 - 1" "int j < sint num_buckets"
  shows "jump_loop key b j (num_buckets + 1) = jump_loop key b j num_buckets \<or>
    int (jump_loop key b j (num_buckets + 1)) = sint num_buckets"
  using assms
proof (induction key b j num_buckets rule: jump_loop.induct)
  case (1 key b j num_buckets)
  let ?key = "key * 2862933555777941757 + 1"
  let ?j = "jump_next ?key j"
  note plus = sint_plus_one [OF 1(2)]
  have step: "jump_loop key b j num_buckets = jump_loop ?key j ?j num_buckets"
    "jump_loop key b j (num_buckets + 1) = jump_loop ?key j ?j (num_buckets + 1)"
    using 1(3) plus by (simp_all add: jump_loop.simps [of key b j] Let_def)
  consider "int ?j < sint num_buckets" | "int ?j = sint num_buckets" | "sint num_buckets + 1 \<le> int ?j"
    by linarith
  then show ?case
  proof cases
    case 1
    then show ?thesis using "1.IH" [OF "1.prems"(2) refl "1.prems"(1)] step by simp
  next
    case 2
    define key' key2 where "key' = ?key" and "key2 = key' * 2862933555777941757 + 1"
    have "int ?j < int (2 ^ 31)" using 2 sint_u32_bound [of num_buckets] by simp
    then have "?j < jump_next key2 ?j" by (intro jump_next_bounds) (simp only: of_nat_less_iff)
    then have "\<not> int (jump_next key2 ?j) < sint (num_buckets + 1)" using 2 plus by linarith
    then have "jump_loop key2 ?j (jump_next key2 ?j) (num_buckets + 1) = ?j"
      by (subst jump_loop.simps) simp
    moreover have "jump_loop key' b' ?j (num_buckets + 1) =
        jump_loop key2 ?j (jump_next key2 ?j) (num_buckets + 1)" for b'
      using 2 plus unfolding key2_def by (subst jump_loop.simps) (simp add: Let_def)
    ultimately show ?thesis using step 2 by (simp add: key'_def)
  next
    case 3
    then show ?thesis using step plus by (simp add: jump_loop.simps [of ?key j ?j])
  qed
qed

section \<open>Properties\<close>

text \<open>
  With a positive number of buckets the hash is a bucket number. Without buckets it is 1.
\<close>

lemma jump_hash_range:
  "(if 0 < sint num_buckets
    then 0 \<le> sint (jump_consistent_hash key num_buckets) \<and>
      sint (jump_consistent_hash key num_buckets) < sint num_buckets
    else jump_consistent_hash key num_buckets = 1)"
proof (cases "0 < sint num_buckets")
  case True
  let ?r = "jump_loop key 1 0 num_buckets"
  have r: "int ?r < sint num_buckets" using jump_loop_range True by simp
  then have "int ?r < 2 ^ 31" using sint_u32_bound [of num_buckets] by linarith
  then have "sint (word_of_nat ?r :: u32) = int ?r"
    by (simp add: signed_of_nat signed_take_bit_int_eq_self)
  then show ?thesis using True r by (simp add: jump_consistent_hash_def)
qed (simp add: jump_consistent_hash_def jump_loop.simps)

text \<open>
  C18: Consistency: when a bucket is added, every key keeps its bucket or moves to the new one.
\<close>

theorem jump_hash_consistent:
  assumes "0 < sint num_buckets" "sint num_buckets < 2 ^ 31 - 1"
  shows "jump_consistent_hash key (num_buckets + 1) \<in>
    {jump_consistent_hash key num_buckets, num_buckets}"
proof -
  let ?r = "jump_loop key 1 0 (num_buckets + 1)"
  consider "?r = jump_loop key 1 0 num_buckets" | "int ?r = sint num_buckets"
    using jump_loop_consistent [OF assms(2), of 0 key 1] assms(1) by auto
  then show ?thesis
  proof cases
    case 2
    then have "(word_of_int (int ?r) :: u32) = word_of_int (sint num_buckets)" by simp
    then show ?thesis by (simp add: jump_consistent_hash_def)
  qed (simp add: jump_consistent_hash_def)
qed

theorem jump_hash_consistent_witness:
  "jump_consistent_hash 256 6 \<in> {jump_consistent_hash 256 5, 5}"
  using jump_hash_consistent [of 5 256] by simp

end
