(* ===== verification/Multi_Linear_Hash.thy ===== *)
theory Multi_Linear_Hash
  imports Prelude
begin

text \<open>
  \<^verbatim>\<open>include/ni/hash/multi_linear_hash.hh\<close>: the string hash \<open>MultiLinearDoubleHash\<close>. The
  generator \<open>Rng\<close> and the distribution drawn from it are not part of the repository: their
  states and the drawing of a number are parameters. The bytes behind a pointer are a list; a
  read past their end, or past the end of the table of random numbers, is the error \<open>BadIndex\<close>.
\<close>

section \<open>Construction\<close>

text \<open>\<open>fill_random_data\<close> overwrites every entry of the table, in order.\<close>

fun fill_random_data :: "('r \<Rightarrow> u64 \<times> 'r) \<Rightarrow> 'r \<Rightarrow> u64 list \<Rightarrow> u64 list" where
  "fill_random_data uniform_dist rng [] = []"
| "fill_random_data uniform_dist rng (r # rand) =
     (let (x, rng) = uniform_dist rng in x # fill_random_data uniform_dist rng rand)"

definition mlh_new :: "nat \<Rightarrow> ('r \<Rightarrow> u64 \<times> 'r) \<Rightarrow> 'r \<Rightarrow> u64 list" where
  "mlh_new l uniform_dist seed_source = fill_random_data uniform_dist seed_source (replicate (l + 2) 0)"

definition mlh_new_seed :: "nat \<Rightarrow> ('r \<Rightarrow> u64 \<times> 'r) \<Rightarrow> (u64 \<Rightarrow> 'r) \<Rightarrow> u64 \<Rightarrow> u64 list" where
  "mlh_new_seed l uniform_dist rng seed =
     fill_random_data uniform_dist (rng seed) (replicate (l + 2) 0)"

section \<open>The hash of a byte string\<close>

definition mem_at :: "'a list \<Rightarrow> nat \<Rightarrow> 'a result" where
  "mem_at xs i = (if i < length xs then Inr (xs ! i) else Inl (BadIndex (word_of_nat i)))"

text \<open>One factor \<open>*random++ * *bytes++\<close> of the sums, with the two positions it reads.\<close>

definition mlh_term :: "u64 list \<Rightarrow> u8 list \<Rightarrow> nat \<Rightarrow> nat \<Rightarrow> u64 result" where
  "mlh_term rand bytes r i =
     bindE (mem_at rand r) (\<lambda>x. bindE (mem_at bytes i) (\<lambda>b. Inr (x * ucast b)))"

lemma mlh_term_Inr [simp]:
  "r < length rand \<Longrightarrow> i < length bytes \<Longrightarrow> mlh_term rand bytes r i = Inr (rand ! r * ucast (bytes ! i))"
  by (simp add: mlh_term_def mem_at_def)

lemma mlh_term_InrD: "mlh_term rand bytes r i = Inr x \<Longrightarrow> i < length bytes"
  by (auto simp: mlh_term_def mem_at_def bindE_Inr_iff split: if_splits)

text \<open>
  The loops run until the byte pointer equals the end pointer, one byte at a time for an odd
  length and two for an even one. A pointer that missed the end would leave the bytes.
\<close>

function mlh_odd :: "u64 list \<Rightarrow> u8 list \<Rightarrow> nat \<Rightarrow> nat \<Rightarrow> nat \<Rightarrow> u64 \<Rightarrow> (nat \<times> u64) result" where
  "mlh_odd rand bytes stop r i s1 =
     (if i \<noteq> stop then
        bindE (mlh_term rand bytes r i) (\<lambda>x. mlh_odd rand bytes stop (r + 1) (i + 1) (s1 + x))
      else Inr (r, s1))"
  by pat_completeness auto
termination
  by (relation "measure (\<lambda>(rand, bytes, stop, r, i, s1). length bytes - i)") (auto dest: mlh_term_InrD)

function mlh_even ::
  "u64 list \<Rightarrow> u8 list \<Rightarrow> nat \<Rightarrow> nat \<Rightarrow> nat \<Rightarrow> u64 \<Rightarrow> u64 \<Rightarrow> (nat \<times> u64 \<times> u64) result" where
  "mlh_even rand bytes stop r i s1 s2 =
     (if i \<noteq> stop then
        bindE (mlh_term rand bytes r i) (\<lambda>x.
        bindE (mlh_term rand bytes (r + 1) (i + 1)) (\<lambda>y.
        mlh_even rand bytes stop (r + 2) (i + 2) (s1 + x) (s2 + y)))
      else Inr (r, s1, s2))"
  by pat_completeness auto
termination
  by (relation "measure (\<lambda>(rand, bytes, stop, r, i, s1, s2). length bytes - i)")
    (auto dest!: mlh_term_InrD)

declare mlh_odd.simps [simp del] mlh_even.simps [simp del]

text \<open>
  \<open>operator()\<close> on a pointer, \<open>None\<close> being the null pointer, and a length. \<open>l\<close> is the
  template parameter, \<open>MAX_LEN\<close>.
\<close>

definition mlh_hash :: "nat \<Rightarrow> u64 list \<Rightarrow> u8 list option \<Rightarrow> u64 \<Rightarrow> u32 result" where
  "mlh_hash l rand input len =
     bindE (assertE (input \<noteq> None)) (\<lambda>_.
     bindE (assertE (unat len \<le> l)) (\<lambda>_.
     bindE (mem_at rand 0) (\<lambda>s1.
     bindE
       (if len AND 1 \<noteq> 0 then
          bindE (mlh_odd rand (the input) (unat len) 1 0 s1) (\<lambda>(r, s1).
          bindE (mem_at rand r) (\<lambda>x. Inr (s1 + x)))
        else
          bindE (mlh_even rand (the input) (unat len) 1 0 s1 0) (\<lambda>(r, s1, s2).
          bindE (mem_at rand r) (\<lambda>x. Inr (s1 + (x + s2)))))
       (\<lambda>s1. Inr (ucast (drop_bit 32 s1))))))"

record string_view =
  sv_data :: "u8 list option"
  sv_size :: u64

definition mlh_hash_view :: "nat \<Rightarrow> u64 list \<Rightarrow> string_view \<Rightarrow> u32 result" where
  "mlh_hash_view l rand str = mlh_hash l rand (sv_data str) (sv_size str)"

section \<open>The hash as a linear function of the bytes\<close>

text \<open>
  The specification of the hash: the first random number, plus each byte times its own random
  number, plus the random number behind them (the string is closed with a character 1), all
  modulo \<open>2 ^ 64\<close>.
\<close>

definition mlh_sum :: "u64 list \<Rightarrow> u8 list \<Rightarrow> u64" where
  "mlh_sum rand bytes =
     rand ! 0 + (\<Sum>i<length bytes. rand ! (i + 1) * ucast (bytes ! i)) + rand ! (length bytes + 1)"

definition high32 :: "u64 \<Rightarrow> u32" where
  "high32 x = ucast (drop_bit 32 x)"

lemma mlh_odd_sum:
  assumes "stop = i + n" "stop \<le> length bytes" "r + n \<le> length rand"
  shows "mlh_odd rand bytes stop r i s1 =
    Inr (r + n, s1 + (\<Sum>k<n. rand ! (r + k) * ucast (bytes ! (i + k))))"
  using assms
proof (induction n arbitrary: r i s1)
  case 0
  then show ?case by (simp add: mlh_odd.simps)
next
  case (Suc n)
  let ?x = "rand ! r * ucast (bytes ! i)"
  have "mlh_odd rand bytes stop (r + 1) (i + 1) (s1 + ?x) =
      Inr (r + 1 + n, s1 + ?x + (\<Sum>k<n. rand ! (r + 1 + k) * ucast (bytes ! (i + 1 + k))))"
    by (rule Suc.IH) (use Suc.prems in simp_all)
  then show ?case
    using Suc.prems
    by (simp add: mlh_odd.simps [of _ _ _ _ i] sum.lessThan_Suc_shift add_ac del: sum.lessThan_Suc)
qed

lemma mlh_even_sum:
  assumes "stop = i + 2 * n" "stop \<le> length bytes" "r + 2 * n \<le> length rand"
  shows "\<exists>t1 t2. mlh_even rand bytes stop r i s1 s2 = Inr (r + 2 * n, t1, t2) \<and>
    t1 + t2 = s1 + s2 + (\<Sum>k<(2 * n). rand ! (r + k) * ucast (bytes ! (i + k)))"
  using assms
proof (induction n arbitrary: r i s1 s2)
  case 0
  then show ?case by (simp add: mlh_even.simps)
next
  case (Suc n)
  let ?x = "rand ! r * ucast (bytes ! i)" and ?y = "rand ! (r + 1) * ucast (bytes ! (i + 1))"
  have "\<exists>t1 t2. mlh_even rand bytes stop (r + 2) (i + 2) (s1 + ?x) (s2 + ?y) = Inr (r + 2 + 2 * n, t1, t2) \<and>
    t1 + t2 = s1 + ?x + (s2 + ?y) + (\<Sum>k<(2 * n). rand ! (r + 2 + k) * ucast (bytes ! (i + 2 + k)))"
    by (rule Suc.IH) (use Suc.prems in simp_all)
  moreover have "mlh_even rand bytes stop r i s1 s2 =
      mlh_even rand bytes stop (r + 2) (i + 2) (s1 + ?x) (s2 + ?y)"
    using Suc.prems by (simp add: mlh_even.simps [of _ _ _ _ i])
  ultimately show ?case
    by (simp add: sum.lessThan_Suc_shift add_ac del: sum.lessThan_Suc)
qed

lemma mlh_hash_eq:
  assumes "length rand = l + 2" "unat len \<le> l" "unat len \<le> length bytes"
  shows "mlh_hash l rand (Some bytes) len = Inr (high32 (mlh_sum rand (take (unat len) bytes)))"
proof -
  let ?S = "\<Sum>k<(unat len). rand ! (k + 1) * ucast (bytes ! k)"
  have sum: "mlh_sum rand (take (unat len) bytes) = rand ! 0 + ?S + rand ! (unat len + 1)"
    using assms by (simp add: mlh_sum_def min_def)
  have parity: "len AND 1 \<noteq> 0 \<longleftrightarrow> odd (unat len)"
    using and_mask_dvd_nat [of 1 len] by (simp add: mask_eq_exp_minus_1)
  show ?thesis
  proof (cases "odd (unat len)")
    case True
    then show ?thesis
      using mlh_odd_sum [of "unat len" 0 "unat len" bytes 1 rand "rand ! 0"] assms parity
      by (simp add: mlh_hash_def mem_at_def sum high32_def)
  next
    case False
    then obtain n where n: "unat len = 2 * n" by (auto elim: evenE)
    obtain t1 t2 where "mlh_even rand bytes (unat len) 1 0 (rand ! 0) 0 = Inr (1 + 2 * n, t1, t2)"
      "t1 + t2 = rand ! 0 + 0 + (\<Sum>k<(2 * n). rand ! (1 + k) * ucast (bytes ! (0 + k)))"
      using mlh_even_sum [of "unat len" 0 n bytes 1 rand "rand ! 0" 0] n assms by auto
    moreover from this(2) have "t1 + (rand ! (1 + 2 * n) + t2) = mlh_sum rand (take (unat len) bytes)"
      unfolding sum by (simp add: n algebra_simps)
    ultimately show ?thesis
      using assms parity False n by (simp add: mlh_hash_def mem_at_def high32_def)
  qed
qed

section \<open>Strong universality\<close>

text \<open>
  The counting behind it: for a factor \<open>e\<close> that divides \<open>2 ^ 32\<close> modulo \<open>2 ^ 64\<close>, the upper
  halves of \<open>b * e + c\<close> are evenly distributed over all \<open>b\<close>, because a suitable step of \<open>b\<close>
  raises the upper half by one.
\<close>

lemma high32_unat: "high32 x = word_of_nat (unat x div 2 ^ 32)"
proof -
  have "ucast (drop_bit 32 x) = (word_of_nat (unat (drop_bit 32 x)) :: u32)" by simp
  also have "unat (drop_bit 32 x) = unat x div 2 ^ 32"
    unfolding unat_drop_bit_eq by (rule drop_bit_eq_div)
  finally show ?thesis unfolding high32_def .
qed

lemma high32_of_nat: "high32 (word_of_nat n) = word_of_nat (n div 2 ^ 32)"
proof -
  have "n mod (2 ^ 32 * 2 ^ 32) div 2 ^ 32 = n div 2 ^ 32 mod 2 ^ 32"
    unfolding mod_mult2_eq by simp
  moreover have "(2 :: nat) ^ 32 * 2 ^ 32 = 2 ^ LENGTH(64)" by simp
  ultimately have "unat (word_of_nat n :: u64) div 2 ^ 32 = n div 2 ^ 32 mod 2 ^ LENGTH(32)"
    by (simp only: unat_of_nat) simp
  then show ?thesis
    by (simp add: high32_unat word_of_nat_eq_iff take_bit_eq_mod)
qed

lemma high32_plus: "high32 (x + 2 ^ 32) = high32 x + 1"
proof -
  have "x + 2 ^ 32 = word_of_nat (unat x + 2 ^ 32)" by simp
  then have "high32 (x + 2 ^ 32) = word_of_nat ((unat x + 2 ^ 32) div 2 ^ 32)"
    by (simp only: high32_of_nat)
  also have "(unat x + 2 ^ 32) div 2 ^ 32 = unat x div 2 ^ 32 + 1" by simp
  finally show ?thesis by (simp add: high32_unat)
qed

lemma card_UNIV_eq_sum: "(\<Sum>y\<in>UNIV. card {b :: 'a::finite. f b = (y :: 'b::finite)}) = CARD('a)"
  using sum.group [of "UNIV :: 'a set" "UNIV :: 'b set" f "\<lambda>_. 1 :: nat"] by simp

lemma card_high32_slice:
  assumes g: "g * e = 2 ^ 32"
  shows "card {b :: u64. high32 (b * e + c) = y} = 2 ^ 32"
proof -
  let ?F = "\<lambda>y. {b :: u64. high32 (b * e + c) = y}"
  have shift: "high32 ((b + g) * e + c) = high32 (b * e + c) + 1" for b
  proof -
    have "(b + g) * e + c = b * e + c + 2 ^ 32" using g by (simp add: distrib_right)
    then show ?thesis by (simp only: high32_plus)
  qed
  have succ: "card (?F (y + 1)) = card (?F y)" for y
  proof -
    have "bij_betw (\<lambda>b. b + g) (?F y) (?F (y + 1))"
    proof (rule bij_betw_byWitness [where f' = "\<lambda>b. b - g"])
      have "high32 ((b - g) * e + c) = y" if "high32 (b * e + c) = y + 1" for b
        using shift [of "b - g"] that by simp
      then show "(\<lambda>b. b - g) ` ?F (y + 1) \<subseteq> ?F y" by blast
      show "(\<lambda>b. b + g) ` ?F y \<subseteq> ?F (y + 1)" using shift by blast
    qed simp_all
    then show ?thesis by (metis bij_betw_same_card)
  qed
  have "card (?F (word_of_nat n)) = card (?F 0)" for n
  proof (induction n)
    case (Suc n)
    then show ?case using succ [of "word_of_nat n"] by (simp only: of_nat_Suc add.commute [of 1])
  qed simp
  then have of_unat: "card (?F (word_of_nat (unat y))) = card (?F 0)" for y :: u32 .
  have const: "card (?F y) = card (?F 0)" for y :: u32 using of_unat [of y] by simp
  have "2 ^ 64 = (\<Sum>y\<in>UNIV. card (?F y))" by (simp add: card_UNIV_eq_sum card_word)
  also have "\<dots> = (\<Sum>y\<in>(UNIV :: u32 set). card (?F 0))" by (rule sum.cong [OF refl const])
  also have "\<dots> = 2 ^ 32 * card (?F 0)" by (simp add: card_word)
  finally have "card (?F 0) = 2 ^ 32" by simp
  then show ?thesis using const by simp
qed

lemma dvd_power2:
  fixes n :: nat
  assumes "n dvd 2 ^ m"
  shows "\<exists>k. n = 2 ^ k"
  using assms
proof (induction m arbitrary: n)
  case 0
  then show ?case by (auto intro: exI [of _ 0])
next
  case (Suc m)
  show ?case
  proof (cases "even n")
    case True
    then obtain n' where n': "n = 2 * n'" ..
    with Suc.prems have "n' dvd 2 ^ m" by simp
    then obtain k where "n' = 2 ^ k" using Suc.IH by blast
    then show ?thesis using n' by (intro exI [of _ "Suc k"]) simp
  next
    case False
    then have "coprime n (2 ^ Suc m)" by simp
    then have "n = 1" using Suc.prems by (metis coprime_absorb_left nat_dvd_1_iff_1)
    then show ?thesis by (intro exI [of _ 0]) simp
  qed
qed

lemma small_factor_divides:
  assumes "d \<noteq> 0" "\<bar>d\<bar> < 256"
  shows "\<exists>g :: u64. g * word_of_int d = 2 ^ 32"
proof -
  let ?n = "gcd d (2 ^ 64)"
  obtain u v where uv: "u * d + v * 2 ^ 64 = ?n" using bezout_int by blast
  have "nat ?n dvd 2 ^ 64" by (simp add: nat_dvd_iff)
  then obtain k where k: "nat ?n = 2 ^ k" using dvd_power2 by blast
  then have n: "?n = 2 ^ k" by (metis gcd_ge_0_int int_nat_eq of_nat_numeral of_nat_power)
  have "?n \<le> \<bar>d\<bar>" using dvd_imp_le_int [OF assms(1), of ?n] by simp
  then have "(2 :: int) ^ k < 2 ^ 8" using n assms(2) by simp
  then have "k < 8" by (rule power_less_imp_less_exp [rotated]) simp
  then have pow: "(2 :: int) ^ (32 - k) * 2 ^ k = 2 ^ 32" by (simp flip: power_add)
  have "2 ^ (32 - k) * u * d + 2 ^ (32 - k) * v * 2 ^ 64 = 2 ^ 32"
    using arg_cong [OF uv, of "\<lambda>x. 2 ^ (32 - k) * x"] n pow by (simp add: algebra_simps)
  then have "(word_of_int (2 ^ (32 - k) * u * d + 2 ^ (32 - k) * v * 2 ^ 64) :: u64) = word_of_int (2 ^ 32)"
    by simp
  moreover have "(18446744073709551616 :: u64) = 0" by simp
  ultimately have "word_of_int (2 ^ (32 - k) * u) * word_of_int d = (2 ^ 32 :: u64)"
    by simp
  then show ?thesis by blast
qed

text \<open>The two random numbers that meet a differing position decide both hash values evenly.\<close>

lemma card_two_hashes:
  fixes p q c c' :: u64
  assumes "p \<noteq> q" "unat p < 256" "unat q < 256"
  shows "card {(a, b). high32 (a + b * p + c) = y \<and> high32 (a + b * q + c') = z} = 2 ^ 64"
    (is "card ?A = _")
proof -
  define d where "d = int (unat p) - int (unat q)"
  have "unat p \<noteq> unat q" using assms(1) by (metis unsigned_word_eqI)
  then have "d \<noteq> 0" "\<bar>d\<bar> < 256" unfolding d_def using assms(2,3) by linarith+
  then obtain g :: u64 where "g * word_of_int d = 2 ^ 32" using small_factor_divides by blast
  moreover have "word_of_int d = p - q" by (simp add: d_def)
  ultimately have g: "g * (p - q) = 2 ^ 32" by simp
  have g1: "2 ^ 32 * 1 = (2 ^ 32 :: u64)" by simp
  let ?Z = "{u. high32 (u * 1 + 0) = z}"
  let ?B = "SIGMA u:?Z. {b. high32 (b * (p - q) + (u + c - c')) = y}"
  have "bij_betw (\<lambda>(a, b). (a + b * q + c', b)) ?A ?B"
    by (rule bij_betw_byWitness [where f' = "\<lambda>(u, b). (u - b * q - c', b)"])
      (auto simp: algebra_simps)
  then have "card ?A = card ?B" by (rule bij_betw_same_card)
  also have "\<dots> = (\<Sum>u\<in>?Z. card {b. high32 (b * (p - q) + (u + c - c')) = y})"
    by (rule card_SigmaI) simp_all
  also have "\<dots> = (\<Sum>u\<in>?Z. 2 ^ 32)" by (simp only: card_high32_slice [OF g])
  also have "\<dots> = 2 ^ 64" by (simp only: sum_constant card_high32_slice [OF g1]) simp
  finally show ?thesis .
qed

text \<open>Tables of random numbers, counted by all their entries but two.\<close>

lemma list_update_two_swap: "i \<noteq> 0 \<Longrightarrow> xs[0 := x, i := y, 0 := z, i := u] = xs[0 := z, i := u]"
  by (simp add: list_update_swap [of 0 i])

lemma card_tables:
  fixes P :: "u64 list \<Rightarrow> bool"
  assumes i: "0 < i" "i < n"
  shows "card {rand. length rand = n \<and> P rand} =
    (\<Sum>R\<in>{R. length R = n \<and> R ! 0 = 0 \<and> R ! i = 0}. card {(a, b). P (R[0 := a, i := b])})"
    (is "card ?A = (\<Sum>R\<in>?R. card (?P R))")
proof -
  let ?f = "\<lambda>(R, a, b). R[0 := a, i := b]" and ?g = "\<lambda>rand. (rand[0 := 0, i := 0], rand ! 0, rand ! i)"
  have "bij_betw ?f (SIGMA R:?R. ?P R) ?A"
  proof (rule bij_betw_byWitness [where f' = ?g])
    show "\<forall>x\<in>SIGMA R:?R. ?P R. ?g (?f x) = x"
    proof
      fix x
      assume "x \<in> (SIGMA R:?R. ?P R)"
      then obtain R a b where x: "x = (R, a, b)" and R: "length R = n" "R ! 0 = 0" "R ! i = 0" by auto
      have "R[0 := 0, i := 0] = R" using R by (metis list_update_id)
      then show "?g (?f x) = x" using i R by (simp add: x list_update_two_swap)
    qed
    show "\<forall>rand\<in>?A. ?f (?g rand) = rand"
      using i by (simp add: list_update_two_swap)
    show "?f ` (SIGMA R:?R. ?P R) \<subseteq> ?A" by auto
    show "?g ` ?A \<subseteq> (SIGMA R:?R. ?P R)"
    proof (rule image_subsetI)
      fix rand
      assume "rand \<in> ?A"
      then have rand: "length rand = n" "P rand" by simp_all
      then have "rand[0 := 0] ! 0 = 0" using i by (intro nth_list_update_eq) simp
      then have "rand[0 := 0, i := 0] \<in> ?R" using rand(1) i by simp
      moreover have "rand[0 := 0, i := 0, 0 := rand ! 0, i := rand ! i] = rand"
        using i by (subst list_update_two_swap) simp_all
      then have "(rand ! 0, rand ! i) \<in> ?P (rand[0 := 0, i := 0])"
        using rand(2) by (simp only: mem_Collect_eq prod.case)
      ultimately show "?g rand \<in> (SIGMA R:?R. ?P R)" by (rule SigmaI)
    qed
  qed
  then have "card ?A = card (SIGMA R:?R. ?P R)" by (rule bij_betw_same_card [symmetric])
  also have "\<dots> = (\<Sum>R\<in>?R. card (?P R))"
  proof (rule card_SigmaI)
    have "finite {R :: u64 list. length R = n}" using finite_lists_length_eq [of "UNIV :: u64 set" n] by simp
    then show "finite ?R" by (rule finite_subset [rotated]) blast
  qed simp
  finally show ?thesis .
qed

text \<open>The string closed with the character 1 and filled up with 0.\<close>

definition mlh_char :: "u8 list \<Rightarrow> nat \<Rightarrow> u64" where
  "mlh_char s j = (if j < length s then ucast (s ! j) else if j = length s then 1 else 0)"

lemma unat_ucast_byte: "unat (ucast (b :: u8) :: u64) = unat b"
  using unat_bound [of b] by (simp add: unsigned_ucast_eq take_bit_nat_eq_self)

lemma ucast_byte_eq_iff: "(ucast (b :: u8) :: u64) = ucast b' \<longleftrightarrow> b = b'"
  by (metis unat_ucast_byte unsigned_word_eqI)

lemma mlh_char_less: "unat (mlh_char s j) < 256"
  using unat_bound [of "s ! j"] by (simp add: mlh_char_def unat_ucast_byte)

lemma mlh_char_neq:
  assumes "s \<noteq> t" "length s \<le> l" "length t \<le> l"
  shows "\<exists>j\<le>l. mlh_char s j \<noteq> mlh_char t j"
proof (rule ccontr)
  assume "\<not> (\<exists>j\<le>l. mlh_char s j \<noteq> mlh_char t j)"
  then have eq: "mlh_char s j = mlh_char t j" if "j \<le> l" for j using that by blast
  have "length s = length t"
    using eq [of "length s"] eq [of "length t"] assms
    by (auto simp: mlh_char_def neq_iff split: if_splits)
  moreover have "s ! j = t ! j" if "j < length s" for j
    using eq [of j] that assms calculation by (simp add: mlh_char_def ucast_byte_eq_iff)
  ultimately show False using assms(1) by (auto intro: nth_equalityI)
qed

lemma mlh_sum_char:
  assumes "length s \<le> l"
  shows "mlh_sum rand s = rand ! 0 + (\<Sum>j\<le>l. rand ! (j + 1) * mlh_char s j)"
proof -
  have "(\<Sum>j\<le>l. rand ! (j + 1) * mlh_char s j) = (\<Sum>j\<le>length s. rand ! (j + 1) * mlh_char s j)"
    using assms by (intro sum.mono_neutral_right) (auto simp: mlh_char_def)
  also have "\<dots> = (\<Sum>j<length s. rand ! (j + 1) * mlh_char s j) + rand ! (length s + 1)"
    by (simp add: mlh_char_def flip: lessThan_Suc_atMost)
  also have "(\<Sum>j<length s. rand ! (j + 1) * mlh_char s j) =
      (\<Sum>j<length s. rand ! (j + 1) * ucast (s ! j))"
    by (intro sum.cong) (simp_all add: mlh_char_def)
  finally show ?thesis by (simp add: mlh_sum_def)
qed

lemma mlh_sum_two:
  assumes "length s \<le> l" "j \<le> l" "length R = l + 2"
  shows "mlh_sum (R[0 := a, j + 1 := b]) s =
    a + b * mlh_char s j + (\<Sum>k\<in>{..l} - {j}. R ! (k + 1) * mlh_char s k)"
  using assms
  by (simp add: mlh_sum_char [OF assms(1)] sum.remove [of "{..l}" j] add_ac nth_list_update
      cong: sum.cong_simp)

lemma card_mlh_sums:
  assumes st: "s \<noteq> t" "length s \<le> l" "length t \<le> l"
  shows "card {rand. length rand = l + 2 \<and> high32 (mlh_sum rand s) = y \<and> high32 (mlh_sum rand t) = z} * 2 ^ 64
    = card {rand :: u64 list. length rand = l + 2}"
proof -
  obtain j where j: "j \<le> l" "mlh_char s j \<noteq> mlh_char t j" using mlh_char_neq [OF st] by blast
  then have i: "0 < j + 1" "j + 1 < l + 2" by simp_all
  let ?R = "{R :: u64 list. length R = l + 2 \<and> R ! 0 = 0 \<and> R ! (j + 1) = 0}"
  let ?P = "\<lambda>rand. high32 (mlh_sum rand s) = y \<and> high32 (mlh_sum rand t) = z"
  have "card {(a, b). ?P (R[0 := a, j + 1 := b])} = 2 ^ 64" if "R \<in> ?R" for R
  proof -
    have R: "length R = l + 2" using that by simp
    show ?thesis
      unfolding mlh_sum_two [OF st(2) j(1) R] mlh_sum_two [OF st(3) j(1) R]
      by (rule card_two_hashes [OF j(2) mlh_char_less mlh_char_less])
  qed
  then have "(\<Sum>R\<in>?R. card {(a, b). ?P (R[0 := a, j + 1 := b])}) = card ?R * 2 ^ 64" by simp
  with card_tables [OF i, of ?P]
  have "card {rand. length rand = l + 2 \<and> ?P rand} = card ?R * 2 ^ 64" by (rule trans)
  moreover have "card {rand :: u64 list. length rand = l + 2} = card ?R * 2 ^ 128"
  proof -
    have "{(a :: u64, b :: u64). True} = UNIV" by auto
    then have "card {(a :: u64, b :: u64). True} = 2 ^ 128" by (simp only:) (simp add: card_word)
    then show ?thesis
      using card_tables [OF i, of "\<lambda>_. True"] by (simp only: simp_thms sum_constant of_nat_id)
  qed
  ultimately show ?thesis by simp
qed

section \<open>Properties\<close>

lemma fill_random_data_nth:
  "length (fill_random_data d rng rand) = length rand \<and>
   (\<forall>i<length rand. fill_random_data d rng rand ! i = fst (d (((snd \<circ> d) ^^ i) rng)))"
proof (induction d rng rand rule: fill_random_data.induct)
  case (2 d rng r rand)
  then show ?case
    by (cases "d rng") (auto simp: nth_Cons funpow_Suc_right simp del: funpow.simps split: nat.split)
qed simp

text \<open>
  Both constructors draw a table of \<open>l + 2\<close> numbers, one from the generator per entry and
  in the order of the entries: the table every hash of at most \<open>l\<close> bytes needs.
\<close>

lemma mlh_new_draws:
  "length (mlh_new l d source) = l + 2 \<and> length (mlh_new_seed l d rng seed) = l + 2 \<and>
   (\<forall>i<l + 2. mlh_new l d source ! i = fst (d (((snd \<circ> d) ^^ i) source)) \<and>
     mlh_new_seed l d rng seed ! i = fst (d (((snd \<circ> d) ^^ i) (rng seed))))"
  using fill_random_data_nth [of d source "replicate (l + 2) 0"]
    fill_random_data_nth [of d "rng seed" "replicate (l + 2) 0"]
  by (simp add: mlh_new_def mlh_new_seed_def del: replicate.simps)

text \<open>
  C17: The hash of a pointer and a length, on every branch: a null pointer and a length above
  \<open>MAX_LEN\<close> fail an assertion; otherwise both loops, the one for odd lengths and the one with
  two accumulators for even lengths, end exactly at the end of the input without reading past it
  or past the table, and give the upper half of the same linear form of the bytes.
\<close>

theorem mlh_hash_correct:
  assumes "length rand = l + 2" "\<forall>bytes. input = Some bytes \<longrightarrow> unat len \<le> length bytes"
  shows "mlh_hash l rand input len =
    (if input = None \<or> l < unat len then Inl AssertFailed
     else Inr (high32 (mlh_sum rand (take (unat len) (the input)))))"
proof (cases "input = None \<or> l < unat len")
  case True
  then show ?thesis by (auto simp: mlh_hash_def assertE_def)
next
  case False
  then show ?thesis using mlh_hash_eq [OF assms(1)] assms(2) by auto
qed

theorem mlh_hash_correct_witness:
  "mlh_hash 3 [2 ^ 32, 2 ^ 32, 2 ^ 33, 2 ^ 34, 1] (Some [7, 1, 200]) 2 = Inr 14"
proof -
  have "mlh_sum [2 ^ 32, 2 ^ 32, 2 ^ 33, 2 ^ 34, 1] [7, 1] = word_of_nat (14 * 2 ^ 32)"
    by (simp add: mlh_sum_def)
  then have "high32 (mlh_sum [2 ^ 32, 2 ^ 32, 2 ^ 33, 2 ^ 34, 1] [7, 1]) = 14"
    by (simp only: high32_of_nat) simp
  then show ?thesis
    using mlh_hash_correct [of "[2 ^ 32, 2 ^ 32, 2 ^ 33, 2 ^ 34, 1]" 3 "Some [7, 1, 200]" 2]
    by (simp add: take_Cons')
qed

text \<open>The view of a string, as \<open>string_view\<close> is made from one.\<close>

definition view_of :: "u8 list \<Rightarrow> string_view" where
  "view_of s = \<lparr>sv_data = Some s, sv_size = word_of_nat (length s)\<rparr>"

lemma mlh_hash_view_eq:
  assumes "length rand = l + 2" "length s \<le> l" "l < 2 ^ 64"
  shows "mlh_hash_view l rand (view_of s) = Inr (high32 (mlh_sum rand s))"
proof -
  have "unat (word_of_nat (length s) :: u64) = length s" using assms by (simp add: unat_of_nat)
  then show ?thesis
    using mlh_hash_eq [of rand l "word_of_nat (length s)" s] assms
    by (simp add: mlh_hash_view_def view_of_def)
qed

text \<open>
  C6: The family is strongly universal, as its documentation says: for any two different strings
  of at most \<open>MAX_LEN\<close> bytes, of equal length or not, and any two values \<open>y\<close> and \<open>z\<close>, the share
  of the tables of random numbers that hash the strings to \<open>y\<close> and \<open>z\<close> is exactly \<open>2 ^ -64\<close>.
\<close>

theorem mlh_strongly_universal:
  assumes "s \<noteq> t" "length s \<le> l" "length t \<le> l" "l < 2 ^ 64"
  shows "card {rand. length rand = l + 2 \<and> mlh_hash_view l rand (view_of s) = Inr y \<and>
      mlh_hash_view l rand (view_of t) = Inr z} * 2 ^ 64 =
    card {rand :: u64 list. length rand = l + 2}"
proof -
  have "{rand. length rand = l + 2 \<and> mlh_hash_view l rand (view_of s) = Inr y \<and>
      mlh_hash_view l rand (view_of t) = Inr z} =
    {rand. length rand = l + 2 \<and> high32 (mlh_sum rand s) = y \<and> high32 (mlh_sum rand t) = z}"
    using mlh_hash_view_eq [OF _ assms(2,4)] mlh_hash_view_eq [OF _ assms(3,4)] by auto
  then show ?thesis using card_mlh_sums [OF assms(1-3)] by simp
qed

theorem mlh_strongly_universal_witness:
  "card {rand. length rand = 2 + 2 \<and> mlh_hash_view 2 rand (view_of [0]) = Inr 5 \<and>
      mlh_hash_view 2 rand (view_of [0, 1]) = Inr 6} * 2 ^ 64 =
    card {rand :: u64 list. length rand = 2 + 2}"
  by (rule mlh_strongly_universal) simp_all

end
