(* ===== verification/Spin_Lock.thy ===== *)
theory Spin_Lock
  imports Prelude
begin

text \<open>
  \<^verbatim>\<open>include/ni/sync/sleep.hh\<close>, the back-off \<open>Pause\<close>, and \<^verbatim>\<open>include/ni/sync/spinlock.hh\<close>, the
  \<open>SpinLock\<close>, for any number of threads: each step of the relation is one atomic access to the
  flag or one call of \<open>Pause\<close> by one thread, in any interleaving. A weak compare-and-exchange
  may also fail for no reason.
\<close>

section \<open>Back-off\<close>

record pause =
  max_spins :: u32
  spins :: u32

text \<open>What a call of \<open>Pause\<close> does with the processor: a pause instruction or a sleep.\<close>

datatype pause_act = CpuPause | Nanosleep nat

definition pause_new :: "u32 \<Rightarrow> pause" where
  "pause_new n = \<lparr>max_spins = n, spins = 0\<rparr>"

definition pause_call :: "pause \<Rightarrow> pause_act \<times> pause" where
  "pause_call p =
     (if spins p < max_spins p then (CpuPause, p\<lparr>spins := spins p + 1\<rparr>)
      else (Nanosleep 500000, p))"

definition pause_reset :: "pause \<Rightarrow> pause" where
  "pause_reset p = p\<lparr>spins := 0\<rparr>"

fun pause_calls :: "nat \<Rightarrow> pause \<Rightarrow> pause_act list \<times> pause" where
  "pause_calls 0 p = ([], p)"
| "pause_calls (Suc n) p =
     (let (a, p) = pause_call p; (as, p) = pause_calls n p in (a # as, p))"

section \<open>The lock\<close>

text \<open>
  \<open>compare_exchange\<close> on the flag: success, and the new value of the flag; the value it leaves
  in \<open>expected\<close> is not read by the lock.
\<close>

definition cas_flag :: "bool \<Rightarrow> bool \<Rightarrow> bool \<Rightarrow> bool \<times> bool" where
  "cas_flag flag expected desired = (if flag = expected then (True, desired) else (False, flag))"

definition try_lock :: "bool \<Rightarrow> bool \<times> bool" where
  "try_lock flag = cas_flag flag False True"

definition unlock :: "bool \<Rightarrow> bool" where
  "unlock flag = False"

text \<open>
  Where a thread is: outside the lock, inside \<open>lock\<close> before the load of the inner loop, before
  the call of its \<open>pause\<close> or before the weak exchange, or holding the lock.
\<close>

datatype lock_pc = Outside | Load pause | Pausing pause | Exchange pause | Holding

record 't spin =
  locked :: bool
  pc :: "'t \<Rightarrow> lock_pc"

inductive spin_step :: "'t \<Rightarrow> 't spin \<Rightarrow> 't spin \<Rightarrow> bool" where
  lock_enter: "pc c t = Outside \<Longrightarrow> spin_step t c (c\<lparr>pc := (pc c)(t := Load (pause_new 2048))\<rparr>)"
| load_locked: "pc c t = Load p \<Longrightarrow> locked c \<Longrightarrow> spin_step t c (c\<lparr>pc := (pc c)(t := Pausing p)\<rparr>)"
| load_free: "pc c t = Load p \<Longrightarrow> \<not> locked c \<Longrightarrow> spin_step t c (c\<lparr>pc := (pc c)(t := Exchange p)\<rparr>)"
| lock_pause: "pc c t = Pausing p \<Longrightarrow> pause_call p = (act, p') \<Longrightarrow>
    spin_step t c (c\<lparr>pc := (pc c)(t := Load p')\<rparr>)"
| lock_exchange: "pc c t = Exchange p \<Longrightarrow> cas_flag (locked c) False True = (ok, flag) \<Longrightarrow>
    spin_step t c \<lparr>locked = flag, pc = (pc c)(t := (if ok then Holding else Load p))\<rparr>"
| lock_spurious: "pc c t = Exchange p \<Longrightarrow> spin_step t c (c\<lparr>pc := (pc c)(t := Load p)\<rparr>)"
| lock_try: "pc c t = Outside \<Longrightarrow> try_lock (locked c) = (ok, flag) \<Longrightarrow>
    spin_step t c \<lparr>locked = flag, pc = (pc c)(t := (if ok then Holding else Outside))\<rparr>"
| lock_release: "pc c t = Holding \<Longrightarrow>
    spin_step t c \<lparr>locked = unlock (locked c), pc = (pc c)(t := Outside)\<rparr>"

definition spin_init :: "'t spin" where
  "spin_init = \<lparr>locked = False, pc = \<lambda>_. Outside\<rparr>"

inductive spin_reach :: "'t spin \<Rightarrow> bool" where
  spin_reach_init: "spin_reach spin_init"
| spin_reach_step: "spin_reach c \<Longrightarrow> spin_step t c c' \<Longrightarrow> spin_reach c'"

section \<open>The invariant\<close>

text \<open>
  The flag is set exactly while a thread holds the lock, only one thread does, and the pause
  of every waiting thread is within its 2048 spins.
\<close>

definition holders :: "'t spin \<Rightarrow> 't set" where
  "holders c = {t. pc c t = Holding}"

definition pause_ok :: "pause \<Rightarrow> bool" where
  "pause_ok p \<longleftrightarrow> max_spins p = 2048 \<and> spins p \<le> max_spins p"

fun pc_ok :: "lock_pc \<Rightarrow> bool" where
  "pc_ok (Load p) = pause_ok p"
| "pc_ok (Pausing p) = pause_ok p"
| "pc_ok (Exchange p) = pause_ok p"
| "pc_ok _ = True"

definition spin_inv :: "'t spin \<Rightarrow> bool" where
  "spin_inv c \<longleftrightarrow> (if locked c then \<exists>t. holders c = {t} else holders c = {}) \<and> (\<forall>t. pc_ok (pc c t))"

lemma pause_ok_new: "pause_ok (pause_new 2048)"
  by (simp add: pause_ok_def pause_new_def)

lemma pause_ok_call: "pause_ok p \<Longrightarrow> pause_call p = (act, p') \<Longrightarrow> pause_ok p'"
  by (auto simp: pause_ok_def pause_call_def inc_le split: if_splits)

text \<open>A thread that moves changes the holders only by entering or leaving them.\<close>

lemma holders_move:
  "holders \<lparr>locked = b, pc = (pc c)(t := x)\<rparr> = (if x = Holding then insert t (holders c) else holders c - {t})"
  by (auto simp: holders_def)

lemma spin_update_eq: "c\<lparr>pc := f\<rparr> = \<lparr>locked = locked c, pc = f\<rparr>"
  by simp

lemma spin_inv_step:
  assumes "spin_step t c c'" "spin_inv c"
  shows "spin_inv c'"
proof -
  have move: "spin_inv \<lparr>locked = b, pc = (pc c)(t := x)\<rparr>"
    if "pc_ok x" "if b then \<exists>u. (if x = Holding then insert t (holders c) else holders c - {t}) = {u}
      else (if x = Holding then insert t (holders c) else holders c - {t}) = {}" for b t x
    using that assms(2) unfolding spin_inv_def holders_move by simp
  have out: "t \<notin> holders c \<longleftrightarrow> pc c t \<noteq> Holding" for t by (simp add: holders_def)
  have ok: "pc_ok (pc c t)" for t using assms(2) by (simp add: spin_inv_def)
  have flag: "if locked c then \<exists>t. holders c = {t} else holders c = {}"
    using assms(2) by (simp add: spin_inv_def)
  show ?thesis
    using assms(1)
  proof cases
    case lock_enter
    then show ?thesis using flag out [of t] move [of "Load (pause_new 2048)" "locked c" t] pause_ok_new
      by (simp add: spin_update_eq)
  next
    case (load_locked p)
    then show ?thesis using flag out [of t] ok [of t] move [of "Pausing p" "locked c" t]
      by (simp add: spin_update_eq)
  next
    case (load_free p)
    then show ?thesis using flag out [of t] ok [of t] move [of "Exchange p" "locked c" t]
      by (simp add: spin_update_eq)
  next
    case (lock_pause p act p')
    then show ?thesis using flag out [of t] ok [of t] pause_ok_call move [of "Load p'" "locked c" t]
      by (simp add: spin_update_eq)
  next
    case (lock_exchange p ok' flag')
    then show ?thesis using flag out [of t] ok [of t] move [of "if ok' then Holding else Load p" flag' t]
      by (auto simp: cas_flag_def split: if_splits)
  next
    case (lock_spurious p)
    then show ?thesis using flag out [of t] ok [of t] move [of "Load p" "locked c" t]
      by (simp add: spin_update_eq)
  next
    case (lock_try ok' flag')
    then show ?thesis using flag out [of t] move [of "if ok' then Holding else Outside" flag' t]
      by (auto simp: try_lock_def cas_flag_def split: if_splits)
  next
    case lock_release
    then show ?thesis using flag out [of t] move [of Outside False t]
      by (auto simp: unlock_def split: if_splits)
  qed
qed

lemma spin_reach_inv: "spin_reach c \<Longrightarrow> spin_inv c"
proof (induction rule: spin_reach.induct)
  case spin_reach_init
  show ?case by (simp add: spin_inv_def spin_init_def holders_def)
next
  case (spin_reach_step c t c')
  then show ?case by (blast intro: spin_inv_step)
qed

section \<open>Steps of one thread\<close>

inductive own_steps :: "'t \<Rightarrow> nat \<Rightarrow> 't spin \<Rightarrow> 't spin \<Rightarrow> bool" for t where
  own_done: "own_steps t n c c"
| own_step: "spin_step t c d \<Longrightarrow> own_steps t n d e \<Longrightarrow> own_steps t (Suc n) c e"

lemma own_exchange:
  assumes "pc c t = Exchange p" "\<not> locked c"
  shows "\<exists>d. own_steps t (Suc n) c d \<and> pc d t = Holding"
proof (intro exI conjI)
  show "own_steps t (Suc n) c \<lparr>locked = True, pc = (pc c)(t := Holding)\<rparr>"
    using lock_exchange [OF assms(1), of True True] assms(2)
    by (intro own_step [OF _ own_done]) (simp add: cas_flag_def)
qed simp

lemma own_load:
  assumes "pc c t = Load p" "\<not> locked c"
  shows "\<exists>d. own_steps t (Suc (Suc n)) c d \<and> pc d t = Holding"
  using own_exchange [of "c\<lparr>pc := (pc c)(t := Exchange p)\<rparr>" t p n] assms
  by (auto intro: own_step load_free)

lemma own_pausing:
  assumes "pc c t = Pausing p" "\<not> locked c"
  shows "\<exists>d. own_steps t (Suc (Suc (Suc n))) c d \<and> pc d t = Holding"
proof -
  obtain act p' where call: "pause_call p = (act, p')" by (cases "pause_call p")
  show ?thesis
    using own_load [of "c\<lparr>pc := (pc c)(t := Load p')\<rparr>" t p' n] assms
    by (auto intro: own_step lock_pause [OF _ call])
qed

section \<open>The number of pauses\<close>

lemma pause_calls_acts:
  "pause_calls n p =
    (let k = min n (unat (max_spins p) - unat (spins p)) in
     (replicate k CpuPause @ replicate (n - k) (Nanosleep 500000), p\<lparr>spins := spins p + word_of_nat k\<rparr>))"
proof (induction n arbitrary: p)
  case (Suc n)
  show ?case
  proof (cases "spins p < max_spins p")
    case True
    then have lt: "unat (spins p) < unat (max_spins p)" by (simp add: word_less_nat_alt)
    then have "unat (spins p) + 1 < 2 ^ 32" using unat_bound [of "max_spins p"] by simp
    then have "unat (spins p + 1) = unat (spins p) + 1" using unat_Suc [of "spins p"] by simp
    moreover obtain m where "unat (max_spins p) = Suc (unat (spins p) + m)" using lt less_imp_Suc_add by blast
    ultimately show ?thesis
      using True by (simp add: pause_call_def Suc.IH Let_def)
  next
    case False
    then have "unat (max_spins p) - unat (spins p) = 0" by (simp add: word_less_nat_alt)
    then show ?thesis using False by (simp add: pause_call_def Suc.IH Let_def)
  qed
qed simp

section \<open>Properties\<close>

text \<open>
  C12: Mutual exclusion, for any number of threads and any interleaving of their accesses, with
  spurious failures of the exchange: in every reachable state at most one thread holds the lock,
  the flag is set exactly while one does, and no waiting thread has spun more than its 2048 times.
\<close>

theorem spin_mutual_exclusion:
  assumes "spin_reach c"
  shows "(\<forall>t u. pc c t = Holding \<longrightarrow> pc c u = Holding \<longrightarrow> t = u) \<and>
    (locked c \<longleftrightarrow> (\<exists>t. pc c t = Holding)) \<and> (\<forall>t. pc_ok (pc c t))"
  using spin_reach_inv [OF assms]
  by (auto simp: spin_inv_def holders_def set_eq_iff split: if_splits)

theorem spin_mutual_exclusion_witness:
  "let c = \<lparr>locked = True, pc = (\<lambda>_. Outside)(7 := Holding)\<rparr> :: nat spin in
   (\<forall>t u. pc c t = Holding \<longrightarrow> pc c u = Holding \<longrightarrow> t = u) \<and>
    (locked c \<longleftrightarrow> (\<exists>t. pc c t = Holding)) \<and> (\<forall>t. pc_ok (pc c t))"
proof -
  have "spin_step 7 spin_init (\<lparr>locked = True, pc = (\<lambda>_. Outside)(7 := Holding)\<rparr> :: nat spin)"
    using lock_try [of spin_init 7 True True] by (simp add: spin_init_def try_lock_def cas_flag_def)
  then show ?thesis
    unfolding Let_def by (intro spin_mutual_exclusion spin_reach_step [OF spin_reach_init])
qed

text \<open>
  No deadlock: whenever nobody holds the lock, any thread inside \<open>lock\<close> has it after at
  most three steps of its own, if it runs alone and the exchange does not fail spuriously.
\<close>

lemma spin_lock_progress:
  assumes "spin_reach c" "\<forall>u. pc c u \<noteq> Holding" "pc c t \<noteq> Outside"
  shows "\<exists>d. own_steps t 3 c d \<and> spin_reach d \<and> pc d t = Holding \<and> locked d"
proof -
  have free: "\<not> locked c" using spin_reach_inv [OF assms(1)] assms(2) by (auto simp: spin_inv_def holders_def)
  have "\<exists>d. own_steps t 3 c d \<and> pc d t = Holding"
    using assms(2,3) own_exchange [OF _ free, of t _ 2] own_load [OF _ free, of t _ 1]
      own_pausing [OF _ free, of t _ 0]
    by (cases "pc c t") (auto simp: eval_nat_numeral)
  then obtain d where d: "own_steps t 3 c d" "pc d t = Holding" by blast
  have "spin_reach e" if "own_steps t n c e" "spin_reach c" for n c e
    using that by (induction rule: own_steps.induct) (auto intro: spin_reach_step)
  then have "spin_reach d" using d(1) assms(1) by blast
  moreover from this have "locked d" using spin_reach_inv [of d] d(2)
    by (auto simp: spin_inv_def holders_def split: if_splits)
  ultimately show ?thesis using d by blast
qed

text \<open>
  The back-off: of any number of calls of a new \<open>Pause\<close> the first \<open>max_spins\<close> are pause
  instructions and all others sleep for half a millisecond, the counter never passes
  \<open>max_spins\<close>, and \<open>reset\<close> starts over.
\<close>

lemma pause_backoff:
  "fst (pause_calls n (pause_new m)) =
     replicate (min n (unat m)) CpuPause @ replicate (n - unat m) (Nanosleep 500000) \<and>
   unat (spins (snd (pause_calls n (pause_new m)))) = min n (unat m) \<and>
   pause_reset (snd (pause_calls n (pause_new m))) = pause_new m"
proof -
  have "min n (unat m) < 2 ^ 32" using unat_bound [of m] by simp
  then show ?thesis
    by (simp add: pause_calls_acts pause_new_def pause_reset_def Let_def unat_of_nat)
qed

end
