(* ===== verification/Scope_Guard.thy ===== *)
theory Scope_Guard
  imports Prelude
begin

text \<open>
  \<^verbatim>\<open>src/exception.cc\<close>, the number of uncaught exceptions, and \<^verbatim>\<open>include/ni/scope_guard.hh\<close>,
  the \<open>ScopeGuard\<close> that calls a function when its scope ends. The function object is a value of
  any type \<open>'f\<close>, with what a call does to the state (\<open>None\<close> when it throws) and what a move
  leaves behind as parameters.
\<close>

section \<open>Uncaught exceptions\<close>

text \<open>
  The thread's exception state of the C++ runtime, whether its globals exist and its number of
  uncaught exceptions, and the thread-local flag \<open>GET_EH_GLOBALS_CALLED\<close>. The fast access to
  the globals is only defined once they exist.
\<close>

record eh =
  get_eh_globals_called :: bool
  eh_globals :: bool
  uncaught :: u32

definition cxa_get_globals :: "eh \<Rightarrow> eh" where
  "cxa_get_globals e = e\<lparr>eh_globals := True\<rparr>"

definition cxa_get_globals_fast :: "eh \<Rightarrow> eh result" where
  "cxa_get_globals_fast e = (if eh_globals e then Inr e else Inl (BadDeref nullptr))"

definition uncaught_exceptions :: "eh \<Rightarrow> (u32 \<times> eh) result" where
  "uncaught_exceptions e =
     bindE
       (if get_eh_globals_called e then cxa_get_globals_fast e
        else Inr ((cxa_get_globals e)\<lparr>get_eh_globals_called := True\<rparr>))
       (\<lambda>e. Inr (uncaught e, e))"

definition eh_ok :: "eh \<Rightarrow> bool" where
  "eh_ok e \<longleftrightarrow> (get_eh_globals_called e \<longrightarrow> eh_globals e)"

section \<open>The guard\<close>

datatype scope_exit = ExitAll | NoException | UncaughtException

record 'f guard =
  exit_condition :: scope_exit
  guard_fn :: 'f
  active :: bool
  uncaught_then :: u32

definition guard_new :: "scope_exit \<Rightarrow> 'f \<Rightarrow> eh \<Rightarrow> ('f guard \<times> eh) result" where
  "guard_new cond fn e =
     bindE (if cond = ExitAll then Inr (0, e) else uncaught_exceptions e) (\<lambda>(n, e).
     Inr (\<lparr>exit_condition = cond, guard_fn = fn, active = True, uncaught_then = n\<rparr>, e))"

text \<open>The constructor that moves the function also leaves what is left of its argument.\<close>

definition guard_new_move ::
  "('f \<Rightarrow> 'f) \<Rightarrow> scope_exit \<Rightarrow> 'f \<Rightarrow> eh \<Rightarrow> ('f guard \<times> 'f \<times> eh) result" where
  "guard_new_move moved cond fn e =
     bindE (if cond = ExitAll then Inr (0, e) else uncaught_exceptions e) (\<lambda>(n, e).
     Inr (\<lparr>exit_condition = cond, guard_fn = fn, active = True, uncaught_then = n\<rparr>, moved fn, e))"

definition deactivate :: "'f guard \<Rightarrow> 'f guard" where
  "deactivate g = g\<lparr>active := False\<rparr>"

text \<open>The move constructor: the new guard and what is left of the other.\<close>

definition guard_move :: "('f \<Rightarrow> 'f) \<Rightarrow> 'f guard \<Rightarrow> 'f guard \<times> 'f guard" where
  "guard_move moved other =
     (\<lparr>exit_condition = exit_condition other, guard_fn = guard_fn other, active = active other,
       uncaught_then = uncaught_then other\<rparr>,
      deactivate (other\<lparr>guard_fn := moved (guard_fn other)\<rparr>))"

text \<open>The call of the function by the destructor, which no exception may leave.\<close>

definition guard_call :: "('f \<Rightarrow> eh \<times> 'w \<Rightarrow> (eh \<times> 'w) option) \<Rightarrow> 'f \<Rightarrow> eh \<times> 'w \<Rightarrow> (eh \<times> 'w) result" where
  "guard_call run fn s = (case run fn s of None \<Rightarrow> Inl Terminated | Some s \<Rightarrow> Inr s)"

definition guard_delete ::
  "('f \<Rightarrow> eh \<times> 'w \<Rightarrow> (eh \<times> 'w) option) \<Rightarrow> 'f guard \<Rightarrow> eh \<times> 'w \<Rightarrow> (eh \<times> 'w) result" where
  "guard_delete run g s =
     (if active g then
        if exit_condition g \<noteq> ExitAll then
          bindE (uncaught_exceptions (fst s)) (\<lambda>(now, e).
            let s = (e, snd s) in
            if exit_condition g = NoException then
              if now > uncaught_then g then Inr s else guard_call run (guard_fn g) s
            else if exit_condition g = UncaughtException then
              if now \<le> uncaught_then g then Inr s else guard_call run (guard_fn g) s
            else guard_call run (guard_fn g) s)
        else guard_call run (guard_fn g) s
      else Inr s)"

text \<open>
  \<open>make_scope_guard\<close> and \<open>operator<<\<close> on a function object that is an rvalue or not: the guard is returned by value, with the
  temporary elided or moved from and destroyed.
\<close>

definition make_scope_guard ::
  "bool \<Rightarrow> bool \<Rightarrow> ('f \<Rightarrow> eh \<times> 'w \<Rightarrow> (eh \<times> 'w) option) \<Rightarrow> ('f \<Rightarrow> 'f) \<Rightarrow> scope_exit \<Rightarrow> 'f \<Rightarrow> eh \<times> 'w \<Rightarrow>
    ('f guard \<times> eh \<times> 'w) result" where
  "make_scope_guard rvalue elided run moved cond fn s =
     bindE
       (if rvalue then bindE (guard_new_move moved cond fn (fst s)) (\<lambda>(g, _, e). Inr (g, e))
        else guard_new cond fn (fst s)) (\<lambda>(g, e).
     if elided then Inr (g, e, snd s)
     else let (g', g) = guard_move moved g in
       bindE (guard_delete run g (e, snd s)) (\<lambda>s. Inr (g', s)))"

section \<open>Guarded scopes\<close>

text \<open>
  A scope with a guard declared in front of \<open>body\<close>, as \<open>NI_DEFER_ON\<close> writes it. The body
  changes the state and says whether it is left by an exception.
\<close>

definition guarded ::
  "bool \<Rightarrow> bool \<Rightarrow> ('f \<Rightarrow> eh \<times> 'w \<Rightarrow> (eh \<times> 'w) option) \<Rightarrow> ('f \<Rightarrow> 'f) \<Rightarrow> scope_exit \<Rightarrow> 'f \<Rightarrow>
    (eh \<times> 'w \<Rightarrow> bool \<times> eh \<times> 'w) \<Rightarrow> eh \<times> 'w \<Rightarrow> (bool \<times> eh \<times> 'w) result" where
  "guarded rvalue elided run moved cond fn body s =
     bindE (make_scope_guard rvalue elided run moved cond fn s) (\<lambda>(g, s).
     let (thrown, s) = body s in
     bindE (guard_delete run g s) (\<lambda>s. Inr (thrown, s)))"

text \<open>
  What the runtime guarantees of every piece of code: it keeps the globals once they exist, and
  exactly the exception that leaves it is uncaught in addition to those before.
\<close>

definition balanced :: "(eh \<times> 'w \<Rightarrow> bool \<times> eh \<times> 'w) \<Rightarrow> bool" where
  "balanced body \<longleftrightarrow> (\<forall>e w thrown e' w'. eh_ok e \<longrightarrow> body (e, w) = (thrown, e', w') \<longrightarrow>
     eh_ok e' \<and> uncaught e' = uncaught e + (if thrown then 1 else 0))"

fun fires :: "scope_exit \<Rightarrow> bool \<Rightarrow> bool" where
  "fires ExitAll thrown = True"
| "fires NoException thrown = (\<not> thrown)"
| "fires UncaughtException thrown = thrown"

text \<open>The one trace a test of the condition leaves: the globals exist from then on.\<close>

definition checked :: "scope_exit \<Rightarrow> eh \<Rightarrow> eh" where
  "checked cond e =
     (if cond = ExitAll then e else e\<lparr>get_eh_globals_called := True, eh_globals := True\<rparr>)"

lemma uncaught_exceptions_ok:
  "eh_ok e \<Longrightarrow> uncaught_exceptions e =
     Inr (uncaught e, e\<lparr>get_eh_globals_called := True, eh_globals := True\<rparr>)"
  by (cases e) (auto simp: uncaught_exceptions_def eh_ok_def cxa_get_globals_def cxa_get_globals_fast_def)

lemma checked_simps [simp]:
  "eh_ok e \<Longrightarrow> eh_ok (checked cond e)"
  "uncaught (checked cond e) = uncaught e"
  by (simp_all add: checked_def eh_ok_def)

lemma guard_delete_inactive [simp]: "\<not> active g \<Longrightarrow> guard_delete run g s = Inr s"
  by (simp add: guard_delete_def)

lemma guard_move_simps [simp]:
  "fst (guard_move moved g) = g"
  "\<not> active (snd (guard_move moved g))"
  by (simp_all add: guard_move_def deactivate_def)

lemma make_scope_guard_eq:
  assumes "eh_ok e"
  shows "make_scope_guard rvalue elided run moved cond fn (e, w) =
    Inr (\<lparr>exit_condition = cond, guard_fn = fn, active = True,
      uncaught_then = if cond = ExitAll then 0 else uncaught e\<rparr>, checked cond e, w)"
  using assms
  by (cases cond) (simp_all add: make_scope_guard_def guard_new_move_def guard_new_def uncaught_exceptions_ok
    checked_def split_beta Let_def)

lemma guard_delete_eq:
  assumes "eh_ok e" "active g"
  shows "guard_delete run g (e, w) =
    (let s = (checked (exit_condition g) e, w) in
     if (case exit_condition g of ExitAll \<Rightarrow> True | NoException \<Rightarrow> uncaught e \<le> uncaught_then g
         | UncaughtException \<Rightarrow> uncaught_then g < uncaught e)
     then guard_call run (guard_fn g) s else Inr s)"
  using assms
  by (cases "exit_condition g")
    (simp_all add: guard_delete_def uncaught_exceptions_ok checked_def Let_def flip: not_le)

section \<open>Guards that move\<close>

text \<open>
  A guard that is moved from place to place: the guard at its last place, and those it left
  behind, the last one first.
\<close>

fun guard_moves :: "('f \<Rightarrow> 'f) \<Rightarrow> nat \<Rightarrow> 'f guard \<Rightarrow> 'f guard \<times> 'f guard list" where
  "guard_moves moved 0 g = (g, [])"
| "guard_moves moved (Suc n) g =
     (let (g', old) = guard_move moved g; (final, olds) = guard_moves moved n g' in (final, olds @ [old]))"

fun guards_delete ::
  "('f \<Rightarrow> eh \<times> 'w \<Rightarrow> (eh \<times> 'w) option) \<Rightarrow> 'f guard list \<Rightarrow> eh \<times> 'w \<Rightarrow> (eh \<times> 'w) result" where
  "guards_delete run [] s = Inr s"
| "guards_delete run (g # gs) s = bindE (guard_delete run g s) (guards_delete run gs)"

lemma guard_moves_inactive:
  "fst (guard_moves moved n g) = g \<and> list_all (\<lambda>g. \<not> active g) (snd (guard_moves moved n g))"
proof (induction n arbitrary: g)
  case (Suc n)
  then show ?case by (simp add: split_beta Let_def)
qed simp

lemma guards_delete_inactive:
  "list_all (\<lambda>g. \<not> active g) gs \<Longrightarrow> guards_delete run gs s = Inr s"
  by (induction gs) simp_all

lemma guards_delete_append:
  "guards_delete run (gs @ hs) s = bindE (guards_delete run gs s) (guards_delete run hs)"
proof (induction gs arbitrary: s)
  case (Cons g gs)
  then show ?case by (cases "guard_delete run g s") simp_all
qed simp

section \<open>Properties\<close>

text \<open>
  C16: A guarded scope, whether the temporary guard is elided or moved, calls the function once
  exactly when the exit condition is met by the way the body ends, also if exceptions were
  already uncaught before it, as in a destructor during unwinding. The call comes after the body;
  an exception of the function itself terminates the program.
\<close>

theorem guarded_fires:
  assumes "eh_ok e" "balanced body" "unat (uncaught e) + 1 < 2 ^ 32"
    "body (checked cond e, w) = (thrown, e', w')"
  shows "guarded rvalue elided run moved cond fn body (e, w) =
    (if fires cond thrown
     then case run fn (checked cond e', w') of None \<Rightarrow> Inl Terminated | Some s \<Rightarrow> Inr (thrown, s)
     else Inr (thrown, checked cond e', w'))"
proof -
  have ok: "eh_ok (checked cond e)" using assms(1) by simp
  with assms(2,4) have e': "eh_ok e'" "uncaught e' = uncaught e + (if thrown then 1 else 0)"
    unfolding balanced_def by fastforce+
  have "unat (uncaught e + 1) = unat (uncaught e) + 1" using assms(3) by (intro unat_Suc) simp
  then have "uncaught e < uncaught e + 1" "\<not> uncaught e + 1 \<le> uncaught e"
    by (simp_all add: word_less_nat_alt word_le_nat_alt)
  then show ?thesis
    using assms(4) e'
    by (cases cond)
      (auto simp: guarded_def make_scope_guard_eq [OF assms(1)] guard_delete_eq guard_call_def Let_def
        split: option.splits)
qed

text \<open>A cleanup that logs its name, and a body that throws at the second of its two writes.\<close>

definition log_call :: "string \<Rightarrow> eh \<times> string list \<Rightarrow> (eh \<times> string list) option" where
  "log_call fn s = (if fn = [] then None else Some (fst s, snd s @ [fn]))"

definition throwing_body :: "eh \<times> string list \<Rightarrow> bool \<times> eh \<times> string list" where
  "throwing_body s =
     (True, (fst s)\<lparr>uncaught := uncaught (fst s) + 1, eh_globals := True\<rparr>, snd s @ [''a'', ''b''])"

theorem guarded_fires_witness:
  "(let e = \<lparr>get_eh_globals_called = False, eh_globals = True, uncaught = 1\<rparr> in
    guarded True False log_call (\<lambda>_. []) UncaughtException ''undo'' throwing_body (e, []) =
      Inr (True, \<lparr>get_eh_globals_called = True, eh_globals = True, uncaught = 2\<rparr>, [''a'', ''b'', ''undo'']))"
proof -
  let ?e = "\<lparr>get_eh_globals_called = False, eh_globals = True, uncaught = 1\<rparr>"
  have "balanced throwing_body" by (auto simp: balanced_def throwing_body_def eh_ok_def)
  moreover have "throwing_body (checked UncaughtException ?e, []) =
      (True, \<lparr>get_eh_globals_called = True, eh_globals = True, uncaught = 2\<rparr>, [''a'', ''b''])"
    by (simp add: throwing_body_def checked_def)
  ultimately have "guarded True False log_call (\<lambda>_. []) UncaughtException ''undo'' throwing_body (?e, []) =
     (if fires UncaughtException True
      then case log_call ''undo'' (checked UncaughtException
          \<lparr>get_eh_globals_called = True, eh_globals = True, uncaught = 2\<rparr>, [''a'', ''b'']) of
        None \<Rightarrow> Inl Terminated | Some s \<Rightarrow> Inr (True, s)
      else Inr (True, checked UncaughtException
          \<lparr>get_eh_globals_called = True, eh_globals = True, uncaught = 2\<rparr>, [''a'', ''b'']))"
    by (intro guarded_fires) (simp_all add: eh_ok_def)
  then show ?thesis by (simp add: log_call_def checked_def)
qed

text \<open>
  Moving a guard any number of times and destroying the guards left behind in any places
  around the last one has the effect of destroying the unmoved guard once; if the last one is
  deactivated first, nothing at all happens.
\<close>

lemma moved_guard_fires_once:
  assumes "guard_moves moved n g = (final, before @ after)"
  shows "guards_delete run (before @ final # after) s = guard_delete run g s \<and>
    guards_delete run (before @ deactivate final # after) s = Inr s"
proof -
  have "list_all (\<lambda>g. \<not> active g) (before @ after)" "final = g"
    using guard_moves_inactive [of moved n g] assms by simp_all
  then show ?thesis
    by (cases "guard_delete run g s")
      (simp_all add: guards_delete_append guards_delete_inactive deactivate_def)
qed

text \<open>
  \<open>uncaught_exceptions\<close> keeps the thread's flag true to the runtime: it returns the counter,
  never uses the fast access before the globals exist, and later calls leave the state alone.
\<close>

lemma uncaught_exceptions_safe:
  assumes "eh_ok e"
  shows "\<exists>e'. uncaught_exceptions e = Inr (uncaught e, e') \<and> eh_ok e' \<and> uncaught e' = uncaught e \<and>
    get_eh_globals_called e' \<and> uncaught_exceptions e' = Inr (uncaught e, e')"
proof -
  let ?e = "e\<lparr>get_eh_globals_called := True, eh_globals := True\<rparr>"
  have "eh_ok ?e" by (simp add: eh_ok_def)
  then show ?thesis
    using assms by (intro exI [of _ ?e]) (simp add: uncaught_exceptions_ok)
qed

end
