(* ===== verification/Log_Types.thy ===== *)
theory Log_Types
  imports Prelude
begin

text \<open>
  \<^verbatim>\<open>include/ni/logging/common.hh\<close>, \<^verbatim>\<open>src/logging/common.cc\<close> and
  \<^verbatim>\<open>include/ni/logging/log_message.hh\<close>: severities, overflow strategies, the names of the
  error numbers and the messages. An owning pointer to a message is the message it owns.
\<close>

section \<open>Severities\<close>

datatype log_severity = Debug | Info | Notice | Warning | Error | Critical

fun severity_code :: "log_severity \<Rightarrow> nat" where
  "severity_code Debug = 0"
| "severity_code Info = 1"
| "severity_code Notice = 2"
| "severity_code Warning = 3"
| "severity_code Error = 4"
| "severity_code Critical = 5"

lemma severity_code_inj: "severity_code s = severity_code t \<longleftrightarrow> s = t"
  by (cases s; cases t) simp_all

instantiation log_severity :: linorder
begin

definition "s \<le> t \<longleftrightarrow> severity_code s \<le> severity_code t"
definition "s < t \<longleftrightarrow> severity_code s < severity_code t"

instance
  by standard (auto simp: less_eq_log_severity_def less_log_severity_def severity_code_inj)

end

definition LOG_SEVERITY_SHORT_NAMES :: string where
  "LOG_SEVERITY_SHORT_NAMES = ''DINWEC''"

definition severity_short_name :: "log_severity \<Rightarrow> char" where
  "severity_short_name s = LOG_SEVERITY_SHORT_NAMES ! severity_code s"

datatype overflow_strategy = Retry | DropMessage

section \<open>Error numbers\<close>

definition ERRNO_NAMES :: "string list" where
  "ERRNO_NAMES =
    ['''', ''EPERM'', ''ENOENT'', ''ESRCH'', ''EINTR'', ''EIO'', ''ENXIO'', ''E2BIG'',
     ''ENOEXEC'', ''EBADF'', ''ECHILD'', ''EAGAIN/EWOULDBLOCK'', ''ENOMEM'', ''EACCES'',
     ''EFAULT'', ''ENOTBLK'', ''EBUSY'', ''EEXIST'', ''EXDEV'', ''ENODEV'', ''ENOTDIR'',
     ''EISDIR'', ''EINVAL'', ''ENFILE'', ''EMFILE'', ''ENOTTY'', ''ETXTBSY'', ''EFBIG'',
     ''ENOSPC'', ''ESPIPE'', ''EROFS'', ''EMLINK'', ''EPIPE'', ''EDOM'', ''ERANGE'',
     ''EDEADLK/EDEADLOCK'', ''ENAMETOOLONG'', ''ENOLCK'', ''ENOSYS'', ''ENOTEMPTY'', ''ELOOP'',
     '''', ''ENOMSG'', ''EIDRM'', ''ECHRNG'', ''EL2NSYNC'', ''EL3HLT'', ''EL3RST'', ''ELNRNG'',
     ''EUNATCH'', ''ENOCSI'', ''EL2HLT'', ''EBADE'', ''EBADR'', ''EXFULL'', ''ENOANO'',
     ''EBADRQC'', ''EBADSLT'', '''', ''EBFONT'', ''ENOSTR'', ''ENODATA'', ''ETIME'', ''ENOSR'',
     ''ENONET'', ''ENOPKG'', ''EREMOTE'', ''ENOLINK'', ''EADV'', ''ESRMNT'', ''ECOMM'',
     ''EPROTO'', ''EMULTIHOP'', ''EDOTDOT'', ''EBADMSG'', ''EOVERFLOW'', ''ENOTUNIQ'', ''EBADFD'',
     ''EREMCHG'', ''ELIBACC'', ''ELIBBAD'', ''ELIBSCN'', ''ELIBMAX'', ''ELIBEXEC'', ''EILSEQ'',
     ''ERESTART'', ''ESTRPIPE'', ''EUSERS'', ''ENOTSOCK'', ''EDESTADDRREQ'', ''EMSGSIZE'',
     ''EPROTOTYPE'', ''ENOPROTOOPT'', ''EPROTONOSUPPORT'', ''ESOCKTNOSUPPORT'',
     ''EOPNOTSUPP/ENOTSUP'', ''EPFNOSUPPORT'', ''EAFNOSUPPORT'', ''EADDRINUSE'',
     ''EADDRNOTAVAIL'', ''ENETDOWN'', ''ENETUNREACH'', ''ENETRESET'', ''ECONNABORTED'',
     ''ECONNRESET'', ''ENOBUFS'', ''EISCONN'', ''ENOTCONN'', ''ESHUTDOWN'', ''ETOOMANYREFS'',
     ''ETIMEDOUT'', ''ECONNREFUSED'', ''EHOSTDOWN'', ''EHOSTUNREACH'', ''EALREADY'',
     ''EINPROGRESS'', ''ESTALE'', ''EUCLEAN'', ''ENOTNAM'', ''ENAVAIL'', ''EISNAM'',
     ''EREMOTEIO'', ''EDQUOT'', ''ENOMEDIUM'', ''EMEDIUMTYPE'', ''ECANCELED'', ''ENOKEY'',
     ''EKEYEXPIRED'', ''EKEYREVOKED'', ''EKEYREJECTED'', ''EOWNERDEAD'', ''ENOTRECOVERABLE'',
     ''ERFKILL'', ''EHWPOISON'']"

text \<open>\<open>NI_ERR_NAME\<close> indexes the table without a test.\<close>

definition ni_err_name :: "u32 \<Rightarrow> string result" where
  "ni_err_name errno =
     (if sint errno < 0 \<or> length ERRNO_NAMES \<le> unat errno then Inl (BadIndex (ucast errno))
      else Inr (ERRNO_NAMES ! unat errno))"

section \<open>Messages\<close>

record log_message =
  msg_logger :: addr
  msg_severity :: log_severity
  writer :: string

definition log_message_new :: "addr \<Rightarrow> log_severity \<Rightarrow> log_message" where
  "log_message_new logger severity = \<lparr>msg_logger = logger, msg_severity = severity, writer = []\<rparr>"

lemma ERRNO_NAMES_length: "length ERRNO_NAMES = 134"
  by (simp add: ERRNO_NAMES_def)

lemma ni_err_name_in_table:
  assumes "unat errno < 134"
  shows "ni_err_name errno = Inr (ERRNO_NAMES ! unat errno)"
proof -
  have "int (unat errno) < 134" using assms by linarith
  then have "uint errno < 134" by simp
  moreover have "(- (2 ^ 31) :: int) \<le> 0" "(134 :: int) < 2 ^ 31" by simp_all
  ultimately have "- (2 ^ 31) \<le> uint errno" "uint errno < 2 ^ 31" using uint_ge_0 [of errno] by linarith+
  then have "signed_take_bit 31 (uint errno) = uint errno" by (rule signed_take_bit_int_eq_self)
  then have "sint errno = uint errno" by (simp add: sint_uint)
  then show ?thesis using assms by (simp add: ni_err_name_def ERRNO_NAMES_length)
qed

end
