(* ===== verification/Log_Sink.thy ===== *)
theory Log_Sink
  imports Log_Types
begin

text \<open>
  \<^verbatim>\<open>src/logging/sink.cc\<close> with its header, and the part of \<^verbatim>\<open>src/logging/logger.cc\<close> that runs on the
  worker's side: the sinks, over a store of standard I/O streams, and the logger that owns them.
  A write to a stream cannot fail in the model; the code does not look at the results.
\<close>

section \<open>Streams\<close>

text \<open>
  A \<open>FILE\<close>: what it has written to its file, what is still in its buffer, and whether it is
  open, synced and locked by its caller.
\<close>

record stream =
  contents :: string
  buffered :: string
  is_open :: bool
  synced :: bool
  locked_by_caller :: bool

type_synonym streams = "addr \<rightharpoonup> stream"

definition stream_new :: stream where
  "stream_new = \<lparr>contents = [], buffered = [], is_open = True, synced = False, locked_by_caller = False\<rparr>"

definition stream_text :: "stream \<Rightarrow> string" where
  "stream_text st = contents st @ buffered st"

definition stream_flush :: "stream \<Rightarrow> stream" where
  "stream_flush st = st\<lparr>contents := contents st @ buffered st, buffered := []\<rparr>"

definition with_stream :: "(stream \<Rightarrow> stream) \<Rightarrow> addr \<Rightarrow> streams \<Rightarrow> streams result" where
  "with_stream f a S = (case S a of
     Some st \<Rightarrow> if is_open st then Inr (S(a \<mapsto> f st)) else Inl (BadDeref a)
   | None \<Rightarrow> Inl (BadDeref a))"

definition fwrite :: "string \<Rightarrow> addr \<Rightarrow> streams \<Rightarrow> streams result" where
  "fwrite data = with_stream (\<lambda>st. st\<lparr>buffered := buffered st @ data\<rparr>)"

text \<open>\<open>fflush\<close> of the null pointer flushes every open stream.\<close>

definition fflush :: "addr \<Rightarrow> streams \<Rightarrow> streams result" where
  "fflush a S =
     (if a = nullptr then
        Inr (\<lambda>b. map_option (\<lambda>st. if is_open st then stream_flush st else st) (S b))
      else with_stream stream_flush a S)"

definition fsync :: "addr \<Rightarrow> streams \<Rightarrow> streams result" where
  "fsync = with_stream (\<lambda>st. st\<lparr>synced := True\<rparr>)"

definition fclose :: "addr \<Rightarrow> streams \<Rightarrow> streams result" where
  "fclose = with_stream (\<lambda>st. (stream_flush st)\<lparr>is_open := False\<rparr>)"

section \<open>Sinks\<close>

text \<open>The two classes derived from \<open>Sink\<close>, with the members of each, \<open>m_level\<close> first.\<close>

datatype sink =
    StdStreamSink (sink_level: log_severity) (sink_stream: addr) (sink_unlocked: bool)
  | FileSink (sink_level: log_severity) (sink_stream: addr)

definition should_accept :: "log_severity \<Rightarrow> log_message option \<Rightarrow> bool result" where
  "should_accept level msg =
     bindE (assertE (msg \<noteq> None)) (\<lambda>_. Inr (level \<le> msg_severity (the msg)))"

definition std_sink_new :: "log_severity \<Rightarrow> addr \<Rightarrow> bool \<Rightarrow> streams \<Rightarrow> (sink \<times> streams) result" where
  "std_sink_new level stream unlocked S =
     bindE (if unlocked then with_stream (\<lambda>st. st\<lparr>locked_by_caller := True\<rparr>) stream S else Inr S)
       (\<lambda>S. Inr (StdStreamSink level stream unlocked, S))"

definition file_sink_new :: "log_severity \<Rightarrow> sink" where
  "file_sink_new level = FileSink level nullptr"

definition std_sink_write :: "log_severity \<Rightarrow> addr \<Rightarrow> log_message option \<Rightarrow> streams \<Rightarrow> streams result" where
  [simp]: "std_sink_write level stream msg S =
     bindE (assertE (msg \<noteq> None)) (\<lambda>_.
     bindE (should_accept level msg) (\<lambda>ok.
     if ok then fwrite (writer (the msg)) stream S else Inr S))"

definition file_sink_write :: "log_severity \<Rightarrow> addr \<Rightarrow> log_message option \<Rightarrow> streams \<Rightarrow> streams result" where
  [simp]: "file_sink_write level stream msg S =
     bindE (assertE (stream \<noteq> nullptr)) (\<lambda>_.
     bindE (assertE (msg \<noteq> None)) (\<lambda>_.
     bindE (should_accept level msg) (\<lambda>ok.
     if ok then fwrite (writer (the msg)) stream S else Inr S)))"

definition std_sink_flush :: "addr \<Rightarrow> streams \<Rightarrow> streams result" where
  [simp]: "std_sink_flush stream S = fflush stream S"

definition file_sink_flush :: "addr \<Rightarrow> streams \<Rightarrow> streams result" where
  [simp]: "file_sink_flush stream S = fflush stream S"

definition std_sink_delete :: "addr \<Rightarrow> streams \<Rightarrow> streams result" where
  [simp]: "std_sink_delete stream S = std_sink_flush stream S"

definition file_sink_delete :: "addr \<Rightarrow> streams \<Rightarrow> streams result" where
  [simp]: "file_sink_delete stream S =
     (if stream \<noteq> nullptr then
        bindE (file_sink_flush stream S) (\<lambda>S. bindE (fsync stream S) (fclose stream))
      else Inr S)"

text \<open>The virtual member functions and the virtual destructor.\<close>

fun sink_write :: "sink \<Rightarrow> log_message option \<Rightarrow> streams \<Rightarrow> streams result" where
  "sink_write (StdStreamSink level stream unlocked) msg S = std_sink_write level stream msg S"
| "sink_write (FileSink level stream) msg S = file_sink_write level stream msg S"

fun sink_flush :: "sink \<Rightarrow> streams \<Rightarrow> streams result" where
  "sink_flush (StdStreamSink level stream unlocked) S = std_sink_flush stream S"
| "sink_flush (FileSink level stream) S = file_sink_flush stream S"

fun sink_delete :: "sink \<Rightarrow> streams \<Rightarrow> streams result" where
  "sink_delete (StdStreamSink level stream unlocked) S = std_sink_delete stream S"
| "sink_delete (FileSink level stream) S = file_sink_delete stream S"

text \<open>
  \<open>FileSink::open\<close> on a descriptor: \<open>rc\<close> is what \<open>posix_fadvise\<close> returns and \<open>file\<close> what
  \<open>fdopen\<close> does. The results are the value returned and what is printed to \<open>stderr\<close>, here
  without the coloured prefix and the position, and the sink and streams left.
\<close>

definition file_sink_open ::
  "int \<Rightarrow> addr \<Rightarrow> u32 \<Rightarrow> sink \<Rightarrow> streams \<Rightarrow> (int \<times> string \<times> sink \<times> streams) result" where
  "file_sink_open rc file errno sink S =
     (if rc = - 1 then
        bindE (ni_err_name errno) (\<lambda>_. Inr (- 1, ''posix_fadvise: %s'', sink, S))
      else if file = nullptr then
        bindE (ni_err_name errno) (\<lambda>name. Inl (FatalExit (''fdopen: '' @ name)))
      else Inr (0, [], FileSink (sink_level sink) file, S(file \<mapsto> stream_new)))"

text \<open>\<open>FileSink::open\<close> on a file name; \<open>fd\<close> is what \<open>::open\<close> returns.\<close>

definition file_sink_open_name ::
  "int \<Rightarrow> int \<Rightarrow> addr \<Rightarrow> u32 \<Rightarrow> string \<Rightarrow> sink \<Rightarrow> streams \<Rightarrow>
    (int \<times> string \<times> sink \<times> streams) result" where
  "file_sink_open_name fd rc file errno filename sink S =
     (if fd = - 1 then
        bindE (ni_err_name errno) (\<lambda>name. Inl (FatalExit (''Failed to open '' @ filename @ '': '' @ name)))
      else
        bindE (file_sink_open rc file errno sink S) (\<lambda>(r, out).
        Inr (if r = - 1 then - 1 else fd, out)))"

section \<open>Loggers\<close>

text \<open>
  \<open>m_output\<close> is the bus the logger is connected to; a null pointer among the sinks is \<open>None\<close>.
\<close>

record logger =
  m_level :: log_severity
  m_output :: addr
  m_overflow_strategy :: overflow_strategy
  m_sinks :: "sink option list"

definition logger_new :: "log_severity \<Rightarrow> overflow_strategy \<Rightarrow> logger" where
  "logger_new level overflow_strategy =
     \<lparr>m_level = level, m_output = nullptr, m_overflow_strategy = overflow_strategy, m_sinks = []\<rparr>"

definition logger_connect :: "addr \<Rightarrow> logger \<Rightarrow> logger" where
  "logger_connect msg_bus l = l\<lparr>m_output := msg_bus\<rparr>"

definition add_sink :: "sink option \<Rightarrow> logger \<Rightarrow> logger" where
  "add_sink sink l = l\<lparr>m_sinks := m_sinks l @ [sink]\<rparr>"

fun sinks_write :: "sink option list \<Rightarrow> log_message option \<Rightarrow> streams \<Rightarrow> streams result" where
  "sinks_write [] msg S = Inr S"
| "sinks_write (sink # sinks) msg S =
     bindE (assertE (sink \<noteq> None)) (\<lambda>_.
     bindE (sink_write (the sink) msg S) (sinks_write sinks msg))"

definition logger_save :: "log_message option \<Rightarrow> logger \<Rightarrow> streams \<Rightarrow> streams result" where
  "logger_save message l S =
     bindE (assertE (message \<noteq> None)) (\<lambda>_. sinks_write (m_sinks l) message S)"

fun sinks_flush :: "sink option list \<Rightarrow> streams \<Rightarrow> streams result" where
  "sinks_flush [] S = Inr S"
| "sinks_flush (None # sinks) S = Inl (BadDeref nullptr)"
| "sinks_flush (Some sink # sinks) S = bindE (sink_flush sink S) (sinks_flush sinks)"

definition logger_flush :: "logger \<Rightarrow> streams \<Rightarrow> streams result" where
  "logger_flush l S = sinks_flush (m_sinks l) S"

fun sinks_delete :: "sink option list \<Rightarrow> streams \<Rightarrow> streams result" where
  "sinks_delete [] S = Inr S"
| "sinks_delete (None # sinks) S = sinks_delete sinks S"
| "sinks_delete (Some sink # sinks) S = bindE (sink_delete sink S) (sinks_delete sinks)"

text \<open>The destructor flushes; the vector then deletes the sinks.\<close>

definition logger_delete :: "logger \<Rightarrow> streams \<Rightarrow> streams result" where
  "logger_delete l S = bindE (logger_flush l S) (sinks_delete (m_sinks l))"

section \<open>What the sinks of a logger write\<close>

text \<open>
  The text one message adds to a stream: once for every sink on the stream that accepts it.
  \<open>sinks_ok\<close> holds while every sink is there, with an open stream.
\<close>

definition added :: "addr \<Rightarrow> sink list \<Rightarrow> log_message \<Rightarrow> string" where
  "added a sinks msg =
     concat (map (\<lambda>s. if sink_stream s = a \<and> sink_level s \<le> msg_severity msg then writer msg else []) sinks)"

definition sink_ok :: "streams \<Rightarrow> sink \<Rightarrow> bool" where
  "sink_ok S s \<longleftrightarrow> sink_stream s \<noteq> nullptr \<and> (\<exists>st. S (sink_stream s) = Some st \<and> is_open st)"

definition logger_ok :: "streams \<Rightarrow> logger \<Rightarrow> bool" where
  "logger_ok S l \<longleftrightarrow> (\<forall>s\<in>set (m_sinks l). \<exists>k. s = Some k \<and> sink_ok S k)"

definition sinks_of :: "logger \<Rightarrow> sink list" where
  "sinks_of l = map the (m_sinks l)"

lemma logger_ok_sinks:
  assumes "logger_ok S l"
  shows "m_sinks l = map Some (sinks_of l)" "list_all (sink_ok S) (sinks_of l)"
proof -
  have "map (\<lambda>s. Some (the s)) (m_sinks l) = map id (m_sinks l)"
    using assms by (intro map_cong) (auto simp: logger_ok_def)
  then show "m_sinks l = map Some (sinks_of l)" by (simp add: sinks_of_def comp_def)
  show "list_all (sink_ok S) (sinks_of l)"
    using assms by (auto simp: logger_ok_def sinks_of_def list_all_iff)
qed

text \<open>Appending to the buffers of some streams, and flushing some of them.\<close>

definition buffer_more :: "(addr \<Rightarrow> string) \<Rightarrow> streams \<Rightarrow> streams" where
  "buffer_more t S = (\<lambda>a. map_option (\<lambda>st. st\<lparr>buffered := buffered st @ t a\<rparr>) (S a))"

definition flush_those :: "addr set \<Rightarrow> streams \<Rightarrow> streams" where
  "flush_those A S = (\<lambda>a. map_option (\<lambda>st. if a \<in> A then stream_flush st else st) (S a))"

lemma buffer_more_nil: "buffer_more (\<lambda>_. []) S = S"
  by (auto simp: buffer_more_def option.map_ident)

lemma buffer_more_append: "buffer_more u (buffer_more t S) = buffer_more (\<lambda>a. t a @ u a) S"
  by (auto simp: buffer_more_def option.map_comp comp_def)

lemma flush_those_empty: "flush_those {} S = S"
  by (auto simp: flush_those_def option.map_ident)

lemma stream_flush_idem: "stream_flush (stream_flush st) = stream_flush st"
  by (simp add: stream_flush_def)

lemma flush_those_insert: "flush_those A (flush_those {a} S) = flush_those (insert a A) S"
  by (rule ext) (auto simp: flush_those_def option.map_comp comp_def stream_flush_idem intro!: map_option_cong)

lemma sink_ok_more [simp]: "sink_ok (buffer_more t S) s = sink_ok S s"
  by (auto simp: sink_ok_def buffer_more_def)

lemma sink_ok_flush [simp]: "sink_ok (flush_those A S) s = sink_ok S s"
  by (cases "S (sink_stream s)") (auto simp: sink_ok_def flush_those_def stream_flush_def)

lemma sink_write_ok:
  assumes "sink_ok S s"
  shows "sink_write s (Some msg) S = Inr (buffer_more (\<lambda>a. added a [s] msg) S)"
proof -
  obtain st where st: "S (sink_stream s) = Some st" "is_open st" using assms by (auto simp: sink_ok_def)
  have more: "fwrite (writer msg) (sink_stream s) S =
      Inr (buffer_more (\<lambda>a. if a = sink_stream s then writer msg else []) S)"
    using st by (auto simp: fwrite_def with_stream_def buffer_more_def fun_eq_iff option.map_ident)
  show ?thesis
  proof (cases "sink_level s \<le> msg_severity msg")
    case True
    have "(\<lambda>a. added a [s] msg) = (\<lambda>a. if a = sink_stream s then writer msg else [])"
      using True by (auto simp: added_def)
    then show ?thesis
      using assms more True by (cases s) (auto simp: should_accept_def sink_ok_def)
  next
    case False
    then have "(\<lambda>a. added a [s] msg) = (\<lambda>a. [])" by (auto simp: added_def)
    then show ?thesis
      using assms False by (cases s) (auto simp: should_accept_def sink_ok_def buffer_more_nil)
  qed
qed

lemma sinks_write_ok:
  "list_all (sink_ok S) sinks \<Longrightarrow>
   sinks_write (map Some sinks) (Some msg) S = Inr (buffer_more (\<lambda>a. added a sinks msg) S)"
proof (induction sinks arbitrary: S)
  case Nil
  then show ?case by (simp add: added_def buffer_more_nil)
next
  case (Cons s sinks)
  have "added a (s # sinks) msg = added a [s] msg @ added a sinks msg" for a by (simp add: added_def)
  then show ?case using Cons by (simp add: sink_write_ok buffer_more_append)
qed

lemma sink_flush_ok:
  assumes "sink_ok S s"
  shows "sink_flush s S = Inr (flush_those {sink_stream s} S)"
proof -
  obtain st where "S (sink_stream s) = Some st" "is_open st" using assms by (auto simp: sink_ok_def)
  then have "fflush (sink_stream s) S = Inr (flush_those {sink_stream s} S)"
    using assms
    by (auto simp: fflush_def sink_ok_def with_stream_def flush_those_def fun_eq_iff option.map_ident)
  then show ?thesis by (cases s) simp_all
qed

lemma sinks_flush_ok:
  "list_all (sink_ok S) sinks \<Longrightarrow> sinks_flush (map Some sinks) S = Inr (flush_those (sink_stream ` set sinks) S)"
proof (induction sinks arbitrary: S)
  case (Cons s sinks)
  then show ?case by (simp add: sink_flush_ok flush_those_insert)
qed (simp add: flush_those_empty)

text \<open>A sequence of \<open>save\<close> calls and one \<open>flush\<close>.\<close>

fun logger_saves :: "log_message list \<Rightarrow> logger \<Rightarrow> streams \<Rightarrow> streams result" where
  "logger_saves [] l S = Inr S"
| "logger_saves (m # ms) l S = bindE (logger_save (Some m) l S) (logger_saves ms l)"

lemma logger_saves_ok:
  "logger_ok S l \<Longrightarrow>
   logger_saves ms l S = Inr (buffer_more (\<lambda>a. concat (map (added a (sinks_of l)) ms)) S)"
proof (induction ms arbitrary: S)
  case Nil
  then show ?case by (simp add: buffer_more_nil)
next
  case (Cons m ms)
  have "logger_save (Some m) l S = Inr (buffer_more (\<lambda>a. added a (sinks_of l) m) S)"
    using logger_ok_sinks [OF Cons.prems] by (simp add: logger_save_def sinks_write_ok)
  moreover have "logger_ok (buffer_more t S) l" for t using Cons.prems by (simp add: logger_ok_def)
  ultimately show ?case using Cons.IH by (simp add: buffer_more_append)
qed

section \<open>Properties\<close>

text \<open>
  C20: Saving any sequence of messages with a logger all of whose sinks have open streams, and
  flushing, writes to the file of every sink's stream exactly the texts of the messages the sink
  accepts, in order (once per sink, where sinks share a stream), behind what was buffered before,
  leaves nothing in the buffers of these streams and does not touch any other stream.
\<close>

theorem logger_writes_accepted:
  assumes "logger_ok S l"
  shows "bindE (logger_saves ms l S) (logger_flush l) =
    Inr (\<lambda>a. case S a of None \<Rightarrow> None | Some st \<Rightarrow>
      Some (if a \<in> sink_stream ` set (sinks_of l)
        then st\<lparr>contents := stream_text st @ concat (map (added a (sinks_of l)) ms), buffered := []\<rparr>
        else st))"
proof -
  let ?t = "\<lambda>a. concat (map (added a (sinks_of l)) ms)"
  have ok: "list_all (sink_ok (buffer_more ?t S)) (sinks_of l)"
    using logger_ok_sinks(2) [OF assms] by (simp add: list_all_iff)
  have none: "?t a = []" if "a \<notin> sink_stream ` set (sinks_of l)" for a
    using that by (force simp: added_def)
  have "bindE (logger_saves ms l S) (logger_flush l) =
      Inr (flush_those (sink_stream ` set (sinks_of l)) (buffer_more ?t S))"
    using logger_ok_sinks(1) [OF assms] sinks_flush_ok [OF ok]
    by (simp add: logger_saves_ok [OF assms] logger_flush_def)
  also have "flush_those (sink_stream ` set (sinks_of l)) (buffer_more ?t S) =
    (\<lambda>a. case S a of None \<Rightarrow> None | Some st \<Rightarrow>
      Some (if a \<in> sink_stream ` set (sinks_of l)
        then st\<lparr>contents := stream_text st @ ?t a, buffered := []\<rparr> else st))"
    by (rule ext)
      (simp add: flush_those_def buffer_more_def stream_flush_def stream_text_def none split: option.split)
  finally show ?thesis .
qed

theorem logger_writes_accepted_witness:
  "let l = \<lparr>m_level = Debug, m_output = 0, m_overflow_strategy = Retry,
      m_sinks = [Some (StdStreamSink Info 8 True), Some (FileSink Error 16)]\<rparr>;
     S = [8 \<mapsto> stream_new, 16 \<mapsto> stream_new];
     ms = [\<lparr>msg_logger = 1, msg_severity = Info, writer = ''a''\<rparr>,
       \<lparr>msg_logger = 1, msg_severity = Critical, writer = ''b''\<rparr>] in
   \<exists>S'. bindE (logger_saves ms l S) (logger_flush l) = Inr S' \<and>
     map_option contents (S' 8) = Some ''ab'' \<and> map_option contents (S' 16) = Some ''b''"
proof -
  let ?l = "\<lparr>m_level = Debug, m_output = 0, m_overflow_strategy = Retry,
      m_sinks = [Some (StdStreamSink Info 8 True), Some (FileSink Error 16)]\<rparr>"
  let ?S = "[8 \<mapsto> stream_new, 16 \<mapsto> stream_new] :: streams"
  let ?ms = "[\<lparr>msg_logger = 1, msg_severity = Info, writer = ''a''\<rparr>,
       \<lparr>msg_logger = 1, msg_severity = Critical, writer = ''b''\<rparr>]"
  have "logger_ok ?S ?l" by (simp add: logger_ok_def sink_ok_def stream_new_def)
  note logger_writes_accepted [OF this, of ?ms]
  then show ?thesis
    by (simp add: Let_def sinks_of_def added_def stream_new_def stream_text_def less_eq_log_severity_def)
qed



end
