(* ===== verification/Log_Capture.thy ===== *)
theory Log_Capture
  imports Log_Sink
begin

text \<open>
  \<^verbatim>\<open>include/ni/logging/capture.hh\<close> and the logging macros of \<^verbatim>\<open>include/ni/logging/logging.hh\<close>: a
  statement such as \<open>LOG_INFO(logger) << x << y;\<close> builds one message and hands it to the logger.
  The formatting library is not part of the repository; what it makes of the values it is given
  are parameters.
\<close>

section \<open>Parameters\<close>

text \<open>
  Integers, padded integers, values of any type \<open>'v\<close> that \<open>writer << value\<close> accepts, and
  formatted lists of values. \<open>fmt_write\<close> gives what \<open>writer.write\<close> has appended when it
  returns, or throws, as its second result says.
\<close>

record 'v fmt_lib =
  fmt_int :: "int \<Rightarrow> string"
  fmt_pad :: "int \<Rightarrow> nat \<Rightarrow> char \<Rightarrow> string"
  fmt_value :: "'v \<Rightarrow> string"
  fmt_write :: "string \<Rightarrow> 'v list \<Rightarrow> string \<times> bool"

text \<open>What \<open>clock_gettime\<close> and \<open>localtime_r\<close> fill in.\<close>

record tm =
  tm_year :: int
  tm_mon :: int
  tm_mday :: int
  tm_hour :: int
  tm_min :: int
  tm_sec :: int
  tv_nsec :: int

section \<open>Capture\<close>

record capture =
  cap_logger :: addr
  cap_enabled :: bool
  cap_message :: "log_message option"

definition write_message :: "string \<Rightarrow> capture \<Rightarrow> capture" where
  "write_message s c = c\<lparr>cap_message := map_option (\<lambda>m. m\<lparr>writer := writer m @ s\<rparr>) (cap_message c)\<rparr>"

definition capture_header ::
  "'v fmt_lib \<Rightarrow> tm \<Rightarrow> log_severity \<Rightarrow> string \<Rightarrow> int \<Rightarrow> string" where
  "capture_header F now severity file line =
     fmt_int F (1900 + tm_year now) @ ''-'' @
     fmt_pad F (tm_mon now + 1) 2 CHR ''0'' @ ''-'' @
     fmt_pad F (tm_mday now) 2 CHR ''0'' @ '' '' @
     fmt_pad F (tm_hour now) 2 CHR ''0'' @ '':'' @
     fmt_pad F (tm_min now) 2 CHR ''0'' @ '':'' @
     fmt_pad F (tm_sec now) 2 CHR ''0'' @ ''.'' @
     fmt_pad F (tv_nsec now div 1000000) 3 CHR ''0'' @ '' '' @
     [severity_short_name severity] @
     '' ['' @ file @ '':'' @ fmt_int F line @ ''] ''"

text \<open>
  The constructor. \<open>loggers\<close> is the heap of loggers and \<open>now\<close> the time, \<open>None\<close> when
  \<open>clock_gettime\<close> fails with \<open>errno\<close>.
\<close>

definition capture_new ::
  "'v fmt_lib \<Rightarrow> (addr \<rightharpoonup> logger) \<Rightarrow> addr \<Rightarrow> log_severity \<Rightarrow> string \<Rightarrow> int \<Rightarrow> u32 \<Rightarrow> tm option \<Rightarrow>
    capture result" where
  "capture_new F loggers logger severity file line errno now =
     bindE
       (if logger = nullptr then Inr False
        else case loggers logger of
          None \<Rightarrow> Inl (BadDeref logger)
        | Some l \<Rightarrow> Inr (m_level l \<le> severity))
       (\<lambda>enabled.
     let c = \<lparr>cap_logger = logger, cap_enabled = enabled, cap_message = None\<rparr> in
     if \<not> enabled then Inr c
     else
       let c = c\<lparr>cap_message := Some (log_message_new logger severity)\<rparr> in
       case now of
         None \<Rightarrow> bindE (ni_err_name errno) (\<lambda>name. Inl (FatalExit (''clock_gettime: '' @ name)))
       | Some t \<Rightarrow> Inr (write_message (capture_header F t severity file line) c))"

text \<open>
  The inserters: those for the listed types and format specifications write the value itself, the
  generic one formats it with \<open>{}\<close>, and \<open>log\<close> formats its arguments. The flag says whether the
  call throws.
\<close>

datatype 'v log_input = Insert 'v | InsertAny 'v | Log string "'v list"

fun capture_input :: "'v fmt_lib \<Rightarrow> 'v log_input \<Rightarrow> capture \<Rightarrow> bool \<times> capture" where
  "capture_input F (Insert v) c =
     (if cap_enabled c then (False, write_message (fmt_value F v) c) else (False, c))"
| "capture_input F (InsertAny v) c =
     (if cap_enabled c then
        (let (s, thrown) = fmt_write F ''{}'' [v] in (thrown, write_message s c))
      else (False, c))"
| "capture_input F (Log fmt vs) c =
     (if cap_enabled c then
        (let (s, thrown) = fmt_write F fmt vs in (thrown, write_message s c))
      else (False, c))"

text \<open>The destructor hands over the message, where there is one, to \<open>Logger::log\<close>.\<close>

definition capture_delete :: "capture \<Rightarrow> log_message option" where
  "capture_delete c =
     (if cap_enabled c then cap_message (write_message [CHR 0x0A] c) else None)"

section \<open>Logging statements\<close>

fun capture_inputs :: "'v fmt_lib \<Rightarrow> 'v log_input list \<Rightarrow> capture \<Rightarrow> bool \<times> capture" where
  "capture_inputs F [] c = (False, c)"
| "capture_inputs F (i # is) c =
     (let (thrown, c) = capture_input F i c in if thrown then (True, c) else capture_inputs F is c)"

text \<open>
  \<open>LOG_LEVEL(LOGGER, LEVEL) << \<dots>\<close> and \<open>LOGF_LEVEL(LOGGER, LEVEL, \<dots>)\<close>: the temporary capture is
  destroyed at the end of the statement, or when an inserter throws.
\<close>

definition log_statement ::
  "'v fmt_lib \<Rightarrow> (addr \<rightharpoonup> logger) \<Rightarrow> addr \<Rightarrow> log_severity \<Rightarrow> string \<Rightarrow> int \<Rightarrow> u32 \<Rightarrow> tm option \<Rightarrow>
    'v log_input list \<Rightarrow> (bool \<times> log_message option) result" where
  "log_statement F loggers logger severity file line errno now is =
     bindE (capture_new F loggers logger severity file line errno now) (\<lambda>c.
     let (thrown, c) = capture_inputs F is c in Inr (thrown, capture_delete c))"

section \<open>Properties\<close>

text \<open>What one input writes and whether it throws, and the same for the inputs up to a throw.\<close>

fun input_text :: "'v fmt_lib \<Rightarrow> 'v log_input \<Rightarrow> string \<times> bool" where
  "input_text F (Insert v) = (fmt_value F v, False)"
| "input_text F (InsertAny v) = fmt_write F ''{}'' [v]"
| "input_text F (Log fmt vs) = fmt_write F fmt vs"

fun until_throw :: "('a \<Rightarrow> bool) \<Rightarrow> 'a list \<Rightarrow> 'a list" where
  "until_throw throws [] = []"
| "until_throw throws (i # is) = i # (if throws i then [] else until_throw throws is)"

lemma capture_input_disabled: "\<not> cap_enabled c \<Longrightarrow> capture_inputs F is c = (False, c)"
proof (induction "is")
  case (Cons i "is")
  then show ?case by (cases i) simp_all
qed simp

lemma capture_input_enabled:
  "cap_enabled c \<Longrightarrow> capture_input F i c = (snd (input_text F i), write_message (fst (input_text F i)) c)"
  by (cases i) (simp_all add: split_beta Let_def)

lemma write_message_simps [simp]:
  "cap_enabled (write_message s c) = cap_enabled c"
  "write_message t (write_message s c) = write_message (s @ t) c"
  by (cases "cap_message c"; simp add: write_message_def)+

lemma capture_inputs_enabled:
  "cap_enabled c \<Longrightarrow> capture_inputs F is c =
    (\<exists>i\<in>set is. snd (input_text F i),
     write_message (concat (map (fst \<circ> input_text F) (until_throw (snd \<circ> input_text F) is))) c)"
proof (induction "is" arbitrary: c)
  case Nil
  then show ?case by (cases "cap_message c") (simp_all add: write_message_def)
next
  case (Cons i "is")
  then show ?case by (simp add: capture_input_enabled split_beta Let_def)
qed

text \<open>
  C30: A logging statement, on every branch: with no logger, or a severity below the logger's
  level, nothing is formatted, thrown or sent; otherwise one message is sent, also when an
  inserter throws, whose text is the header, what the inputs wrote up to the first throw, and one
  newline; if the clock fails the process exits and nothing is sent.
\<close>

theorem log_statement_sends:
  assumes "logger = nullptr \<or> loggers logger = Some l"
  shows "log_statement F loggers logger severity file line errno now is =
    (if logger = nullptr \<or> severity < m_level l then Inr (False, None)
     else case now of
       None \<Rightarrow> bindE (ni_err_name errno) (\<lambda>name. Inl (FatalExit (''clock_gettime: '' @ name)))
     | Some t \<Rightarrow> Inr (\<exists>i\<in>set is. snd (input_text F i),
         Some \<lparr>msg_logger = logger, msg_severity = severity,
           writer = capture_header F t severity file line @
             concat (map (fst \<circ> input_text F) (until_throw (snd \<circ> input_text F) is)) @ [CHR 0x0A]\<rparr>))"
proof (cases "logger = nullptr \<or> severity < m_level l")
  case True
  then show ?thesis
    using assms
    by (auto simp: log_statement_def capture_new_def capture_input_disabled capture_delete_def not_le
      split: if_splits)
next
  case False
  then have "logger \<noteq> nullptr" "m_level l \<le> severity" "loggers logger = Some l" using assms by auto
  then show ?thesis
    by (cases now)
      (auto simp: log_statement_def capture_new_def capture_inputs_enabled capture_delete_def
        write_message_def log_message_new_def bindE_def split: sum.splits)
qed

text \<open>A formatter of single digits, whose \<open>write\<close> throws on an empty format.\<close>

definition digit_fmt :: "string fmt_lib" where
  "digit_fmt = \<lparr>fmt_int = \<lambda>i. [''0123456789'' ! nat (i mod 10)], fmt_pad = \<lambda>i n c. [''0123456789'' ! nat (i mod 10)],
     fmt_value = id, fmt_write = \<lambda>fmt vs. (concat vs, fmt = [])\<rparr>"

theorem log_statement_sends_witness:
  "map_option msg_severity (snd (projr (log_statement digit_fmt [8 \<mapsto> logger_new Info Retry] 8 Error ''f.cc'' 5 0
     (Some \<lparr>tm_year = 125, tm_mon = 0, tm_mday = 9, tm_hour = 1, tm_min = 2, tm_sec = 3, tv_nsec = 4000000\<rparr>)
     [Insert ''a'', Log [] [''b''], Insert ''c'']))) = Some Error \<and>
   map_option writer (snd (projr (log_statement digit_fmt [8 \<mapsto> logger_new Info Retry] 8 Error ''f.cc'' 5 0
     (Some \<lparr>tm_year = 125, tm_mon = 0, tm_mday = 9, tm_hour = 1, tm_min = 2, tm_sec = 3, tv_nsec = 4000000\<rparr>)
     [Insert ''a'', Log [] [''b''], Insert ''c'']))) = Some (''5-1-9 1:2:3.4 E [f.cc:5] ab'' @ [CHR 0x0A])"
proof -
  note log_statement_sends [of 8 "[8 \<mapsto> logger_new Info Retry]" "logger_new Info Retry"
    digit_fmt Error "''f.cc''" 5 0
    "Some \<lparr>tm_year = 125, tm_mon = 0, tm_mday = 9, tm_hour = 1, tm_min = 2, tm_sec = 3, tv_nsec = 4000000\<rparr>"
    "[Insert ''a'', Log [] [''b''], Insert ''c'']"]
  then show ?thesis
    by (simp add: digit_fmt_def logger_new_def less_log_severity_def capture_header_def
        severity_short_name_def LOG_SEVERITY_SHORT_NAMES_def)
qed

end
