(* ===== verification/Log_Bus.thy ===== *)
theory Log_Bus
  imports Ring_Buffer Log_Sink
begin

text \<open>
  \<^verbatim>\<open>src/logging/message_bus.cc\<close> and \<^verbatim>\<open>include/ni/futex.hh\<close>: the channels from the logging
  threads to the worker. A channel is a ring of pointers to messages; since each of these pointers
  owns its message, the ring holds the messages themselves, with \<open>None\<close> for the null pointer.
  Channels have addresses, because the bus and the thread that writes to one share it.
\<close>

section \<open>State\<close>

type_synonym channel = "log_message option ring"

record bus =
  bus_queue_size :: u64
  bus_channels :: "addr list"
  bus_pending :: "addr ring"
  bus_futex :: u32
  chans :: "addr \<rightharpoonup> channel"

definition bus_new :: "int \<Rightarrow> u64 \<Rightarrow> bus result" where
  "bus_new rc queue_size =
     bindE (ptr_ring_new rc 4) (\<lambda>pending.
     Inr \<lparr>bus_queue_size = queue_size, bus_channels = [], bus_pending = pending, bus_futex = 0,
       chans = Map.empty\<rparr>)"

section \<open>Channels\<close>

text \<open>
  \<open>get_input_channel\<close> creates a channel, at the address \<open>a\<close>, and then offers it until the
  ring of pending channels takes it.
\<close>

definition channel_create :: "int \<Rightarrow> addr \<Rightarrow> bus \<Rightarrow> bus result" where
  "channel_create rc a b =
     bindE (ring_new None (FillInt None) rc [] (bus_queue_size b)) (\<lambda>ch.
     Inr (b\<lparr>chans := (chans b)(a \<mapsto> ch)\<rparr>))"

definition offer_channel :: "addr \<Rightarrow> bus \<Rightarrow> bool \<times> bus" where
  "offer_channel a b =
     (let (ok, pending) = ring_push nullptr a (bus_pending b) in (ok, b\<lparr>bus_pending := pending\<rparr>))"

text \<open>
  One turn of the loop of \<open>collect_pending_channels\<close>; the result says whether the loop goes on.
\<close>

definition collect_one :: "bus \<Rightarrow> bool \<times> bus" where
  "collect_one b =
     (let (channel, pending) = ring_pop nullptr (bus_pending b) in
      if channel = nullptr then (False, b\<lparr>bus_pending := pending\<rparr>)
      else (True, b\<lparr>bus_pending := pending, bus_channels := bus_channels b @ [channel]\<rparr>))"

definition channel_push :: "addr \<Rightarrow> log_message \<Rightarrow> bus \<Rightarrow> (bool \<times> bus) result" where
  "channel_push a msg b = (case chans b a of
     None \<Rightarrow> Inl (BadDeref a)
   | Some ch \<Rightarrow> let (ok, ch) = ring_push None (Some msg) ch in
       Inr (ok, b\<lparr>chans := (chans b)(a \<mapsto> ch)\<rparr>))"

definition channel_pop :: "addr \<Rightarrow> bus \<Rightarrow> (log_message option \<times> bus) result" where
  "channel_pop a b = (case chans b a of
     None \<Rightarrow> Inl (BadDeref a)
   | Some ch \<Rightarrow> let (msg, ch) = ring_pop None ch in
       Inr (msg, b\<lparr>chans := (chans b)(a \<mapsto> ch)\<rparr>))"

section \<open>The futex\<close>

text \<open>
  The accesses of \<open>notify\<close>, in order, each telling whether \<open>notify\<close> goes on, and what \<open>wait\<close>
  does: it clears the futex and then sleeps if, at that moment, it finds it cleared.
\<close>

definition notify_load :: "bus \<Rightarrow> bool" where
  "notify_load b \<longleftrightarrow> bus_futex b = 0"

definition notify_exchange :: "bus \<Rightarrow> bool \<times> bus" where
  "notify_exchange b = (bus_futex b = 0, b\<lparr>bus_futex := 1\<rparr>)"

definition wait_store :: "bus \<Rightarrow> bus" where
  "wait_store b = b\<lparr>bus_futex := 0\<rparr>"

definition futex_sleeps :: "u32 \<Rightarrow> bus \<Rightarrow> bool" where
  "futex_sleeps expected b \<longleftrightarrow> bus_futex b = expected"

text \<open>
  \<open>Futex::wait\<close> returns whether it was woken or did not have to sleep; \<open>MessageBus::wait\<close> tries
  again if that is so and \<open>errno\<close>, which a successful call leaves as it was, is \<open>EINTR\<close>.
\<close>

datatype futex_return = Woken | WouldBlock | Interrupted

definition EINTR :: u32 where "EINTR = 4"
definition EWOULDBLOCK :: u32 where "EWOULDBLOCK = 11"

definition futex_wait_result :: "futex_return \<Rightarrow> u32 \<Rightarrow> bool \<times> u32" where
  "futex_wait_result r errno = (case r of
     Woken \<Rightarrow> (True, errno) | WouldBlock \<Rightarrow> (True, EWOULDBLOCK) | Interrupted \<Rightarrow> (False, EINTR))"

definition wait_again :: "futex_return \<Rightarrow> u32 \<Rightarrow> bool" where
  "wait_again r errno = (let (rv, errno) = futex_wait_result r errno in rv \<and> errno = EINTR)"

section \<open>What the operations do to the queues\<close>

definition queue_rep :: "bus \<Rightarrow> addr \<Rightarrow> log_message list \<Rightarrow> bool" where
  "queue_rep b a xs \<longleftrightarrow> (\<exists>ch. chans b a = Some ch \<and> ring_rep None ch (map Some xs))"

lemma queue_rep_unique:
  assumes "queue_rep b a xs" "queue_rep b a ys"
  shows "xs = ys"
proof -
  obtain ch where ch: "chans b a = Some ch" "ring_rep None ch (map Some xs)"
    using assms(1) by (auto simp: queue_rep_def)
  then have "ring_rep None ch (map Some ys)" using assms(2) by (auto simp: queue_rep_def)
  then have "map Some xs = map Some ys"
    using ring_rep_contents [OF ch(2)] ring_rep_contents by fastforce
  then show ?thesis by (simp add: inj_map_eq_map)
qed

lemma queue_rep_cong: "chans b a = chans b' a \<Longrightarrow> queue_rep b a xs = queue_rep b' a xs"
  by (simp add: queue_rep_def)

lemma channel_create_rep:
  assumes "channel_create rc a b = Inr b'"
  shows "\<exists>ch. b' = b\<lparr>chans := (chans b)(a \<mapsto> ch)\<rparr> \<and> queue_rep b' a []"
proof -
  obtain ch where "ring_new None (FillInt None) rc [] (bus_queue_size b) = Inr ch"
    "b' = b\<lparr>chans := (chans b)(a \<mapsto> ch)\<rparr>"
    using assms by (auto simp: channel_create_def bindE_Inr_iff)
  moreover from this(1) have "ring_rep None ch []"
    using ring_new_Inr [of None "FillInt None"] by (auto simp: fills_empty_def)
  ultimately show ?thesis by (auto simp: queue_rep_def)
qed

lemma channel_push_rep:
  assumes "queue_rep b a xs"
  shows "\<exists>ok ch. channel_push a msg b = Inr (ok, b\<lparr>chans := (chans b)(a \<mapsto> ch)\<rparr>) \<and>
    ring_rep None ch (map Some (if ok then xs @ [msg] else xs))"
proof -
  obtain ch where ch: "chans b a = Some ch" "ring_rep None ch (map Some xs)"
    using assms by (auto simp: queue_rep_def)
  show ?thesis
  proof (cases "length xs < ring_capacity ch")
    case True
    then obtain ch' where "ring_push None (Some msg) ch = (True, ch')"
      "ring_rep None ch' (map Some xs @ [Some msg])"
      using ring_push_space [OF ch(2), of "Some msg"] by auto
    then show ?thesis using ch(1)
      by (intro exI [of _ True] exI [of _ ch']) (simp add: channel_push_def)
  next
    case False
    then have "length (map Some xs) = ring_capacity ch"
      using ch(2) by (simp add: ring_rep_def ring_capacity_def)
    then have "ring_push None (Some msg) ch = (False, ch)" using ring_push_full [OF ch(2)] by simp
    then show ?thesis using ch
      by (intro exI [of _ False] exI [of _ ch]) (simp add: channel_push_def)
  qed
qed

lemma channel_pop_rep:
  assumes "queue_rep b a xs"
  shows "\<exists>ch. channel_pop a b =
      Inr (case xs of [] \<Rightarrow> None | x # _ \<Rightarrow> Some x, b\<lparr>chans := (chans b)(a \<mapsto> ch)\<rparr>) \<and>
    ring_rep None ch (map Some (tl xs))"
proof -
  obtain ch where ch: "chans b a = Some ch" "ring_rep None ch (map Some xs)"
    using assms by (auto simp: queue_rep_def)
  show ?thesis
  proof (cases xs)
    case Nil
    then have "ring_pop None ch = (None, ch)" using ch(2) by (simp add: ring_pop_nil)
    then show ?thesis using ch Nil by (intro exI [of _ ch]) (simp add: channel_pop_def)
  next
    case (Cons x xs')
    then obtain ch' where "ring_pop None ch = (Some x, ch')" "ring_rep None ch' (map Some xs')"
      using ring_pop_cons [of None ch "Some x" "map Some xs'"] ch(2) by auto
    then show ?thesis using ch(1) Cons by (intro exI [of _ ch']) (simp add: channel_pop_def)
  qed
qed

lemma offer_channel_rep:
  assumes "ring_rep nullptr (bus_pending b) ps" "a \<noteq> nullptr"
  shows "\<exists>ok pending. offer_channel a b = (ok, b\<lparr>bus_pending := pending\<rparr>) \<and>
    ring_rep nullptr pending (if ok then ps @ [a] else ps)"
proof (cases "length ps < ring_capacity (bus_pending b)")
  case True
  then obtain p where "ring_push nullptr a (bus_pending b) = (True, p)" "ring_rep nullptr p (ps @ [a])"
    using ring_push_space [OF assms] by blast
  then show ?thesis by (intro exI [of _ True] exI [of _ p]) (simp add: offer_channel_def)
next
  case False
  then have "length ps = ring_capacity (bus_pending b)"
    using assms by (simp add: ring_rep_def ring_capacity_def)
  then have "ring_push nullptr a (bus_pending b) = (False, bus_pending b)"
    using ring_push_full [OF assms(1)] by simp
  then show ?thesis using assms(1)
    by (intro exI [of _ False] exI [of _ "bus_pending b"]) (simp add: offer_channel_def)
qed

lemma collect_one_rep:
  assumes "ring_rep nullptr (bus_pending b) ps"
  shows "\<exists>pending. collect_one b = (ps \<noteq> [],
      b\<lparr>bus_pending := pending, bus_channels := bus_channels b @ take 1 ps\<rparr>) \<and>
    ring_rep nullptr pending (tl ps)"
proof (cases ps)
  case Nil
  then have "ring_pop nullptr (bus_pending b) = (nullptr, bus_pending b)"
    using assms by (simp add: ring_pop_nil)
  then show ?thesis using assms Nil by (intro exI [of _ "bus_pending b"]) (simp add: collect_one_def)
next
  case (Cons p ps')
  then obtain q where "ring_pop nullptr (bus_pending b) = (p, q)" "ring_rep nullptr q ps'"
    using ring_pop_cons [of nullptr "bus_pending b" p ps'] assms by auto
  moreover have "p \<noteq> nullptr" using assms Cons by (auto simp: ring_rep_def)
  ultimately show ?thesis using Cons by (intro exI [of _ q]) (simp add: collect_one_def)
qed

lemma bus_new_rep:
  assumes "bus_new rc queue_size = Inr b"
  shows "bus_queue_size b = queue_size \<and> bus_channels b = [] \<and> bus_futex b = 0 \<and> chans b = Map.empty \<and>
    ring_rep nullptr (bus_pending b) []"
  using assms ptr_ring_new_rep [of rc 4] by (auto simp: bus_new_def bindE_Inr_iff)

end
