(* ===== verification/Log_Run.thy ===== *)
theory Log_Run
  imports Log_Bus
begin

text \<open>
  The logging threads (\<open>Logger::log\<close> in \<^verbatim>\<open>src/logging/logger.cc\<close>), the worker thread and the
  thread that starts and stops it (\<^verbatim>\<open>src/logging/log_worker.cc\<close>), around one message bus, in any
  interleaving. A push to and a pop from a ring is one step (\<open>Ring_Concurrent\<close> shows that these
  calls take effect at one point, for one thread on each side); every access to the futex and to
  \<open>m_stopping\<close> is a step of its own.
\<close>

section \<open>State\<close>

datatype notify_pc = NLoad | NExchange | NWake

text \<open>Where a logging thread is in \<open>Logger::log\<close>, with its channel and its message.\<close>

datatype prod_pc = PIdle | POffer addr log_message | PPush addr log_message | PNotify notify_pc

text \<open>
  Where the worker is in \<open>run\<close>: collecting channels (with its \<open>spins\<close>), popping from the channels
  that are left in this pass (with \<open>has_messages\<close> and \<open>loggers\<close>), before the load of
  \<open>m_stopping\<close>, and in \<open>MessageBus::wait\<close> (with its \<open>errno\<close>). \<open>WExit\<close> is also no thread.
\<close>

datatype worker_pc =
    WExit
  | WCollect nat
  | WScan nat "addr list" bool "addr list"
  | WStop nat "addr list"
  | WStore
  | WFutex u32
  | WAsleep u32

text \<open>Where the controlling thread is; \<open>CStopped\<close> is \<open>m_thread\<close> being 0.\<close>

datatype control_pc = CStopped | CRunning | CNotify notify_pc | CJoin

text \<open>The calls the worker makes on loggers; a save is tagged with the channel it comes from.\<close>

datatype worker_call = Save addr log_message | Flush addr

record 't log_state =
  the_bus :: bus
  stopping :: bool
  channel_of :: "'t \<Rightarrow> addr option"
  prod :: "'t \<Rightarrow> prod_pc"
  worker :: worker_pc
  control :: control_pc
  calls :: "worker_call list"
  sent :: "addr \<Rightarrow> log_message list"

text \<open>
  \<open>channel_of\<close> is the \<open>thread_local\<close> variable of \<open>Logger::log\<close>. \<open>sent\<close> records what was pushed
  to each channel; no step reads it.
\<close>

section \<open>Steps\<close>

definition MAX_SPINS :: nat where "MAX_SPINS = 2048"

definition wait_return :: "futex_return \<Rightarrow> u32 \<Rightarrow> worker_pc" where
  "wait_return r errno =
     (if wait_again r errno then WFutex (snd (futex_wait_result r errno)) else WCollect 0)"

definition woken :: "futex_return \<Rightarrow> worker_pc \<Rightarrow> worker_pc" where
  "woken r w = (case w of WAsleep errno \<Rightarrow> wait_return r errno | _ \<Rightarrow> w)"

text \<open>A step of \<open>notify\<close>: where it goes on, if it does, the bus and the worker.\<close>

fun notify_go :: "notify_pc \<Rightarrow> bus \<Rightarrow> worker_pc \<Rightarrow> notify_pc option \<times> bus \<times> worker_pc" where
  "notify_go NLoad b w = (if notify_load b then Some NExchange else None, b, w)"
| "notify_go NExchange b w = (let (won, b) = notify_exchange b in (if won then Some NWake else None, b, w))"
| "notify_go NWake b w = (None, b, woken Woken w)"

text \<open>
  A thread enters \<open>log\<close>. In its first call it creates its channel, at a fresh address.
\<close>

definition log_enter :: "'t \<Rightarrow> log_message \<Rightarrow> addr \<Rightarrow> int \<Rightarrow> 't log_state \<Rightarrow> 't log_state option" where
  "log_enter t msg a rc s =
     (if prod s t \<noteq> PIdle then None
      else case channel_of s t of
        Some ch \<Rightarrow> Some (s\<lparr>prod := (prod s)(t := PPush ch msg)\<rparr>)
      | None \<Rightarrow>
          if a = nullptr \<or> chans (the_bus s) a \<noteq> None then None
          else (case channel_create rc a (the_bus s) of
            Inl _ \<Rightarrow> None
          | Inr b \<Rightarrow> Some (s\<lparr>the_bus := b, prod := (prod s)(t := POffer a msg)\<rparr>)))"

definition prod_go :: "(addr \<Rightarrow> overflow_strategy) \<Rightarrow> 't \<Rightarrow> 't log_state \<Rightarrow> 't log_state option" where
  "prod_go strategy t s = (case prod s t of
     PIdle \<Rightarrow> None
   | POffer a msg \<Rightarrow>
       let (ok, b) = offer_channel a (the_bus s) in
       if ok then Some (s\<lparr>the_bus := b, channel_of := (channel_of s)(t \<mapsto> a),
         prod := (prod s)(t := PPush a msg)\<rparr>)
       else Some (s\<lparr>the_bus := b\<rparr>)
   | PPush a msg \<Rightarrow> (case channel_push a msg (the_bus s) of
       Inl _ \<Rightarrow> None
     | Inr (ok, b) \<Rightarrow>
         if ok then Some (s\<lparr>the_bus := b, prod := (prod s)(t := PNotify NLoad),
           sent := (sent s)(a := sent s a @ [msg])\<rparr>)
         else if strategy (msg_logger msg) = DropMessage then
           Some (s\<lparr>the_bus := b, prod := (prod s)(t := PIdle)\<rparr>)
         else Some (s\<lparr>the_bus := b\<rparr>))
   | PNotify n \<Rightarrow>
       let (n', b, w) = notify_go n (the_bus s) (worker s) in
       Some (s\<lparr>the_bus := b, worker := w,
         prod := (prod s)(t := (case n' of None \<Rightarrow> PIdle | Some n \<Rightarrow> PNotify n))\<rparr>))"

text \<open>A step of the worker; \<open>errno\<close> is what its \<open>errno\<close> holds when it begins to wait.\<close>

definition worker_go :: "u32 \<Rightarrow> 't log_state \<Rightarrow> 't log_state option" where
  "worker_go errno s = (case worker s of
     WExit \<Rightarrow> None
   | WCollect spins \<Rightarrow>
       let (more, b) = collect_one (the_bus s) in
       Some (s\<lparr>the_bus := b,
         worker := (if more then WCollect spins else WScan spins (bus_channels b) False [])\<rparr>)
   | WScan spins (a # rest) has_messages loggers \<Rightarrow> (case channel_pop a (the_bus s) of
       Inl _ \<Rightarrow> None
     | Inr (None, b) \<Rightarrow> Some (s\<lparr>the_bus := b, worker := WScan spins rest has_messages loggers\<rparr>)
     | Inr (Some msg, b) \<Rightarrow>
         Some (s\<lparr>the_bus := b, worker := WScan spins rest True (loggers @ [msg_logger msg]),
           calls := calls s @ [Save a msg]\<rparr>))
   | WScan spins [] has_messages loggers \<Rightarrow>
       if has_messages then Some (s\<lparr>worker := WCollect 0, calls := calls s @ map Flush loggers\<rparr>)
       else Some (s\<lparr>worker := WStop spins loggers\<rparr>)
   | WStop spins loggers \<Rightarrow>
       if stopping s then Some (s\<lparr>worker := WExit, calls := calls s @ map Flush loggers\<rparr>)
       else Some (s\<lparr>worker := (if spins < MAX_SPINS then WCollect (spins + 1) else WStore),
         calls := calls s @ (if spins = 0 then map Flush loggers else [])\<rparr>)
   | WStore \<Rightarrow> Some (s\<lparr>the_bus := wait_store (the_bus s), worker := WFutex errno\<rparr>)
   | WFutex e \<Rightarrow>
       Some (s\<lparr>worker := (if futex_sleeps 0 (the_bus s) then WAsleep e else wait_return WouldBlock e)\<rparr>)
   | WAsleep e \<Rightarrow> None)"

text \<open>\<open>start\<close>, and the steps of \<open>stop\<close>.\<close>

definition control_start :: "'t log_state \<Rightarrow> 't log_state option" where
  "control_start s =
     (if control s = CStopped then Some (s\<lparr>control := CRunning, worker := WCollect 0\<rparr>) else None)"

definition control_stop :: "'t log_state \<Rightarrow> 't log_state option" where
  "control_stop s = (case control s of
     CStopped \<Rightarrow> Some s
   | CRunning \<Rightarrow> Some (s\<lparr>stopping := True, control := CNotify NLoad\<rparr>)
   | CNotify n \<Rightarrow>
       let (n', b, w) = notify_go n (the_bus s) (worker s) in
       Some (s\<lparr>the_bus := b, worker := w,
         control := (case n' of None \<Rightarrow> CJoin | Some n \<Rightarrow> CNotify n)\<rparr>)
   | CJoin \<Rightarrow> if worker s = WExit then Some (s\<lparr>control := CStopped\<rparr>) else None)"

text \<open>
  Which thread goes next. \<open>Signal\<close> ends a sleep in the futex without a call of \<open>wake\<close>.
\<close>

datatype 't choice =
    Enter 't log_message addr int
  | Producer 't
  | Worker u32
  | Start
  | Stop
  | Signal futex_return

fun log_next :: "(addr \<Rightarrow> overflow_strategy) \<Rightarrow> 't choice \<Rightarrow> 't log_state \<Rightarrow> 't log_state option" where
  "log_next strategy (Enter t msg a rc) s = log_enter t msg a rc s"
| "log_next strategy (Producer t) s = prod_go strategy t s"
| "log_next strategy (Worker errno) s = worker_go errno s"
| "log_next strategy Start s = control_start s"
| "log_next strategy Stop s = control_stop s"
| "log_next strategy (Signal r) s = Some (s\<lparr>worker := woken r (worker s)\<rparr>)"

fun log_exec :: "(addr \<Rightarrow> overflow_strategy) \<Rightarrow> 't choice list \<Rightarrow> 't log_state \<Rightarrow> 't log_state option" where
  "log_exec strategy [] s = Some s"
| "log_exec strategy (c # cs) s =
     (case log_next strategy c s of None \<Rightarrow> None | Some s \<Rightarrow> log_exec strategy cs s)"

definition log_init :: "bus \<Rightarrow> 't log_state" where
  "log_init b = \<lparr>the_bus = b, stopping = False, channel_of = \<lambda>_. None, prod = \<lambda>_. PIdle,
     worker = WExit, control = CStopped, calls = [], sent = \<lambda>_. []\<rparr>"

inductive log_reach :: "(addr \<Rightarrow> overflow_strategy) \<Rightarrow> 't log_state \<Rightarrow> bool" for strategy where
  log_reach_init: "bus_new rc queue_size = Inr b \<Longrightarrow> log_reach strategy (log_init b)"
| log_reach_step: "log_reach strategy s \<Longrightarrow> log_next strategy c s = Some s' \<Longrightarrow> log_reach strategy s'"

lemma log_reach_exec:
  "log_reach strategy s \<Longrightarrow> log_exec strategy cs s = Some s' \<Longrightarrow> log_reach strategy s'"
  by (induction cs arbitrary: s) (auto split: option.splits intro: log_reach_step)

lemma log_exec_append:
  "log_exec strategy (cs @ ds) s =
    (case log_exec strategy cs s of None \<Rightarrow> None | Some s \<Rightarrow> log_exec strategy ds s)"
  by (induction cs arbitrary: s) (auto split: option.splits)

end
