(* ===== verification/Log_Delivery.thy ===== *)
theory Log_Delivery
  imports Log_Run
begin

text \<open>
  What the logging threads and the worker guarantee together: the invariants of the reachable
  states of \<open>Log_Run\<close>, the delivery of messages that follows, and what stopping does.
\<close>

section \<open>The queues\<close>

text \<open>The messages of one channel that the worker has saved, in order.\<close>

fun saves_of :: "addr \<Rightarrow> worker_call list \<Rightarrow> log_message list" where
  "saves_of a [] = []"
| "saves_of a (Save b msg # cs) = (if a = b then msg # saves_of a cs else saves_of a cs)"
| "saves_of a (Flush l # cs) = saves_of a cs"

lemma saves_of_append [simp]: "saves_of a (xs @ ys) = saves_of a xs @ saves_of a ys"
  by (induction a xs rule: saves_of.induct) simp_all

lemma saves_of_flushes [simp]: "saves_of a (map Flush ls) = []"
  by (induction ls) simp_all

text \<open>What was sent to a channel is what was saved from it followed by what is queued in it.\<close>

definition queue_at :: "'t log_state \<Rightarrow> addr \<Rightarrow> bool" where
  "queue_at s a \<longleftrightarrow> (case chans (the_bus s) a of
     None \<Rightarrow> sent s a = [] \<and> saves_of a (calls s) = []
   | Some ch \<Rightarrow> \<exists>xs. ring_rep None ch (map Some xs) \<and> sent s a = saves_of a (calls s) @ xs)"

definition queue_inv :: "'t log_state \<Rightarrow> bool" where
  "queue_inv s \<longleftrightarrow> (\<forall>a. queue_at s a)"

lemma queue_at_frame:
  "queue_at s a \<Longrightarrow> chans (the_bus s') a = chans (the_bus s) a \<Longrightarrow> sent s' a = sent s a \<Longrightarrow>
   saves_of a (calls s') = saves_of a (calls s) \<Longrightarrow> queue_at s' a"
  by (simp add: queue_at_def split: option.splits)

lemma queue_inv_frame:
  "queue_inv s \<Longrightarrow> chans (the_bus s') = chans (the_bus s) \<Longrightarrow> sent s' = sent s \<Longrightarrow>
   (\<And>a. saves_of a (calls s') = saves_of a (calls s)) \<Longrightarrow> queue_inv s'"
  by (simp add: queue_inv_def queue_at_frame [of s _ s'])

lemma queue_inv_one:
  assumes "queue_inv s" "queue_at s' b"
    "\<And>a. a \<noteq> b \<Longrightarrow> chans (the_bus s') a = chans (the_bus s) a \<and> sent s' a = sent s a \<and>
      saves_of a (calls s') = saves_of a (calls s)"
  shows "queue_inv s'"
  unfolding queue_inv_def
proof
  fix a
  show "queue_at s' a"
    using assms queue_at_frame [of s a s'] by (cases "a = b") (auto simp: queue_inv_def)
qed

lemma queue_at_rep:
  assumes "queue_inv s" "chans (the_bus s) a = Some ch"
  shows "\<exists>xs. queue_rep (the_bus s) a xs \<and> sent s a = saves_of a (calls s) @ xs"
proof -
  have "queue_at s a" using assms(1) by (simp add: queue_inv_def)
  then show ?thesis using assms(2) by (auto simp: queue_at_def queue_rep_def)
qed

lemma notify_go_bus:
  assumes "notify_go n b w = (n', b', w')"
  shows "chans b' = chans b \<and> bus_pending b' = bus_pending b \<and> bus_channels b' = bus_channels b \<and>
    (w' = w \<or> (\<exists>e. w = WAsleep e \<and> (w' = WCollect 0 \<or> (\<exists>e'. w' = WFutex e'))))"
  using assms
  by (cases n) (auto simp: notify_exchange_def woken_def wait_return_def split: worker_pc.splits)

lemma offer_channel_bus: "offer_channel a b = (ok, b') \<Longrightarrow> chans b' = chans b \<and> bus_channels b' = bus_channels b"
  by (auto simp: offer_channel_def split: prod.splits)

lemma collect_one_chans: "collect_one b = (again, b') \<Longrightarrow> chans b' = chans b"
  by (auto simp: collect_one_def split: prod.splits if_splits)

lemma queue_inv_enter:
  assumes "log_enter t msg a rc s = Some s'" "queue_inv s"
  shows "queue_inv s'"
proof (cases "channel_of s t")
  case None
  then obtain b where b: "chans (the_bus s) a = None" "channel_create rc a (the_bus s) = Inr b"
    "s' = s\<lparr>the_bus := b, prod := (prod s)(t := POffer a msg)\<rparr>"
    using assms(1) by (auto simp: log_enter_def split: if_splits sum.splits)
  from channel_create_rep [OF b(2)] obtain ch
    where ch: "b = the_bus s\<lparr>chans := (chans (the_bus s))(a \<mapsto> ch)\<rparr>" "queue_rep b a []" by blast
  show ?thesis
  proof (rule queue_inv_one [OF assms(2), of _ a])
    have "queue_at s a" using assms(2) by (simp add: queue_inv_def)
    then show "queue_at s' a" using b(1,3) ch by (auto simp: queue_at_def queue_rep_def)
  qed (simp add: b(3) ch(1))
next
  case (Some ch)
  then show ?thesis
    using assms by (auto simp: log_enter_def split: if_splits intro: queue_inv_frame [of s])
qed

lemma queue_inv_prod:
  assumes "prod_go strategy t s = Some s'" "queue_inv s"
  shows "queue_inv s'"
proof (cases "prod s t")
  case PIdle
  then show ?thesis using assms(1) by (simp add: prod_go_def)
next
  case (POffer a msg)
  obtain ok b where b: "offer_channel a (the_bus s) = (ok, b)" by fastforce
  then show ?thesis
    using assms POffer offer_channel_bus [OF b]
    by (intro queue_inv_frame [OF assms(2)]) (auto simp: prod_go_def split: if_splits)
next
  case (PPush a msg)
  then obtain ok b where b: "channel_push a msg (the_bus s) = Inr (ok, b)"
    using assms(1) by (auto simp: prod_go_def split: sum.splits)
  then obtain ch0 where "chans (the_bus s) a = Some ch0"
    by (auto simp: channel_push_def split: option.splits)
  then obtain xs where xs: "queue_rep (the_bus s) a xs" "sent s a = saves_of a (calls s) @ xs"
    using queue_at_rep [OF assms(2)] by blast
  obtain ch where ch: "b = the_bus s\<lparr>chans := (chans (the_bus s))(a \<mapsto> ch)\<rparr>"
    "ring_rep None ch (map Some (if ok then xs @ [msg] else xs))"
    using channel_push_rep [OF xs(1), of msg] b by auto
  show ?thesis
  proof (rule queue_inv_one [OF assms(2), of _ a])
    show "queue_at s' a"
      using assms(1) PPush b xs(2) ch
      by (cases ok) (auto simp: prod_go_def queue_at_def split: if_splits)
  qed (use assms(1) PPush b ch(1) in \<open>auto simp: prod_go_def split: if_splits\<close>)
next
  case (PNotify n)
  obtain n' b w where b: "notify_go n (the_bus s) (worker s) = (n', b, w)" by (metis prod_cases3)
  then show ?thesis
    using assms PNotify notify_go_bus [OF b]
    by (intro queue_inv_frame [OF assms(2)]) (auto simp: prod_go_def)
qed

lemma queue_inv_worker:
  assumes "worker_go errno s = Some s'" "queue_inv s"
  shows "queue_inv s'"
proof (cases "\<exists>spins a rest has ls. worker s = WScan spins (a # rest) has ls")
  case True
  then obtain spins a rest has ls where w: "worker s = WScan spins (a # rest) has ls" by blast
  then obtain msg b where b: "channel_pop a (the_bus s) = Inr (msg, b)"
    using assms(1) by (auto simp: worker_go_def split: sum.splits)
  then obtain ch0 where "chans (the_bus s) a = Some ch0"
    by (auto simp: channel_pop_def split: option.splits)
  then obtain xs where xs: "queue_rep (the_bus s) a xs" "sent s a = saves_of a (calls s) @ xs"
    using queue_at_rep [OF assms(2)] by blast
  obtain ch where ch: "msg = (case xs of [] \<Rightarrow> None | x # _ \<Rightarrow> Some x)"
    "b = the_bus s\<lparr>chans := (chans (the_bus s))(a \<mapsto> ch)\<rparr>" "ring_rep None ch (map Some (tl xs))"
    using channel_pop_rep [OF xs(1)] b by auto
  show ?thesis
  proof (rule queue_inv_one [OF assms(2), of _ a])
    show "queue_at s' a"
      using assms(1) w b xs(2) ch
      by (cases xs) (auto simp: worker_go_def queue_at_def)
  qed (use assms(1) w b ch in \<open>auto simp: worker_go_def split: list.splits\<close>)
next
  case False
  show ?thesis
  proof (cases "worker s")
    case (WCollect spins)
    obtain again b where b: "collect_one (the_bus s) = (again, b)" by fastforce
    then show ?thesis
      using assms WCollect collect_one_chans [OF b]
      by (intro queue_inv_frame [OF assms(2)]) (auto simp: worker_go_def)
  next
    case (WScan spins rest has ls)
    then have "rest = []" using False by (cases rest) auto
    then show ?thesis
      using assms WScan
      by (intro queue_inv_frame [OF assms(2)]) (auto simp: worker_go_def split: if_splits)
  qed (use assms in \<open>auto simp: worker_go_def wait_store_def split: if_splits
      intro!: queue_inv_frame [OF assms(2)]\<close>)
qed

lemma control_steps:
  assumes "control_start s = Some s' \<or> control_stop s = Some s'"
  shows "chans (the_bus s') = chans (the_bus s) \<and> bus_pending (the_bus s') = bus_pending (the_bus s) \<and>
    bus_channels (the_bus s') = bus_channels (the_bus s) \<and> sent s' = sent s \<and> calls s' = calls s \<and>
    prod s' = prod s \<and> channel_of s' = channel_of s \<and>
    (worker s' = worker s \<or> worker s' = WCollect 0 \<or> (\<exists>e. worker s' = WFutex e))"
proof -
  have "notify_go n (the_bus s) (worker s) = (n', b, w) \<Longrightarrow> control s = CNotify n \<Longrightarrow>
      control_stop s = Some s' \<Longrightarrow> ?thesis" for n n' b w
    using notify_go_bus [of n "the_bus s" "worker s" n' b w] by (auto simp: control_stop_def)
  then show ?thesis
    using assms
    by (cases "control s") (auto simp: control_start_def control_stop_def split: if_splits prod.splits)
qed

lemma queue_inv_reach: "log_reach strategy s \<Longrightarrow> queue_inv s"
proof (induction rule: log_reach.induct)
  case (log_reach_init rc queue_size b)
  then show ?case using bus_new_rep [of rc queue_size b]
    by (auto simp: queue_inv_def queue_at_def log_init_def)
next
  case (log_reach_step s c s')
  then show ?case
  proof (cases c)
    case (Signal r)
    then show ?thesis using log_reach_step by (auto intro: queue_inv_frame)
  next
    case Start
    then show ?thesis using log_reach_step control_steps [of s s'] by (auto intro: queue_inv_frame)
  next
    case Stop
    then show ?thesis using log_reach_step control_steps [of s s'] by (auto intro: queue_inv_frame)
  qed (auto intro: queue_inv_enter queue_inv_prod queue_inv_worker)
qed

section \<open>The channels\<close>

text \<open>
  A thread owns the channel it offers or has had accepted. No two threads own the same one, so
  that each ring has one thread on its writing side; all channels but those still being offered
  are on their way to the worker, once each.
\<close>

definition owned :: "('t \<Rightarrow> addr option) \<Rightarrow> ('t \<Rightarrow> prod_pc) \<Rightarrow> 't \<Rightarrow> addr option" where
  "owned cof pr t = (case pr t of POffer a m \<Rightarrow> Some a | _ \<Rightarrow> cof t)"

definition chan_ok :: "addr list \<Rightarrow> addr set \<Rightarrow> ('t \<Rightarrow> addr option) \<Rightarrow> ('t \<Rightarrow> prod_pc) \<Rightarrow> bool" where
  "chan_ok cs D cof pr \<longleftrightarrow> distinct cs \<and>
     (\<forall>t a m. pr t = POffer a m \<longrightarrow> cof t = None \<and> a \<noteq> nullptr \<and> a \<notin> set cs) \<and>
     (\<forall>t u a. owned cof pr t = Some a \<longrightarrow> owned cof pr u = Some a \<longrightarrow> t = u) \<and>
     (\<forall>t a. cof t = Some a \<longrightarrow> a \<in> set cs) \<and>
     (\<forall>t a m. pr t = PPush a m \<longrightarrow> cof t = Some a) \<and>
     D = set cs \<union> {a. \<exists>t m. pr t = POffer a m}"

definition scan_ok :: "addr list \<Rightarrow> worker_pc \<Rightarrow> bool" where
  "scan_ok chs w \<longleftrightarrow> (case w of WScan n rest has ls \<Rightarrow> set rest \<subseteq> set chs | _ \<Rightarrow> True)"

definition chan_inv :: "'t log_state \<Rightarrow> bool" where
  "chan_inv s \<longleftrightarrow> scan_ok (bus_channels (the_bus s)) (worker s) \<and>
     (\<exists>ps. ring_rep nullptr (bus_pending (the_bus s)) ps \<and>
       chan_ok (bus_channels (the_bus s) @ ps) (dom (chans (the_bus s))) (channel_of s) (prod s))"

lemma owned_upd: "owned cof (pr(t := x)) = (owned cof pr)(t := (case x of POffer a m \<Rightarrow> Some a | _ \<Rightarrow> cof t))"
  by (rule ext) (simp add: owned_def split: prod_pc.split)

lemma chan_ok_move:
  assumes "chan_ok cs D cof pr" "\<And>a m. pr t \<noteq> POffer a m" "\<And>a m. x \<noteq> POffer a m"
    "\<And>a m. x = PPush a m \<Longrightarrow> cof t = Some a"
  shows "chan_ok cs D cof (pr(t := x))"
proof -
  have "owned cof (pr(t := x)) = owned cof pr"
    using assms(2,3) by (auto simp: owned_def fun_eq_iff split: prod_pc.splits)
  moreover have "(\<exists>u m. (pr(t := x)) u = POffer a m) \<longleftrightarrow> (\<exists>u m. pr u = POffer a m)" for a
    using assms(2,3) by (metis fun_upd_apply)
  ultimately show ?thesis using assms unfolding chan_ok_def by auto
qed

lemma chan_ok_create:
  assumes "chan_ok cs D cof pr" "pr t = PIdle" "cof t = None" "a \<noteq> nullptr" "a \<notin> D"
  shows "chan_ok cs (insert a D) cof (pr(t := POffer a msg))"
proof -
  have D: "D = set cs \<union> {a. \<exists>t m. pr t = POffer a m}" using assms(1) by (simp add: chan_ok_def)
  have "\<forall>u b. cof u = Some b \<longrightarrow> b \<in> set cs" using assms(1) by (simp add: chan_ok_def)
  then have own: "owned cof pr u \<noteq> Some a" for u
    using assms(5) D by (auto simp: owned_def split: prod_pc.split)
  have "{b. \<exists>u m. (pr(t := POffer a msg)) u = POffer b m} = insert a {b. \<exists>u m. pr u = POffer b m}"
    using assms(2) by (auto, metis prod_pc.distinct(1))
  then have all: "insert a D = set cs \<union> {b. \<exists>u m. (pr(t := POffer a msg)) u = POffer b m}" using D by simp
  have a: "a \<notin> set cs" using assms(5) D by simp
  have "\<forall>u v b. owned cof pr u = Some b \<longrightarrow> owned cof pr v = Some b \<longrightarrow> u = v"
    using assms(1) by (simp add: chan_ok_def)
  then have uniq: "\<forall>u v b. ((owned cof pr)(t := Some a)) u = Some b \<longrightarrow>
      ((owned cof pr)(t := Some a)) v = Some b \<longrightarrow> u = v"
    using own by (metis fun_upd_apply option.inject)
  have offers: "\<forall>u b m. pr u = POffer b m \<longrightarrow> cof u = None \<and> b \<noteq> nullptr \<and> b \<notin> set cs"
    and rest: "distinct cs" "\<forall>u b. cof u = Some b \<longrightarrow> b \<in> set cs" "\<forall>u b m. pr u = PPush b m \<longrightarrow> cof u = Some b"
    using assms(1) by (auto simp: chan_ok_def)
  show ?thesis
    unfolding chan_ok_def owned_upd
  proof (intro conjI)
    show "\<forall>u b m. (pr(t := POffer a msg)) u = POffer b m \<longrightarrow> cof u = None \<and> b \<noteq> nullptr \<and> b \<notin> set cs"
      using a offers assms(3,4) by simp
    show "\<forall>u b m. (pr(t := POffer a msg)) u = PPush b m \<longrightarrow> cof u = Some b" using rest(3) by simp
    show "\<forall>u v b. ((owned cof pr)(t := case POffer a msg of POffer a m \<Rightarrow> Some a | _ \<Rightarrow> cof t)) u = Some b \<longrightarrow>
        ((owned cof pr)(t := case POffer a msg of POffer a m \<Rightarrow> Some a | _ \<Rightarrow> cof t)) v = Some b \<longrightarrow> u = v"
      using uniq by (simp only: prod_pc.case)
  qed (rule all rest)+
qed

lemma chan_ok_accept:
  assumes "chan_ok cs D cof pr" "pr t = POffer a msg"
  shows "chan_ok (cs @ [a]) D (cof(t \<mapsto> a)) (pr(t := PPush a msg))"
proof -
  have t: "cof t = None" "a \<noteq> nullptr" "a \<notin> set cs" using assms by (auto simp: chan_ok_def)
  have uniq: "owned cof pr t = Some a \<Longrightarrow> owned cof pr u = Some a \<Longrightarrow> t = u" for u
    using assms(1) by (auto simp: chan_ok_def)
  have own: "owned (cof(t \<mapsto> a)) (pr(t := PPush a msg)) = owned cof pr"
    using assms(2) by (auto simp: owned_def fun_eq_iff split: prod_pc.split)
  have other: "b \<noteq> a" if "pr u = POffer b m" "u \<noteq> t" for u b m
    using uniq [of u] that assms(2) by (auto simp: owned_def)
  have "D = set cs \<union> {b. \<exists>u m. pr u = POffer b m}" using assms(1) by (simp add: chan_ok_def)
  also have "{b. \<exists>u m. pr u = POffer b m} = insert a {b. \<exists>u m. (pr(t := PPush a msg)) u = POffer b m}"
    using assms(2) by (auto split: if_splits, metis prod_pc.inject(1))
  finally have "D = set (cs @ [a]) \<union> {b. \<exists>u m. (pr(t := PPush a msg)) u = POffer b m}" by simp
  then have all: "D = set (cs @ [a]) \<union> {b. \<exists>u m. (pr(t := PPush a msg)) u = POffer b m}" .
  have offers: "\<forall>u b m. pr u = POffer b m \<longrightarrow> cof u = None \<and> b \<noteq> nullptr \<and> b \<notin> set cs"
    and rest: "distinct cs" "\<forall>u b. cof u = Some b \<longrightarrow> b \<in> set cs" "\<forall>u b m. pr u = PPush b m \<longrightarrow> cof u = Some b"
      "\<forall>u v b. owned cof pr u = Some b \<longrightarrow> owned cof pr v = Some b \<longrightarrow> u = v"
    using assms(1) by (auto simp: chan_ok_def)
  show ?thesis
    unfolding chan_ok_def own
  proof (intro conjI)
    show "\<forall>u b m. (pr(t := PPush a msg)) u = POffer b m \<longrightarrow>
        (cof(t \<mapsto> a)) u = None \<and> b \<noteq> nullptr \<and> b \<notin> set (cs @ [a])"
      using offers other by (simp, blast)
    show "\<forall>u b m. (pr(t := PPush a msg)) u = PPush b m \<longrightarrow> (cof(t \<mapsto> a)) u = Some b"
      using rest(3) by simp
    show "\<forall>u b. (cof(t \<mapsto> a)) u = Some b \<longrightarrow> b \<in> set (cs @ [a])" using rest(2) by simp
    show "distinct (cs @ [a])" using rest(1) t(3) by simp
  qed (rule all rest)+
qed

lemma scan_ok_more: "scan_ok chs w \<Longrightarrow> scan_ok (chs @ more') w"
  by (auto simp: scan_ok_def split: worker_pc.splits)

lemma scan_ok_notify:
  "scan_ok chs w \<Longrightarrow> notify_go n b w = (n', b', w') \<Longrightarrow> scan_ok chs w'"
  using notify_go_bus [of n b w n' b' w'] by (auto simp: scan_ok_def)

lemma chan_inv_enter:
  assumes "log_enter t msg a rc s = Some s'" "chan_inv s"
  shows "chan_inv s'"
proof -
  obtain ps where ps: "scan_ok (bus_channels (the_bus s)) (worker s)"
    "ring_rep nullptr (bus_pending (the_bus s)) ps"
    "chan_ok (bus_channels (the_bus s) @ ps) (dom (chans (the_bus s))) (channel_of s) (prod s)"
    using assms(2) by (auto simp: chan_inv_def)
  have idle: "prod s t = PIdle" using assms(1) by (auto simp: log_enter_def split: if_splits)
  show ?thesis
  proof (cases "channel_of s t")
    case None
    then obtain b where b: "a \<noteq> nullptr" "chans (the_bus s) a = None" "channel_create rc a (the_bus s) = Inr b"
      "s' = s\<lparr>the_bus := b, prod := (prod s)(t := POffer a msg)\<rparr>"
      using assms(1) by (auto simp: log_enter_def split: if_splits sum.splits)
    obtain ch where ch: "b = the_bus s\<lparr>chans := (chans (the_bus s))(a \<mapsto> ch)\<rparr>"
      using channel_create_rep [OF b(3)] by blast
    have "a \<notin> dom (chans (the_bus s))" using b(2) by (simp add: domIff)
    from chan_ok_create [OF ps(3) idle None b(1) this]
    show ?thesis using ps(1,2) by (auto simp: chan_inv_def b(4) ch)
  next
    case (Some ch)
    then have "s' = s\<lparr>prod := (prod s)(t := PPush ch msg)\<rparr>"
      using assms(1) idle by (simp add: log_enter_def)
    moreover have "chan_ok (bus_channels (the_bus s) @ ps) (dom (chans (the_bus s))) (channel_of s)
        ((prod s)(t := PPush ch msg))"
      by (rule chan_ok_move [OF ps(3)]) (use idle Some in simp_all)
    ultimately show ?thesis using ps(1,2) by (auto simp: chan_inv_def)
  qed
qed

lemma chan_inv_prod:
  assumes "prod_go strategy t s = Some s'" "chan_inv s"
  shows "chan_inv s'"
proof -
  obtain ps where ps: "scan_ok (bus_channels (the_bus s)) (worker s)"
    "ring_rep nullptr (bus_pending (the_bus s)) ps"
    "chan_ok (bus_channels (the_bus s) @ ps) (dom (chans (the_bus s))) (channel_of s) (prod s)"
    using assms(2) by (auto simp: chan_inv_def)
  show ?thesis
  proof (cases "prod s t")
    case PIdle
    then show ?thesis using assms(1) by (simp add: prod_go_def)
  next
    case (POffer a msg)
    have "a \<noteq> nullptr" using ps(3) POffer by (auto simp: chan_ok_def)
    from offer_channel_rep [OF ps(2) this] obtain ok pending
      where o: "offer_channel a (the_bus s) = (ok, the_bus s\<lparr>bus_pending := pending\<rparr>)"
        "ring_rep nullptr pending (if ok then ps @ [a] else ps)" by blast
    show ?thesis
    proof (cases ok)
      case True
      then show ?thesis
        using assms(1) POffer o ps(1) chan_ok_accept [OF ps(3) POffer]
        by (auto simp: chan_inv_def prod_go_def)
    next
      case False
      then show ?thesis using assms(1) POffer o ps by (auto simp: chan_inv_def prod_go_def)
    qed
  next
    case (PPush a msg)
    then obtain ok b where b: "channel_push a msg (the_bus s) = Inr (ok, b)"
      using assms(1) by (auto simp: prod_go_def split: sum.splits)
    then obtain ch0 ch where "chans (the_bus s) a = Some ch0"
      "b = the_bus s\<lparr>chans := (chans (the_bus s))(a \<mapsto> ch)\<rparr>"
      by (auto simp: channel_push_def split: option.splits prod.splits)
    then have bus: "dom (chans b) = dom (chans (the_bus s))" "bus_pending b = bus_pending (the_bus s)"
      "bus_channels b = bus_channels (the_bus s)" by auto
    have move: "chan_ok (bus_channels (the_bus s) @ ps) (dom (chans (the_bus s))) (channel_of s)
        ((prod s)(t := x))" if "x = PIdle \<or> x = PNotify NLoad" for x
      by (rule chan_ok_move [OF ps(3)]) (use PPush that in auto)
    show ?thesis
      using assms(1) PPush b bus ps move
      by (auto simp: chan_inv_def prod_go_def split: if_splits)
  next
    case (PNotify n)
    obtain n' b w where b: "notify_go n (the_bus s) (worker s) = (n', b, w)" by (metis prod_cases3)
    have "chan_ok (bus_channels (the_bus s) @ ps) (dom (chans (the_bus s))) (channel_of s)
        ((prod s)(t := (case n' of None \<Rightarrow> PIdle | Some n \<Rightarrow> PNotify n)))"
      by (rule chan_ok_move [OF ps(3)]) (use PNotify in \<open>auto split: option.splits\<close>)
    then show ?thesis
      using assms(1) PNotify b notify_go_bus [OF b] ps scan_ok_notify [OF ps(1) b]
      by (auto simp: chan_inv_def prod_go_def)
  qed
qed

lemma chan_inv_frame:
  assumes "chan_inv s" "chans (the_bus s') = chans (the_bus s)"
    "bus_pending (the_bus s') = bus_pending (the_bus s)" "bus_channels (the_bus s') = bus_channels (the_bus s)"
    "prod s' = prod s" "channel_of s' = channel_of s" "scan_ok (bus_channels (the_bus s)) (worker s')"
  shows "chan_inv s'"
  using assms by (simp add: chan_inv_def)

lemma scan_ok_simps [simp]:
  "scan_ok chs WExit" "scan_ok chs (WCollect n)" "scan_ok chs (WStop n ls)" "scan_ok chs WStore"
  "scan_ok chs (WFutex e)" "scan_ok chs (WAsleep e)"
  "scan_ok chs (WScan n rest has ls) \<longleftrightarrow> set rest \<subseteq> set chs"
  by (simp_all add: scan_ok_def)

lemma scan_ok_wait_return [simp]: "scan_ok chs (wait_return r e)"
  by (simp add: wait_return_def)

lemma chan_inv_worker:
  assumes "worker_go errno s = Some s'" "chan_inv s"
  shows "chan_inv s'"
proof -
  obtain ps where ps: "scan_ok (bus_channels (the_bus s)) (worker s)"
    "ring_rep nullptr (bus_pending (the_bus s)) ps"
    "chan_ok (bus_channels (the_bus s) @ ps) (dom (chans (the_bus s))) (channel_of s) (prod s)"
    using assms(2) by (auto simp: chan_inv_def)
  show ?thesis
  proof (cases "worker s")
    case (WCollect spins)
    from collect_one_rep [OF ps(2)] obtain pending
      where c: "collect_one (the_bus s) = (ps \<noteq> [],
          the_bus s\<lparr>bus_pending := pending, bus_channels := bus_channels (the_bus s) @ take 1 ps\<rparr>)"
        "ring_rep nullptr pending (tl ps)" by blast
    have "take 1 ps @ tl ps = ps" by (cases ps) simp_all
    then show ?thesis
      using assms(1) WCollect c ps(1,3)
      by (auto simp: chan_inv_def worker_go_def intro!: exI [of _ "tl ps"])
  next
    case (WScan spins rest has ls)
    show ?thesis
    proof (cases rest)
      case Nil
      then show ?thesis
        using assms(1) WScan
        by (intro chan_inv_frame [OF assms(2)]) (auto simp: worker_go_def split: if_splits)
    next
      case (Cons a rest')
      then obtain msg b where b: "channel_pop a (the_bus s) = Inr (msg, b)"
        using assms(1) WScan by (auto simp: worker_go_def split: sum.splits)
      then obtain ch0 ch where "chans (the_bus s) a = Some ch0"
        "b = the_bus s\<lparr>chans := (chans (the_bus s))(a \<mapsto> ch)\<rparr>"
        by (auto simp: channel_pop_def split: option.splits prod.splits)
      then have bus: "dom (chans b) = dom (chans (the_bus s))" "bus_pending b = bus_pending (the_bus s)"
        "bus_channels b = bus_channels (the_bus s)" by auto
      then show ?thesis
        using assms(1) WScan Cons b ps
        by (cases msg) (auto simp: chan_inv_def worker_go_def)
    qed
  qed (use assms(1) in \<open>auto simp: worker_go_def wait_store_def split: if_splits
      intro!: chan_inv_frame [OF assms(2)]\<close>)
qed

lemma chan_inv_control:
  assumes "control_start s = Some s' \<or> control_stop s = Some s'" "chan_inv s"
  shows "chan_inv s'"
proof -
  note same = control_steps [OF assms(1)]
  have "scan_ok (bus_channels (the_bus s)) (worker s)" using assms(2) by (simp add: chan_inv_def)
  moreover have "worker s' = worker s \<or> worker s' = WCollect 0 \<or> (\<exists>e. worker s' = WFutex e)"
    using same by blast
  ultimately have "scan_ok (bus_channels (the_bus s)) (worker s')" by (elim disjE exE) simp_all
  then show ?thesis using same by (intro chan_inv_frame [OF assms(2)]) simp_all
qed

lemma log_reach_chan_inv: "log_reach strategy s \<Longrightarrow> chan_inv s"
proof (induction rule: log_reach.induct)
  case (log_reach_init rc queue_size b)
  then show ?case using bus_new_rep [of rc queue_size b]
    by (auto simp: chan_inv_def log_init_def chan_ok_def owned_def)
next
  case (log_reach_step s c s')
  have old: "scan_ok (bus_channels (the_bus s)) (worker s)" using log_reach_step by (simp add: chan_inv_def)
  show ?case
  proof (cases c)
    case (Signal r)
    have "scan_ok (bus_channels (the_bus s)) (woken r (worker s))"
      using old by (cases "worker s") (simp_all add: woken_def)
    moreover have "s' = s\<lparr>worker := woken r (worker s)\<rparr>" using log_reach_step.hyps(2) Signal by simp
    ultimately show ?thesis by (intro chan_inv_frame [OF log_reach_step.IH]) simp_all
  next
    case Start
    then show ?thesis using chan_inv_control [of s s'] log_reach_step.hyps(2) log_reach_step.IH by simp
  next
    case Stop
    then show ?thesis using chan_inv_control [of s s'] log_reach_step.hyps(2) log_reach_step.IH by simp
  next
    case (Enter t msg a rc)
    then show ?thesis using chan_inv_enter log_reach_step.hyps(2) log_reach_step.IH by simp
  next
    case (Producer t)
    then show ?thesis using chan_inv_prod log_reach_step.hyps(2) log_reach_step.IH by simp
  next
    case (Worker errno)
    then show ?thesis using chan_inv_worker log_reach_step.hyps(2) log_reach_step.IH by simp
  qed
qed

section \<open>Properties\<close>

text \<open>
  C4: Delivery, for any number of threads and any interleaving with the worker and with stopping:
  in every reachable state the messages sent on a channel are those the worker has saved from it,
  in the order they were sent and each once, followed by those still in its ring. No two threads
  write to the same channel, and no thread, the worker included, is about to use a channel that
  does not exist.
\<close>

theorem log_delivery:
  assumes "log_reach strategy s"
  shows "(\<forall>a ch. chans (the_bus s) a = Some ch \<longrightarrow>
      (\<exists>xs. ring_contents None ch = map Some xs \<and> sent s a = saves_of a (calls s) @ xs)) \<and>
    (\<forall>a m. Save a m \<in> set (calls s) \<longrightarrow> m \<in> set (sent s a)) \<and>
    (\<forall>t u a. channel_of s t = Some a \<longrightarrow> channel_of s u = Some a \<longrightarrow> t = u) \<and>
    (\<forall>t a m. prod s t = PPush a m \<longrightarrow> channel_of s t = Some a \<and> chans (the_bus s) a \<noteq> None) \<and>
    (\<forall>n a rest has ls. worker s = WScan n (a # rest) has ls \<longrightarrow> chans (the_bus s) a \<noteq> None)"
proof -
  have queues: "queue_at s a" for a using queue_inv_reach [OF assms] by (simp add: queue_inv_def)
  obtain ps where scan: "scan_ok (bus_channels (the_bus s)) (worker s)"
    and ps: "chan_ok (bus_channels (the_bus s) @ ps) (dom (chans (the_bus s))) (channel_of s) (prod s)"
    using log_reach_chan_inv [OF assms] by (auto simp: chan_inv_def)
  have live: "chans (the_bus s) a \<noteq> None" if "a \<in> set (bus_channels (the_bus s) @ ps)" for a
    using ps that by (auto simp: chan_ok_def)
  have saved: "set (saves_of a (calls s)) \<subseteq> set (sent s a)" for a
    using queues [of a] by (auto simp: queue_at_def split: option.splits)
  have in_saves: "Save a m \<in> set cs \<Longrightarrow> m \<in> set (saves_of a cs)" for a m cs
    by (induction a cs rule: saves_of.induct) auto
  show ?thesis
  proof (intro conjI allI impI)
    fix a ch
    assume "chans (the_bus s) a = Some ch"
    then show "\<exists>xs. ring_contents None ch = map Some xs \<and> sent s a = saves_of a (calls s) @ xs"
      using queues [of a] by (auto simp: queue_at_def dest: ring_rep_contents)
  next
    fix a m
    assume "Save a m \<in> set (calls s)"
    then show "m \<in> set (sent s a)" using in_saves saved by blast
  next
    fix t u a
    assume "channel_of s t = Some a" "channel_of s u = Some a"
    moreover have "owned (channel_of s) (prod s) v = channel_of s v" if "channel_of s v = Some a" for v
      using ps that by (auto simp: owned_def chan_ok_def split: prod_pc.split)
    ultimately show "t = u" using ps by (auto simp: chan_ok_def)
  next
    fix t a m
    assume "prod s t = PPush a m"
    then show "channel_of s t = Some a" using ps by (auto simp: chan_ok_def)
    then show "chans (the_bus s) a \<noteq> None" using ps live by (auto simp: chan_ok_def)
  next
    fix n a rest has ls
    assume "worker s = WScan n (a # rest) has ls"
    then show "chans (the_bus s) a \<noteq> None" using scan live [of a] by simp
  qed
qed

text \<open>One thread that sends two messages, the first of which the worker saves.\<close>

definition demo_msg :: "string \<Rightarrow> log_message" where
  "demo_msg w = \<lparr>msg_logger = 32, msg_severity = Info, writer = w\<rparr>"

definition demo_bus :: bus where
  "demo_bus = (case bus_new 0 2 of Inr b \<Rightarrow> b)"

lemma demo_bus_new: "bus_new 0 2 = Inr demo_bus"
  by (simp add: demo_bus_def bus_new_def ptr_ring_new_def ring_new_def)

definition demo_delivery :: "unit choice list" where
  "demo_delivery = [Start, Enter () (demo_msg ''a'') 8 0, Producer (), Producer (), Producer (), Producer (),
     Producer (), Enter () (demo_msg ''b'') 0 0, Producer (), Worker 0, Worker 0, Worker 0]"

theorem log_delivery_witness:
  "\<exists>s. log_exec (\<lambda>_. Retry) demo_delivery (log_init demo_bus) = Some s \<and>
     sent s 8 = [demo_msg ''a'', demo_msg ''b''] \<and> calls s = [Save 8 (demo_msg ''a'')] \<and>
     (\<exists>ch xs. chans (the_bus s) 8 = Some ch \<and> ring_contents None ch = map Some xs \<and>
       sent s 8 = saves_of 8 (calls s) @ xs)"
proof -
  have run: "map_option (\<lambda>s. (sent s 8, calls s, chans (the_bus s) 8 = None))
      (log_exec (\<lambda>_. Retry) demo_delivery (log_init demo_bus)) =
    Some ([demo_msg ''a'', demo_msg ''b''], [Save 8 (demo_msg ''a'')], False)"
    by code_simp
  then obtain s where s: "log_exec (\<lambda>_. Retry) demo_delivery (log_init demo_bus) = Some s"
    "sent s 8 = [demo_msg ''a'', demo_msg ''b'']" "calls s = [Save 8 (demo_msg ''a'')]"
    "chans (the_bus s) 8 \<noteq> None" by auto
  have "log_reach (\<lambda>_. Retry) s"
    using log_reach_init [OF demo_bus_new] s(1) by (rule log_reach_exec)
  from log_delivery [OF this] s show ?thesis by fastforce
qed

end
