(* ===== verification/Log_Stop.thy ===== *)
theory Log_Stop
  imports Log_Delivery
begin

text \<open>
  The worker on its own: it empties every channel and ends, provided it begins a pass when all
  threads are done and \<open>m_stopping\<close> is set. What happens when these come in another order.
\<close>

section \<open>Steps of the worker alone\<close>

definition worker_run :: "(addr \<Rightarrow> overflow_strategy) \<Rightarrow> 't log_state \<Rightarrow> 't log_state \<Rightarrow> bool" where
  "worker_run strategy s s' \<longleftrightarrow> (\<exists>n. log_exec strategy (replicate n (Worker 0)) s = Some s')"

lemma worker_run_refl: "worker_run strategy s s"
  unfolding worker_run_def by (rule exI [of _ 0]) simp

lemma worker_run_trans:
  assumes "worker_run strategy s s'" "worker_run strategy s' s''"
  shows "worker_run strategy s s''"
proof -
  obtain n m where "log_exec strategy (replicate n (Worker 0)) s = Some s'"
    "log_exec strategy (replicate m (Worker 0)) s' = Some s''"
    using assms by (auto simp: worker_run_def)
  then have "log_exec strategy (replicate (n + m) (Worker 0)) s = Some s''"
    by (simp add: replicate_add log_exec_append)
  then show ?thesis unfolding worker_run_def by (rule exI)
qed

lemma worker_run_step: "worker_go 0 s = Some s' \<Longrightarrow> worker_run strategy s s'"
  unfolding worker_run_def by (rule exI [of _ 1]) simp

lemma worker_run_reach: "worker_run strategy s s' \<Longrightarrow> log_reach strategy s \<Longrightarrow> log_reach strategy s'"
  using log_reach_exec by (auto simp: worker_run_def)

text \<open>What the worker's steps leave alone.\<close>

definition same_senders :: "'t log_state \<Rightarrow> 't log_state \<Rightarrow> bool" where
  "same_senders s s' \<longleftrightarrow> sent s' = sent s \<and> prod s' = prod s \<and> stopping s' = stopping s \<and>
     control s' = control s \<and> dom (chans (the_bus s')) = dom (chans (the_bus s))"

lemma channel_pop_dom: "channel_pop a b = Inr (msg, b') \<Longrightarrow> dom (chans b') = dom (chans b)"
  by (auto simp: channel_pop_def split: option.splits prod.splits if_splits)

lemma worker_go_same:
  assumes "worker_go errno s = Some s'"
  shows "same_senders s s'"
proof (cases "worker s")
  case (WCollect n)
  obtain again b where "collect_one (the_bus s) = (again, b)" by fastforce
  then show ?thesis using assms WCollect collect_one_chans [of "the_bus s" again b]
    by (auto simp: worker_go_def same_senders_def)
next
  case (WScan n rest has ls)
  show ?thesis
  proof (cases rest)
    case Nil
    then show ?thesis using assms WScan by (auto simp: worker_go_def same_senders_def split: if_splits)
  next
    case (Cons a rest')
    then obtain msg b where b: "channel_pop a (the_bus s) = Inr (msg, b)"
      using assms WScan by (auto simp: worker_go_def split: sum.splits)
    then have "the_bus s' = b \<and> sent s' = sent s \<and> prod s' = prod s \<and> stopping s' = stopping s \<and> control s' = control s"
      using assms WScan Cons by (cases msg) (auto simp: worker_go_def)
    then show ?thesis using channel_pop_dom [OF b] by (simp add: same_senders_def)
  qed
qed (use assms in \<open>auto simp: worker_go_def same_senders_def wait_store_def split: if_splits\<close>)

lemma worker_exec_same:
  "log_exec strategy (replicate n (Worker 0)) s = Some s' \<Longrightarrow> same_senders s s'"
proof (induction n arbitrary: s)
  case (Suc n)
  then obtain s1 where s1: "worker_go 0 s = Some s1" "log_exec strategy (replicate n (Worker 0)) s1 = Some s'"
    by (auto split: option.splits)
  then show ?case using worker_go_same [OF s1(1)] Suc.IH [OF s1(2)] by (simp add: same_senders_def)
qed (simp add: same_senders_def)

lemma worker_run_same: "worker_run strategy s s' \<Longrightarrow> same_senders s s'"
  using worker_exec_same by (auto simp: worker_run_def)

section \<open>Collecting\<close>

lemma collect_pass:
  assumes "ring_rep nullptr (bus_pending (the_bus s)) ps" "worker s = WCollect n"
  shows "\<exists>s'. worker_run strategy s s' \<and> worker s' = WScan n (bus_channels (the_bus s')) False [] \<and>
    calls s' = calls s \<and> ring_rep nullptr (bus_pending (the_bus s')) []"
  using assms
proof (induction ps arbitrary: s)
  case Nil
  obtain p where "collect_one (the_bus s) = (False, the_bus s\<lparr>bus_pending := p\<rparr>)" "ring_rep nullptr p []"
    using collect_one_rep [OF Nil(1)] by auto
  then show ?case
    using Nil(2)
    by (intro exI [of _ "s\<lparr>the_bus := the_bus s\<lparr>bus_pending := p\<rparr>,
        worker := WScan n (bus_channels (the_bus s)) False []\<rparr>"])
      (simp add: worker_run_step worker_go_def)
next
  case (Cons a ps)
  obtain p where p: "collect_one (the_bus s) =
      (True, the_bus s\<lparr>bus_pending := p, bus_channels := bus_channels (the_bus s) @ [a]\<rparr>)"
    "ring_rep nullptr p ps"
    using collect_one_rep [OF Cons.prems(1)] by auto
  let ?s = "s\<lparr>the_bus := the_bus s\<lparr>bus_pending := p, bus_channels := bus_channels (the_bus s) @ [a]\<rparr>\<rparr>"
  have "worker_go 0 s = Some ?s" using p Cons.prems(2) by (simp add: worker_go_def)
  then have step: "worker_run strategy s ?s" by (rule worker_run_step)
  have "\<exists>s'. worker_run strategy ?s s' \<and> worker s' = WScan n (bus_channels (the_bus s')) False [] \<and>
    calls s' = calls ?s \<and> ring_rep nullptr (bus_pending (the_bus s')) []"
    by (rule Cons.IH) (use p Cons.prems(2) in simp_all)
  then obtain s' where s': "worker_run strategy ?s s'" "worker s' = WScan n (bus_channels (the_bus s')) False []"
    "calls s' = calls ?s" "ring_rep nullptr (bus_pending (the_bus s')) []" by blast
  show ?case
    using worker_run_trans [OF step s'(1)] s'(2-4) by (intro exI [of _ s']) simp
qed

section \<open>One pass over the channels\<close>

definition saved_len :: "'t log_state \<Rightarrow> addr \<Rightarrow> nat" where
  "saved_len s a = length (saves_of a (calls s))"

text \<open>
  A pass saves something, or finds every channel it visits empty: everything sent there is saved.
\<close>

lemma scan_pass:
  assumes "log_reach strategy s" "worker s = WScan n rest has ls"
  shows "\<exists>s' has' ls'. worker_run strategy s s' \<and> worker s' = WScan n [] has' ls' \<and>
    bus_pending (the_bus s') = bus_pending (the_bus s) \<and> bus_channels (the_bus s') = bus_channels (the_bus s) \<and>
    (\<forall>a. saved_len s a \<le> saved_len s' a) \<and> (has \<longrightarrow> has') \<and>
    (if has' then has \<or> (\<exists>a\<in>set rest. saved_len s a < saved_len s' a)
     else calls s' = calls s \<and> (\<forall>a\<in>set rest. sent s a = saves_of a (calls s)))"
  using assms
proof (induction rest arbitrary: s has ls)
  case Nil
  then show ?case
    by (intro exI [of _ s] exI [of _ has] exI [of _ ls]) (simp add: worker_run_refl)
next
  case (Cons a rest)
  have inv: "queue_inv s" "chan_inv s"
    using Cons.prems(1) by (rule queue_inv_reach, rule log_reach_chan_inv)
  then obtain ps where "chan_ok (bus_channels (the_bus s) @ ps) (dom (chans (the_bus s))) (channel_of s) (prod s)"
    "scan_ok (bus_channels (the_bus s)) (worker s)" by (auto simp: chan_inv_def)
  then have "a \<in> dom (chans (the_bus s))" using Cons.prems(2) by (auto simp: chan_ok_def)
  then obtain ch0 where "chans (the_bus s) a = Some ch0" by blast
  then obtain xs where xs: "queue_rep (the_bus s) a xs" "sent s a = saves_of a (calls s) @ xs"
    using queue_at_rep [OF inv(1)] by blast
  obtain ch where ch: "channel_pop a (the_bus s) =
      Inr (case xs of [] \<Rightarrow> None | x # _ \<Rightarrow> Some x, the_bus s\<lparr>chans := (chans (the_bus s))(a \<mapsto> ch)\<rparr>)"
    using channel_pop_rep [OF xs(1)] by blast
  define s1 where "s1 = s\<lparr>the_bus := the_bus s\<lparr>chans := (chans (the_bus s))(a \<mapsto> ch)\<rparr>,
    worker := (case xs of [] \<Rightarrow> WScan n rest has ls | x # _ \<Rightarrow> WScan n rest True (ls @ [msg_logger x])),
    calls := calls s @ (case xs of [] \<Rightarrow> [] | x # _ \<Rightarrow> [Save a x])\<rparr>"
  have go: "worker_go 0 s = Some s1"
    using Cons.prems(2) ch by (cases xs) (simp_all add: worker_go_def s1_def)
  then have run: "worker_run strategy s s1" by (rule worker_run_step)
  have same: "sent s1 = sent s" using worker_go_same [OF go] by (simp add: same_senders_def)
  have reach: "log_reach strategy s1" using worker_run_reach [OF run Cons.prems(1)] .
  obtain has1 ls1 where w1: "worker s1 = WScan n rest has1 ls1" and has1: "has1 \<longleftrightarrow> has \<or> xs \<noteq> []"
    by (cases xs) (simp_all add: s1_def)
  obtain s' has' ls' where s': "worker_run strategy s1 s'" "worker s' = WScan n [] has' ls'"
    "bus_pending (the_bus s') = bus_pending (the_bus s1)" "bus_channels (the_bus s') = bus_channels (the_bus s1)"
    "\<forall>a. saved_len s1 a \<le> saved_len s' a" "has1 \<longrightarrow> has'"
    "if has' then has1 \<or> (\<exists>a\<in>set rest. saved_len s1 a < saved_len s' a)
     else calls s' = calls s1 \<and> (\<forall>a\<in>set rest. sent s1 a = saves_of a (calls s1))"
    using Cons.IH [OF reach w1] by (elim exE conjE) (rule that; assumption)
  have more_saved: "saved_len s b \<le> saved_len s1 b" for b by (simp add: saved_len_def s1_def)
  have popped: "saved_len s a < saved_len s1 a" if "xs \<noteq> []"
    using that by (cases xs) (simp_all add: saved_len_def s1_def)
  have idle: "calls s1 = calls s \<and> sent s a = saves_of a (calls s)" if "xs = []"
    using that xs(2) by (simp add: s1_def)
  have "if has' then has \<or> (\<exists>b\<in>set (a # rest). saved_len s b < saved_len s' b)
     else calls s' = calls s \<and> (\<forall>b\<in>set (a # rest). sent s b = saves_of b (calls s))"
  proof (cases has')
    case True
    consider "has" | "xs \<noteq> []" | b where "b \<in> set rest" "saved_len s1 b < saved_len s' b"
      using s'(7) True has1 by auto
    then show ?thesis
    proof cases
      case 2
      then have "saved_len s a < saved_len s' a" using popped s'(5) less_le_trans by blast
      then show ?thesis using True by simp
    next
      case 3
      then have "saved_len s b < saved_len s' b" using more_saved le_less_trans by blast
      then show ?thesis using True 3(1) by auto
    qed (simp add: True)
  next
    case False
    then have "xs = []" "\<not> has" using s'(6) has1 by auto
    then show ?thesis using False s'(7) idle same by simp
  qed
  moreover have "\<forall>b. saved_len s b \<le> saved_len s' b" using more_saved s'(5) order_trans by blast
  moreover have "has \<longrightarrow> has'" using s'(6) has1 by simp
  moreover have "bus_pending (the_bus s1) = bus_pending (the_bus s)"
    "bus_channels (the_bus s1) = bus_channels (the_bus s)" by (simp_all add: s1_def)
  ultimately show ?case
    using worker_run_trans [OF run s'(1)] s'(2-4)
    by (intro exI [of _ s'] exI [of _ has'] exI [of _ ls']) simp
qed

section \<open>Draining\<close>

definition unsaved :: "'t log_state \<Rightarrow> nat" where
  "unsaved s = (\<Sum>a\<in>dom (chans (the_bus s)). length (sent s a) - saved_len s a)"

lemma saved_len_le:
  assumes "log_reach strategy s"
  shows "saved_len s a \<le> length (sent s a)"
proof -
  have "queue_at s a" using queue_inv_reach [OF assms] by (simp add: queue_inv_def)
  then show ?thesis by (auto simp: queue_at_def saved_len_def split: option.splits)
qed

lemma idle_channels:
  assumes "log_reach strategy s" "\<forall>t. prod s t = PIdle"
  shows "\<exists>ps. ring_rep nullptr (bus_pending (the_bus s)) ps \<and>
    dom (chans (the_bus s)) = set (bus_channels (the_bus s) @ ps)"
  using log_reach_chan_inv [OF assms(1)] assms(2) by (auto simp: chan_inv_def chan_ok_def)

lemma unsaved_less:
  assumes "log_reach strategy s" "log_reach strategy s'" "\<forall>t. prod s t = PIdle"
    "same_senders s s'" "\<forall>a. saved_len s a \<le> saved_len s' a"
    "a \<in> dom (chans (the_bus s))" "saved_len s a < saved_len s' a"
  shows "unsaved s' < unsaved s"
proof -
  have same: "sent s' = sent s" "dom (chans (the_bus s')) = dom (chans (the_bus s))"
    using assms(4) by (simp_all add: same_senders_def)
  have "length (sent s b) - saved_len s' b \<le> length (sent s b) - saved_len s b" for b
    using assms(5) by (simp add: diff_le_mono2)
  moreover have "length (sent s a) - saved_len s' a < length (sent s a) - saved_len s a"
    using assms(7) saved_len_le [OF assms(2), of a] same(1) by (simp add: diff_less_mono2)
  moreover have "finite (dom (chans (the_bus s)))"
    using idle_channels [OF assms(1,3)] by auto
  ultimately show ?thesis
    unfolding unsaved_def same using assms(6) by (intro sum_strict_mono_ex1) auto
qed

lemma drain:
  assumes "log_reach strategy s" "stopping s" "\<forall>t. prod s t = PIdle" "worker s = WCollect n"
  shows "\<exists>s'. worker_run strategy s s' \<and> worker s' = WExit \<and> (\<forall>a. saves_of a (calls s') = sent s a)"
  using assms
proof (induction "unsaved s" arbitrary: s n rule: less_induct)
  case less
  obtain ps where ps: "ring_rep nullptr (bus_pending (the_bus s)) ps"
    using idle_channels [OF less.prems(1,3)] by blast
  obtain s1 where s1: "worker_run strategy s s1" "worker s1 = WScan n (bus_channels (the_bus s1)) False []"
    "calls s1 = calls s" "ring_rep nullptr (bus_pending (the_bus s1)) []"
    using collect_pass [OF ps less.prems(4)] by blast
  note same1 = worker_run_same [OF s1(1)]
  have reach1: "log_reach strategy s1" by (rule worker_run_reach [OF s1(1) less.prems(1)])
  have idle1: "\<forall>t. prod s1 t = PIdle" using same1 less.prems(3) by (simp add: same_senders_def)
  obtain qs where "ring_rep nullptr (bus_pending (the_bus s1)) qs"
    "dom (chans (the_bus s1)) = set (bus_channels (the_bus s1) @ qs)"
    using idle_channels [OF reach1 idle1] by blast
  moreover from this(1) have "qs = []" using ring_rep_contents [OF s1(4)] by (auto dest: ring_rep_contents)
  ultimately have all: "dom (chans (the_bus s1)) = set (bus_channels (the_bus s1))" by simp
  obtain s2 has ls where s2: "worker_run strategy s1 s2" "worker s2 = WScan n [] has ls"
    "\<forall>a. saved_len s1 a \<le> saved_len s2 a"
    "if has then False \<or> (\<exists>a\<in>set (bus_channels (the_bus s1)). saved_len s1 a < saved_len s2 a)
     else calls s2 = calls s1 \<and> (\<forall>a\<in>set (bus_channels (the_bus s1)). sent s1 a = saves_of a (calls s1))"
    using scan_pass [OF reach1 s1(2)] by (elim exE conjE) (rule that; assumption)
  note run12 = worker_run_trans [OF s1(1) s2(1)]
  note same12 = worker_run_same [OF run12]
  have reach2: "log_reach strategy s2" by (rule worker_run_reach [OF s2(1) reach1])
  show ?case
  proof (cases has)
    case True
    let ?s3 = "s2\<lparr>worker := WCollect 0, calls := calls s2 @ map Flush ls\<rparr>"
    have go: "worker_go 0 s2 = Some ?s3" using s2(2) True by (simp add: worker_go_def)
    have run13: "worker_run strategy s ?s3" by (rule worker_run_trans [OF run12 worker_run_step [OF go]])
    note same13 = worker_run_same [OF run13]
    have reach3: "log_reach strategy ?s3" by (rule worker_run_reach [OF run13 less.prems(1)])
    obtain a where a: "a \<in> set (bus_channels (the_bus s1))" "saved_len s1 a < saved_len s2 a"
      using s2(4) True by auto
    have len: "saved_len s1 b = saved_len s b" "saved_len ?s3 b = saved_len s2 b" for b
      using s1(3) by (simp_all add: saved_len_def)
    have "unsaved ?s3 < unsaved s"
    proof (rule unsaved_less [OF less.prems(1) reach3 less.prems(3) same13])
      show "a \<in> dom (chans (the_bus s))" using a(1) all same1 by (simp add: same_senders_def)
    qed (use s2(3) a(2) in \<open>simp_all add: len\<close>)
    then have "\<exists>s'. worker_run strategy ?s3 s' \<and> worker s' = WExit \<and> (\<forall>a. saves_of a (calls s') = sent ?s3 a)"
      by (rule less.hyps [OF _ reach3]) (use same13 less.prems(2,3) in \<open>simp_all add: same_senders_def\<close>)
    then obtain s' where "worker_run strategy ?s3 s'" "worker s' = WExit" "\<forall>a. saves_of a (calls s') = sent ?s3 a"
      by blast
    then show ?thesis
      using worker_run_trans [OF run13] same13 by (intro exI [of _ s']) (simp add: same_senders_def)
  next
    case False
    let ?s3 = "s2\<lparr>worker := WStop n ls\<rparr>"
    let ?s4 = "?s3\<lparr>worker := WExit, calls := calls s2 @ map Flush ls\<rparr>"
    have "worker_go 0 s2 = Some ?s3" using s2(2) False by (simp add: worker_go_def)
    moreover have "worker_go 0 ?s3 = Some ?s4"
      using same12 less.prems(2) by (simp add: worker_go_def same_senders_def)
    ultimately have run: "worker_run strategy s ?s4"
      by (blast intro: worker_run_trans [OF run12] worker_run_trans worker_run_step)
    have "saves_of a (calls ?s4) = sent s a" for a
    proof (cases "a \<in> dom (chans (the_bus s1))")
      case True
      then have "sent s1 a = saves_of a (calls s1)" using all s2(4) False by simp
      then show ?thesis using s2(4) False same1 by (simp add: same_senders_def)
    next
      case out: False
      have "queue_at s1 a" using queue_inv_reach [OF reach1] by (simp add: queue_inv_def)
      then show ?thesis using out s2(4) False same1 by (auto simp: queue_at_def same_senders_def domIff)
    qed
    then show ?thesis using run by (intro exI [of _ ?s4]) simp
  qed
qed

section \<open>Properties\<close>


text \<open>One thread sends two messages before the worker has begun; then \<open>stop\<close> is called.\<close>

definition demo_last :: "unit choice list" where
  "demo_last = [Start, Enter () (demo_msg ''a'') 8 0, Producer (), Producer (), Producer (), Producer (),
     Producer (), Enter () (demo_msg ''b'') 0 0, Producer (), Producer (), Stop]"


text \<open>
  C26: \<open>stop\<close> can lose a message that was sent before it was called: the worker looks at
  \<open>m_stopping\<close> only after it has found the channels empty. A message that is pushed in between,
  by a call of \<open>log\<close> that returns before \<open>stop\<close> begins, is never saved, although \<open>stop\<close> joins
  the worker.
\<close>

theorem stop_loses_message:
  "\<exists>(s :: unit log_state) s' cs. log_reach (\<lambda>_. Retry) s \<and> (\<forall>t. prod s t = PIdle) \<and> control s = CRunning \<and>
     sent s 8 = [demo_msg ''a''] \<and> log_exec (\<lambda>_. Retry) (Stop # cs) s = Some s' \<and>
     control s' = CStopped \<and> worker s' = WExit \<and> calls s' = []"
proof -
  let ?before = "[Start, Worker 0, Worker 0, Enter () (demo_msg ''a'') 8 0, Producer (), Producer (), Producer (),
    Producer (), Producer ()]"
  let ?rest = "[Worker 0, Stop, Stop, Stop]"
  have 1: "map_option (\<lambda>s. (prod s (), control s, sent s 8)) (log_exec (\<lambda>_. Retry) ?before (log_init demo_bus)) =
    Some (PIdle, CRunning, [demo_msg ''a''])"
    by code_simp
  have 2: "map_option (\<lambda>s. (control s, worker s, calls s))
      (log_exec (\<lambda>_. Retry) (?before @ Stop # ?rest) (log_init demo_bus)) = Some (CStopped, WExit, [])"
    by code_simp
  obtain s where s: "log_exec (\<lambda>_. Retry) ?before (log_init demo_bus) = Some s" "prod s () = PIdle"
    "control s = CRunning" "sent s 8 = [demo_msg ''a'']" using 1 by auto
  obtain s' where "log_exec (\<lambda>_. Retry) (Stop # ?rest) s = Some s'" "control s' = CStopped" "worker s' = WExit"
    "calls s' = []" using 2 s(1) unfolding log_exec_append by auto
  moreover have "log_reach (\<lambda>_. Retry) s"
    using log_reach_init [OF demo_bus_new] s(1) by (rule log_reach_exec)
  ultimately show ?thesis
    using s(2-4) by (intro exI [of _ s] exI [of _ s'] exI [of _ ?rest]) auto
qed

text \<open>The worker spins through passes over no channels.\<close>

lemma spin_once:
  assumes "ring_rep nullptr (bus_pending (the_bus s)) []" "bus_channels (the_bus s) = []"
    "worker s = WCollect n" "\<not> stopping s" "n < MAX_SPINS"
  shows "log_exec strategy (replicate 3 (Worker e)) s = Some (s\<lparr>worker := WCollect (n + 1)\<rparr>)"
proof -
  have "collect_one (the_bus s) = (False, the_bus s)"
    using ring_pop_nil [OF assms(1)] by (simp add: collect_one_def)
  then show ?thesis
    using assms by (simp add: eval_nat_numeral worker_go_def)
qed

lemma spin_up:
  assumes "ring_rep nullptr (bus_pending (the_bus s)) []" "bus_channels (the_bus s) = []"
    "worker s = WCollect 0" "\<not> stopping s"
  shows "n \<le> MAX_SPINS \<Longrightarrow>
    log_exec strategy (replicate (n * 3) (Worker e)) s = Some (s\<lparr>worker := WCollect n\<rparr>)"
proof (induction n)
  case 0
  then show ?case using assms(3) by simp
next
  case (Suc n)
  let ?s = "s\<lparr>worker := WCollect n\<rparr>"
  have "log_exec strategy (replicate 3 (Worker e)) ?s = Some (?s\<lparr>worker := WCollect (n + 1)\<rparr>)"
    by (rule spin_once) (use assms Suc.prems in simp_all)
  moreover have "Suc n * 3 = n * 3 + 3" by simp
  then have split: "replicate (Suc n * 3) (Worker e) = replicate (n * 3) (Worker e) @ replicate 3 (Worker e)"
    by (simp only: replicate_add)
  ultimately show ?case using Suc unfolding split log_exec_append by simp
qed

text \<open>
  C25: \<open>stop\<close> can hang: a worker that is about to wait clears the futex after \<open>notify\<close> has set
  it and goes to sleep, \<open>stop\<close> waits for it to end, and from then on no step is left to
  anybody, other than a further call of \<open>log\<close>, unless the sleep is interrupted by a signal.
\<close>

theorem stop_hangs:
  "\<exists>s :: 't log_state. log_reach strategy s \<and> stopping s \<and> control s = CJoin \<and> (\<exists>e. worker s = WAsleep e) \<and>
     (\<forall>t. log_next strategy (Producer t) s = None) \<and> (\<forall>errno. log_next strategy (Worker errno) s = None) \<and>
     log_next strategy Start s = None \<and> log_next strategy Stop s = None"
proof -
  let ?i = "log_init demo_bus :: 't log_state"
  let ?s0 = "?i\<lparr>control := CRunning, worker := WCollect 0\<rparr>"
  let ?s1 = "?s0\<lparr>worker := WCollect MAX_SPINS\<rparr>"
  let ?s2 = "?s1\<lparr>worker := WStore\<rparr>"
  let ?s3 = "?s2\<lparr>stopping := True, the_bus := demo_bus\<lparr>bus_futex := 0\<rparr>, worker := WAsleep 0, control := CJoin\<rparr>"
  note bus = bus_new_rep [OF demo_bus_new]
  have empty: "collect_one demo_bus = (False, demo_bus)"
    using ring_pop_nil [of nullptr "bus_pending demo_bus"] bus by (simp add: collect_one_def)
  have "log_reach strategy ?s0"
    by (rule log_reach_step [OF log_reach_init [OF demo_bus_new], of _ Start])
      (simp add: control_start_def log_init_def)
  moreover have "log_exec strategy (replicate (MAX_SPINS * 3) (Worker 0)) ?s0 = Some (?s0\<lparr>worker := WCollect MAX_SPINS\<rparr>)"
    by (rule spin_up) (use bus in \<open>simp_all add: log_init_def\<close>)
  ultimately have "log_reach strategy ?s1" by (rule log_reach_exec)
  moreover have "log_exec strategy [Worker 0, Worker 0, Worker 0] ?s1 = Some ?s2"
    using bus empty by (simp add: worker_go_def log_init_def MAX_SPINS_def)
  ultimately have "log_reach strategy ?s2" by (rule log_reach_exec)
  moreover have "log_exec strategy [Stop, Stop, Stop, Stop, Worker 0, Worker 0] ?s2 = Some ?s3"
    using bus
    by (simp add: control_stop_def worker_go_def log_init_def notify_load_def notify_exchange_def
        woken_def wait_store_def futex_sleeps_def)
  ultimately have "log_reach strategy ?s3" by (rule log_reach_exec)
  moreover have "log_next strategy (Producer t) ?s3 = None" "log_next strategy (Worker errno) ?s3 = None"
    "log_next strategy Start ?s3 = None" "log_next strategy Stop ?s3 = None" for t errno
    by (simp_all add: log_init_def prod_go_def worker_go_def control_start_def control_stop_def)
  ultimately show ?thesis by (intro exI [of _ ?s3]) simp
qed

end
