(* ===== verification/Log_Service.thy ===== *)
theory Log_Service
  imports Log_Bus
begin

text \<open>
  \<^verbatim>\<open>src/logging/log_service.cc\<close>, which owns the loggers by name, and \<^verbatim>\<open>src/logging/logging.cc\<close>,
  the one service of the process. The threads behind \<open>start\<close> and \<open>stop\<close> are in \<open>Log_Run\<close>; here
  only whether the worker thread exists is kept, and \<open>stop\<close> is taken to have joined it.
\<close>

section \<open>State\<close>

text \<open>
  \<open>m_loggers\<close> maps names to owned loggers, which live in a heap because \<open>get\<close> hands out
  pointers to them. \<open>svc_bus\<close> is the address of the service's bus.
\<close>

record service =
  svc_bus :: addr
  svc_queue :: bus
  svc_loggers :: "(string \<times> addr) list"
  svc_thread :: bool
  svc_stopping :: bool

type_synonym log_heap = "(addr \<rightharpoonup> logger) \<times> streams"

definition service_new :: "int \<Rightarrow> addr \<Rightarrow> u64 \<Rightarrow> service result" where
  "service_new rc bus_addr queue_size =
     bindE (bus_new rc queue_size) (\<lambda>b.
     Inr \<lparr>svc_bus = bus_addr, svc_queue = b, svc_loggers = [], svc_thread = False, svc_stopping = False\<rparr>)"

text \<open>The end of a \<open>unique_ptr\<close> to a logger.\<close>

definition logger_free :: "addr \<Rightarrow> log_heap \<Rightarrow> log_heap result" where
  "logger_free p H =
     (if p = nullptr then Inr H
      else case fst H p of
        None \<Rightarrow> Inl (BadDeref p)
      | Some l \<Rightarrow> bindE (logger_delete l (snd H)) (\<lambda>S. Inr ((fst H)(p := None), S)))"

section \<open>Operations\<close>

text \<open>
  \<open>emplace\<close> keeps an entry that is there and then destroys the pair it was given, and with it the
  new logger.
\<close>

definition add_logger :: "string \<Rightarrow> addr \<Rightarrow> service \<Rightarrow> log_heap \<Rightarrow> (bool \<times> service \<times> log_heap) result" where
  "add_logger name logger svc H =
     (if map_of (svc_loggers svc) name \<noteq> None then
        bindE (logger_free logger H) (\<lambda>H. Inr (False, svc, H))
      else
        let svc = svc\<lparr>svc_loggers := (name, logger) # svc_loggers svc\<rparr> in
        case (if logger = nullptr then None else fst H logger) of
          None \<Rightarrow> Inl (BadDeref logger)
        | Some l \<Rightarrow> Inr (True, svc, (fst H)(logger \<mapsto> logger_connect (svc_bus svc) l), snd H))"

definition not_found_text :: "string \<Rightarrow> string" where
  "not_found_text name = ''Logger '' @ [CHR 0x22] @ name @ [CHR 0x22] @ '' not found''"

definition service_get :: "string \<Rightarrow> service \<Rightarrow> addr result" where
  "service_get name svc = (case map_of (svc_loggers svc) name of
     None \<Rightarrow> Inl (LoggerNotFound (not_found_text name))
   | Some logger \<Rightarrow> Inr logger)"

definition service_start :: "service \<Rightarrow> service result" where
  "service_start svc = bindE (assertE (\<not> svc_thread svc)) (\<lambda>_. Inr (svc\<lparr>svc_thread := True\<rparr>))"

definition service_stop :: "service \<Rightarrow> service" where
  "service_stop svc =
     (if \<not> svc_thread svc then svc else svc\<lparr>svc_stopping := True, svc_thread := False\<rparr>)"

fun loggers_free :: "(string \<times> addr) list \<Rightarrow> log_heap \<Rightarrow> log_heap result" where
  "loggers_free [] H = Inr H"
| "loggers_free ((name, p) # ls) H = bindE (logger_free p H) (loggers_free ls)"

text \<open>
  The destructor stops the worker and then destroys the loggers, in the order of the hash table:
  any permutation \<open>order\<close> of the entries.
\<close>

definition service_delete ::
  "((string \<times> addr) list \<Rightarrow> (string \<times> addr) list) \<Rightarrow> service \<Rightarrow> log_heap \<Rightarrow> log_heap result" where
  "service_delete order svc H = loggers_free (order (svc_loggers (service_stop svc))) H"

section \<open>The process-wide service\<close>

text \<open>\<open>service_instance\<close> is \<open>None\<close> for the null pointer.\<close>

definition log_init_service ::
  "((string \<times> addr) list \<Rightarrow> (string \<times> addr) list) \<Rightarrow> int \<Rightarrow> addr \<Rightarrow> u64 \<Rightarrow> service option \<Rightarrow> log_heap \<Rightarrow>
    (service option \<times> log_heap) result" where
  "log_init_service order rc bus_addr queue_size instance H =
     bindE (case instance of None \<Rightarrow> Inr H | Some svc \<Rightarrow> service_delete order svc H) (\<lambda>H.
     bindE (service_new rc bus_addr queue_size) (\<lambda>svc. Inr (Some svc, H)))"

definition log_logger :: "string \<Rightarrow> service option \<Rightarrow> addr result" where
  "log_logger name instance = (case instance of None \<Rightarrow> Inr nullptr | Some svc \<Rightarrow> service_get name svc)"

definition log_start :: "service option \<Rightarrow> service option result" where
  "log_start instance =
     bindE (assertE (instance \<noteq> None)) (\<lambda>_.
     bindE (service_start (the instance)) (\<lambda>svc. Inr (Some svc)))"

definition log_stop :: "service option \<Rightarrow> service option result" where
  "log_stop instance =
     bindE (assertE (instance \<noteq> None)) (\<lambda>_. Inr (Some (service_stop (the instance))))"

section \<open>Destroying loggers\<close>

text \<open>A logger whose sinks have open streams, each its own, can be destroyed.\<close>

definition logger_sole :: "streams \<Rightarrow> logger \<Rightarrow> bool" where
  "logger_sole S l \<longleftrightarrow> logger_ok S l \<and> distinct (map sink_stream (sinks_of l))"

lemma sink_delete_ok:
  assumes "sink_ok S s"
  shows "\<exists>S'. sink_delete s S = Inr S' \<and> (\<forall>a. a \<noteq> sink_stream s \<longrightarrow> S' a = S a)"
proof -
  obtain st where st: "S (sink_stream s) = Some st" "is_open st" "sink_stream s \<noteq> nullptr"
    using assms by (auto simp: sink_ok_def)
  show ?thesis
  proof (cases s)
    case (StdStreamSink level stream unlocked)
    then show ?thesis using st by (simp add: fflush_def with_stream_def)
  next
    case (FileSink level stream)
    then show ?thesis using st
      by (simp add: fflush_def fsync_def fclose_def with_stream_def stream_flush_def)
  qed
qed

lemma sinks_delete_ok:
  assumes "list_all (sink_ok S) sinks" "distinct (map sink_stream sinks)"
  shows "\<exists>S'. sinks_delete (map Some sinks) S = Inr S' \<and>
    (\<forall>a. a \<notin> sink_stream ` set sinks \<longrightarrow> S' a = S a)"
  using assms
proof (induction sinks arbitrary: S)
  case (Cons s sinks)
  obtain S1 where S1: "sink_delete s S = Inr S1" "\<forall>a. a \<noteq> sink_stream s \<longrightarrow> S1 a = S a"
    using sink_delete_ok [of S s] Cons.prems(1) by auto
  have "sink_ok S1 t" if "t \<in> set sinks" for t
  proof -
    have "sink_stream t \<noteq> sink_stream s" using that Cons.prems(2) by (metis image_eqI distinct.simps(2) list.set_map list.simps(9))
    then show ?thesis using that Cons.prems(1) S1(2) by (auto simp: sink_ok_def list_all_iff)
  qed
  then have ok1: "list_all (sink_ok S1) sinks" by (simp add: list_all_iff)
  have "distinct (map sink_stream sinks)" using Cons.prems(2) by simp
  from Cons.IH [OF ok1 this] obtain S2 where "sinks_delete (map Some sinks) S1 = Inr S2"
    "\<forall>a. a \<notin> sink_stream ` set sinks \<longrightarrow> S2 a = S1 a"
    by blast
  then show ?case using S1 by (intro exI [of _ S2]) simp
qed simp

lemma logger_delete_ok:
  assumes "logger_sole S l"
  shows "\<exists>S'. logger_delete l S = Inr S' \<and> (\<forall>a. a \<notin> sink_stream ` set (sinks_of l) \<longrightarrow> S' a = S a)"
proof -
  let ?F = "flush_those (sink_stream ` set (sinks_of l)) S"
  have ok: "m_sinks l = map Some (sinks_of l)" "list_all (sink_ok S) (sinks_of l)"
    using assms logger_ok_sinks by (auto simp: logger_sole_def)
  then have "list_all (sink_ok ?F) (sinks_of l)" by (simp add: list_all_iff)
  moreover have "distinct (map sink_stream (sinks_of l))" using assms by (simp add: logger_sole_def)
  ultimately obtain S' where S': "sinks_delete (map Some (sinks_of l)) ?F = Inr S'"
    "\<forall>a. a \<notin> sink_stream ` set (sinks_of l) \<longrightarrow> S' a = ?F a"
    using sinks_delete_ok by blast
  moreover have "?F a = S a" if "a \<notin> sink_stream ` set (sinks_of l)" for a
    using that by (simp add: flush_those_def option.map_ident)
  ultimately show ?thesis
    using ok sinks_flush_ok [OF ok(2)]
    by (intro exI [of _ S']) (simp add: logger_delete_def logger_flush_def)
qed

section \<open>Properties\<close>

text \<open>
  C37: Registering a logger: under a new name it is stored, connected to the service's bus, and
  found by \<open>get\<close> from then on; under a name that is taken the call returns false, every name keeps
  its logger, and the logger that was passed is destroyed with its sinks, other loggers and streams
  left alone. Names that were never registered raise \<open>LoggerNotFound\<close>.
\<close>

theorem add_logger_registers:
  assumes "p \<noteq> nullptr" "L p = Some l" "logger_sole S l"
  shows "\<exists>fresh svc' L' S'. add_logger name p svc (L, S) = Inr (fresh, svc', L', S') \<and>
    (fresh \<longleftrightarrow> service_get name svc = Inl (LoggerNotFound (not_found_text name))) \<and>
    (\<forall>n. service_get n svc' = (if fresh \<and> n = name then Inr p else service_get n svc)) \<and>
    (if fresh then S' = S \<and> L' = L(p \<mapsto> l\<lparr>m_output := svc_bus svc\<rparr>)
     else L' = L(p := None) \<and> (\<forall>a. a \<notin> sink_stream ` set (sinks_of l) \<longrightarrow> S' a = S a))"
proof (cases "map_of (svc_loggers svc) name")
  case None
  then show ?thesis
    using assms by (intro exI [of _ True]) (simp add: add_logger_def service_get_def Let_def logger_connect_def)
next
  case (Some q)
  obtain S' where "logger_delete l S = Inr S'" "\<forall>a. a \<notin> sink_stream ` set (sinks_of l) \<longrightarrow> S' a = S a"
    using logger_delete_ok [OF assms(3)] by blast
  then show ?thesis
    using Some assms
    by (intro exI [of _ False] exI [of _ svc] exI [of _ "L(p := None)"] exI [of _ S'])
      (simp add: add_logger_def service_get_def logger_free_def)
qed

theorem add_logger_registers_witness:
  "\<exists>svc svc' L' S'. service_new 0 64 16 = Inr svc \<and>
    add_logger ''console'' 8 svc ([8 \<mapsto> logger_new Info Retry], Map.empty) = Inr (True, svc', L', S') \<and>
    service_get ''console'' svc' = Inr 8"
proof -
  obtain svc where svc: "service_new 0 64 16 = Inr svc" "svc_loggers svc = []"
    by (simp add: service_new_def bus_new_def ptr_ring_new_def ring_new_def)
  have sole: "logger_sole Map.empty (logger_new Info Retry)"
    by (simp add: logger_sole_def logger_ok_def logger_new_def sinks_of_def)
  obtain fresh svc' L' S' where
    "add_logger ''console'' 8 svc ([8 \<mapsto> logger_new Info Retry], Map.empty) = Inr (fresh, svc', L', S')"
    "fresh \<longleftrightarrow> service_get ''console'' svc = Inl (LoggerNotFound (not_found_text ''console''))"
    "\<forall>n. service_get n svc' = (if fresh \<and> n = ''console'' then Inr 8 else service_get n svc)"
    using add_logger_registers [of 8 "[8 \<mapsto> logger_new Info Retry]" "logger_new Info Retry" Map.empty "''console''" svc] sole
    by auto
  then show ?thesis
    using svc by (intro exI [of _ svc] exI [of _ svc'] exI [of _ L'] exI [of _ S']) (simp add: service_get_def)
qed

end
