(* ===== verification/Log_Pending.thy ===== *)
theory Log_Pending
  imports Log_Bus
begin

text \<open>
  \<open>MessageBus::get_input_channel\<close> (\<^verbatim>\<open>src/logging/message_bus.cc\<close>) when several threads are in it. The
  ring of pending channels is an \<open>SPSCRingBuffer\<close>, for one thread that pushes; here its \<open>push\<close> is
  cut at its accesses, \<open>m_write_index\<close> being a plain variable that every thread reads and writes.
\<close>

section \<open>The accesses\<close>

text \<open>
  In the loop: before \<open>available()\<close>, before the store of the channel, before the read of
  \<open>m_write_index\<close> for its update, before the write of it; and after the loop.
\<close>

datatype offer_pc =
    OfferTest addr
  | OfferStore addr
  | OfferRead addr
  | OfferWrite addr u64
  | Offered addr

fun offer_go :: "offer_pc \<Rightarrow> addr ring \<Rightarrow> offer_pc \<times> addr ring" where
  "offer_go (OfferTest a) r =
     (if ring_available nullptr r then OfferStore a else OfferTest a, r)"
| "offer_go (OfferStore a) r =
     (OfferRead a, r\<lparr>m_buf := (m_buf r)[unat (m_write_index r) := a]\<rparr>)"
| "offer_go (OfferRead a) r = (OfferWrite a ((m_write_index r + 1) AND m_mask r), r)"
| "offer_go (OfferWrite a i) r = (Offered a, r\<lparr>m_write_index := i\<rparr>)"
| "offer_go (Offered a) r = (Offered a, r)"

text \<open>The threads in the list take one step each, in the order of the list.\<close>

fun offers :: "'t list \<Rightarrow> ('t \<Rightarrow> offer_pc) \<Rightarrow> bus \<Rightarrow> ('t \<Rightarrow> offer_pc) \<times> bus" where
  "offers [] p b = (p, b)"
| "offers (t # ts) p b =
     (let (k, pending) = offer_go (p t) (bus_pending b) in
      offers ts (p(t := k)) (b\<lparr>bus_pending := pending\<rparr>))"

text \<open>\<open>collect_pending_channels\<close>, at most \<open>n\<close> turns of its loop.\<close>

fun collect_pending_channels :: "nat \<Rightarrow> bus \<Rightarrow> bus" where
  "collect_pending_channels 0 b = b"
| "collect_pending_channels (Suc n) b =
     (let (more, b) = collect_one b in if more then collect_pending_channels n b else b)"

lemma collect_numeral:
  "collect_pending_channels (numeral k) b =
     (let (more, b) = collect_one b in if more then collect_pending_channels (pred_numeral k) b else b)"
  by (simp add: numeral_eq_Suc)

section \<open>One thread\<close>

text \<open>A thread that is alone in the loop pushes its channel in four steps, as \<open>offer_channel\<close> does.\<close>

lemma offers_alone:
  assumes "offer_channel a b = (True, b')" "p t = OfferTest a"
  shows "offers [t, t, t, t] p b = (p(t := Offered a), b')"
  using assms
  by (auto simp: offer_channel_def ring_push_def Let_def split: if_splits)

lemma collect_pending_all:
  assumes "ring_rep nullptr (bus_pending b) ps" "length ps < n"
  shows "bus_channels (collect_pending_channels n b) = bus_channels b @ ps"
  using assms
proof (induction n arbitrary: b ps)
  case (Suc n)
  show ?case
  proof (cases ps)
    case Nil
    then show ?thesis using Suc.prems by (simp add: collect_one_def ring_pop_nil)
  next
    case (Cons a ps')
    obtain r where r: "ring_pop nullptr (bus_pending b) = (a, r)" "ring_rep nullptr r ps'"
      using ring_pop_cons [of nullptr "bus_pending b" a ps'] Suc.prems(1) Cons by auto
    have "a \<noteq> nullptr" using Suc.prems(1) Cons by (auto simp: ring_rep_def)
    with r Suc.IH [of "b\<lparr>bus_pending := r, bus_channels := bus_channels b @ [a]\<rparr>" ps'] Suc.prems(2) Cons
    show ?thesis by (simp add: collect_one_def)
  qed
qed simp

section \<open>Two threads\<close>

definition offering :: "addr \<Rightarrow> addr \<Rightarrow> addr \<Rightarrow> nat \<Rightarrow> offer_pc" where
  "offering a1 a2 a3 = (\<lambda>t. OfferTest a3)(1 := OfferTest a1, 2 := OfferTest a2)"

lemma four_slots: "replicate 4 x = [x, x, x, x]"
  by (simp add: numeral_eq_Suc)



end
