(* ===== verification/Log_Console.thy ===== *)
theory Log_Console
  imports Log_Types
begin

text \<open>
  The macros \<open>NI_ERROR\<close>, \<open>NI_PERROR\<close>, \<open>NI_FATAL\<close> and \<open>NI_FATAL_ERRNO\<close> of
  \<^verbatim>\<open>include/ni/logging/logging.hh\<close>. \<open>fmt::print\<close> is not part of the repository: the text it makes of
  a format string and its arguments is a parameter, and that it throws is \<open>None\<close>.
\<close>

section \<open>The macros\<close>

datatype 'v fmt_arg = ArgString string | ArgInt int | ArgValue 'v

type_synonym 'v formatter = "string \<Rightarrow> 'v fmt_arg list \<Rightarrow> string option"

text \<open>What a terminal shows, and what is in the buffer of \<open>stdout\<close>; \<open>stderr\<close> has no buffer.\<close>

record console =
  screen :: string
  stdout_buf :: string

definition flush_stdout :: "console \<Rightarrow> console" where
  "flush_stdout c = c\<lparr>screen := screen c @ stdout_buf c, stdout_buf := []\<rparr>"

text \<open>How a macro ends: it goes on, the formatter throws, or the process exits with a status.\<close>

datatype macro_end = GoesOn | Throws | Exits int

definition print_stderr :: "'v formatter \<Rightarrow> string \<Rightarrow> 'v fmt_arg list \<Rightarrow> console \<Rightarrow> macro_end \<times> console" where
  "print_stderr F fmt vs c = (case F fmt vs of
     None \<Rightarrow> (Throws, c)
   | Some s \<Rightarrow> (GoesOn, c\<lparr>screen := screen c @ s\<rparr>))"

definition ESC :: string where "ESC = [CHR 0x1B]"

definition message_prefix :: "string \<Rightarrow> string" where
  "message_prefix word = ESC @ ''[31m'' @ word @ ESC @ ''[0m [{}:{}] ''"

definition ni_error :: "'v formatter \<Rightarrow> string \<Rightarrow> int \<Rightarrow> string \<Rightarrow> 'v fmt_arg list \<Rightarrow> console \<Rightarrow> macro_end \<times> console" where
  "ni_error F file line fmt vs c =
     print_stderr F (message_prefix ''ERROR'' @ fmt @ [CHR 0x0A]) (ArgString file # ArgInt line # vs)
       (flush_stdout c)"

text \<open>\<open>errno\<close> is read with the arguments, after \<open>fflush\<close>.\<close>

definition ni_perror ::
  "'v formatter \<Rightarrow> string \<Rightarrow> int \<Rightarrow> u32 \<Rightarrow> string \<Rightarrow> 'v fmt_arg list \<Rightarrow> console \<Rightarrow> (macro_end \<times> console) result" where
  "ni_perror F file line errno fmt vs c =
     bindE (ni_err_name errno) (\<lambda>name.
     Inr (print_stderr F (message_prefix ''ERROR'' @ fmt @ '': %s'' @ [CHR 0x0A])
       (ArgString file # ArgInt line # vs @ [ArgString name]) (flush_stdout c)))"

definition EXIT_FAILURE :: int where "EXIT_FAILURE = 1"

definition ni_fatal :: "'v formatter \<Rightarrow> string \<Rightarrow> int \<Rightarrow> string \<Rightarrow> 'v fmt_arg list \<Rightarrow> console \<Rightarrow> macro_end \<times> console" where
  "ni_fatal F file line fmt vs c =
     (case print_stderr F (message_prefix ''FATAL'' @ fmt @ [CHR 0x0A]) (ArgString file # ArgInt line # vs)
         (flush_stdout c) of
        (GoesOn, c) \<Rightarrow> (Exits EXIT_FAILURE, c)
      | r \<Rightarrow> r)"

definition ni_fatal_errno ::
  "'v formatter \<Rightarrow> string \<Rightarrow> int \<Rightarrow> u32 \<Rightarrow> string \<Rightarrow> 'v fmt_arg list \<Rightarrow> console \<Rightarrow> (macro_end \<times> console) result" where
  "ni_fatal_errno F file line errno fmt vs c =
     bindE (ni_err_name errno) (\<lambda>name.
     Inr (ni_fatal F file line (fmt @ '': {}'') (vs @ [ArgString name]) c))"

section \<open>Formatters\<close>

text \<open>
  Format strings made of plain text and placeholders \<open>{}\<close>. A formatter fills the placeholders
  with the arguments in order, ignores arguments that are left, and throws when there are too
  few; \<open>show_arg\<close> is its text of a single argument.
\<close>

datatype piece = Plain string | Field

fun render :: "piece list \<Rightarrow> string" where
  "render [] = []"
| "render (Plain s # ps) = s @ render ps"
| "render (Field # ps) = ''{}'' @ render ps"

fun fields :: "piece list \<Rightarrow> nat" where
  "fields [] = 0"
| "fields (Plain s # ps) = fields ps"
| "fields (Field # ps) = Suc (fields ps)"

definition plain :: "piece list \<Rightarrow> bool" where
  "plain ps = list_all (\<lambda>p. case p of Plain s \<Rightarrow> list_all (\<lambda>x. x \<noteq> CHR ''{'' \<and> x \<noteq> CHR ''}'') s | Field \<Rightarrow> True) ps"

fun fill :: "('v fmt_arg \<Rightarrow> string) \<Rightarrow> piece list \<Rightarrow> 'v fmt_arg list \<Rightarrow> string" where
  "fill show_arg (Plain s # ps) vs = s @ fill show_arg ps vs"
| "fill show_arg (Field # ps) (v # vs) = show_arg v @ fill show_arg ps vs"
| "fill show_arg _ _ = []"

definition fills_fields :: "'v formatter \<Rightarrow> ('v fmt_arg \<Rightarrow> string) \<Rightarrow> bool" where
  "fills_fields F show_arg \<longleftrightarrow>
     (\<forall>ps vs. plain ps \<longrightarrow>
        F (render ps) vs = (if fields ps \<le> length vs then Some (fill show_arg ps vs) else None)) \<and>
     (\<forall>s. show_arg (ArgString s) = s)"

lemma render_append [simp]: "render (ps @ qs) = render ps @ render qs"
  by (induction ps rule: render.induct) simp_all

lemma fields_append [simp]: "fields (ps @ qs) = fields ps + fields qs"
  by (induction ps rule: fields.induct) simp_all

lemma plain_append [simp]: "plain (ps @ qs) \<longleftrightarrow> plain ps \<and> plain qs"
  by (simp add: plain_def)

lemma fill_append:
  "fields ps = length us \<Longrightarrow> fill show_arg (ps @ qs) (us @ vs) = fill show_arg ps us @ fill show_arg qs vs"
  by (induction show_arg ps us rule: fill.induct) auto

lemma fill_plain_end:
  assumes "fields ps \<le> length us"
  shows "fill show_arg (ps @ [Plain s]) (us @ vs) = fill show_arg ps us @ s"
  using assms by (induction show_arg ps us rule: fill.induct) (auto elim: fields.elims)

section \<open>What the macros print\<close>

definition header_pieces :: "string \<Rightarrow> piece list" where
  "header_pieces word = [Plain (ESC @ ''[31m'' @ word @ ESC @ ''[0m [''), Field, Plain '':'', Field, Plain ''] '']"

lemma header_pieces_simps [simp]:
  "render (header_pieces word) = message_prefix word" "fields (header_pieces word) = 2"
  by (simp_all add: header_pieces_def message_prefix_def numeral_eq_Suc)

lemma plain_header: "plain (header_pieces ''ERROR'')" "plain (header_pieces ''FATAL'')"
  by (simp_all add: header_pieces_def plain_def ESC_def)

text \<open>The buffer of \<open>stdout\<close> and then a line on the screen.\<close>

definition shown :: "console \<Rightarrow> string \<Rightarrow> console" where
  "shown c line = c\<lparr>screen := screen c @ stdout_buf c @ line, stdout_buf := []\<rparr>"

definition line_of :: "('v fmt_arg \<Rightarrow> string) \<Rightarrow> string \<Rightarrow> string \<Rightarrow> int \<Rightarrow> string \<Rightarrow> string" where
  "line_of show_arg word file line msg =
     ESC @ ''[31m'' @ word @ ESC @ ''[0m ['' @ file @ '':'' @ show_arg (ArgInt line) @ ''] '' @ msg @ [CHR 0x0A]"

lemma print_line:
  assumes F: "fills_fields F show_arg" and ps: "plain ps" "plain (header_pieces word)"
  shows "print_stderr F (message_prefix word @ render ps @ [CHR 0x0A]) (ArgString file # ArgInt line # vs)
      (flush_stdout c) =
    (if fields ps \<le> length vs then (GoesOn, shown c (line_of show_arg word file line (fill show_arg ps vs)))
     else (Throws, flush_stdout c))"
proof -
  let ?ps = "header_pieces word @ ps @ [Plain [CHR 0x0A]]" and ?vs = "ArgString file # ArgInt line # vs"
  have "plain [Plain [CHR 0x0A]]" by (simp add: plain_def)
  then have "F (render ?ps) ?vs = (if fields ?ps \<le> length ?vs then Some (fill show_arg ?ps ?vs) else None)"
    using F ps unfolding fills_fields_def by (simp del: render_append fields_append)
  moreover have "fill show_arg ?ps ?vs = line_of show_arg word file line (fill show_arg ps vs)"
    if "fields ps \<le> length vs"
  proof -
    have "show_arg (ArgString file) = file" using F by (simp add: fills_fields_def)
    moreover have "fill show_arg (ps @ [Plain [CHR 0x0A]]) vs = fill show_arg ps vs @ [CHR 0x0A]"
      using fill_plain_end [OF that, of show_arg _ "[]"] by simp
    ultimately show ?thesis by (simp add: header_pieces_def line_of_def)
  qed
  ultimately show ?thesis
    by (simp add: print_stderr_def flush_stdout_def shown_def)
qed


text \<open>A formatter that knows the placeholder \<open>{}\<close> only.\<close>

fun braces :: "('v fmt_arg \<Rightarrow> string) \<Rightarrow> 'v formatter" where
  "braces show_arg (x # y # s) vs =
     (if x = CHR ''{'' \<and> y = CHR ''}'' then
        (case vs of [] \<Rightarrow> None | v # vs \<Rightarrow> map_option ((@) (show_arg v)) (braces show_arg s vs))
      else map_option ((#) x) (braces show_arg (y # s) vs))"
| "braces show_arg s vs = Some s"

lemma braces_plain:
  "list_all (\<lambda>x. x \<noteq> CHR ''{'' \<and> x \<noteq> CHR ''}'') s \<Longrightarrow>
    braces show_arg (s @ t) vs = map_option ((@) s) (braces show_arg t vs)"
proof (induction s)
  case (Cons x s)
  then show ?case
    by (cases "s @ t") (auto simp: option.map_comp comp_def)
next
  case Nil
  then show ?case by (cases "braces show_arg t vs") simp_all
qed

lemma braces_fills: "(\<And>s. show_arg (ArgString s) = s) \<Longrightarrow> fills_fields (braces show_arg) show_arg"
proof -
  have "plain ps \<Longrightarrow> braces show_arg (render ps) vs =
      (if fields ps \<le> length vs then Some (fill show_arg ps vs) else None)" for ps vs
  proof (induction ps arbitrary: vs rule: render.induct)
    case (2 s ps)
    then show ?case by (simp add: plain_def braces_plain)
  next
    case (3 ps)
    then show ?case by (cases vs) (auto simp: plain_def)
  qed simp
  then show "(\<And>s. show_arg (ArgString s) = s) \<Longrightarrow> ?thesis" by (simp add: fills_fields_def)
qed

definition show_digit :: "nat fmt_arg \<Rightarrow> string" where
  "show_digit v = (case v of ArgString s \<Rightarrow> s | ArgInt i \<Rightarrow> [''0123456789'' ! nat (i mod 10)]
     | ArgValue n \<Rightarrow> [''0123456789'' ! (n mod 10)])"


end
