(* ===== verification/Spec2Isabelle.thy ===== *)
theory Spec2Isabelle
  imports Tagged_Ptr Ring_Buffer Ring_Concurrent MS_Queue_Spec MS_Progress MS_Protocol List_Concurrent Buffer_List
    Dist_Races Dist_Lock Static_Distributed Jump_Hash Multi_Linear_Hash Spin_Lock Scope_Guard
    Log_Capture Log_Stop Log_Service Log_Pending Log_Console
begin

text \<open>
  A verification development for libni, a C++ library of concurrent queues, hashes, a spin lock,
  scope guards and an asynchronous logger (\<^verbatim>\<open>src/include/ni\<close> and \<^verbatim>\<open>src/src\<close>; file names below are
  relative to these). The definitions are executable translations of the code, the witnesses of
  the theorems run them.

  \<^bold>\<open>Conventions\<close> (\<open>Prelude\<close>). \<open>size_t\<close>, \<open>uint64_t\<close> and pointers are \<open>64 word\<close>, 0 is the null
  pointer, \<open>+\<close> wraps. An operation that can end other than by returning gives a \<open>result\<close>, a sum
  of an \<open>err\<close> and a value: a failed assertion, an exception, the end of the process, and, where the
  C++ would be undefined, an access to no object (\<open>BadDeref\<close>) or outside an array
  (\<open>BadIndex\<close>). Theorems that an operation returns \<open>Inr\<close> therefore state memory safety, too.
  What is not under \<^verbatim>\<open>src/\<close> (allocation, system calls, random generators, text formatting) is an
  argument; atomics are sequentially consistent.

  \<^bold>\<open>Tagged pointers\<close> (\<open>Tagged_Ptr\<close>, \<^verbatim>\<open>tagged_ptr.hh\<close>): \<open>TaggedPtr\<close>, \<open>DoubleTagPtr\<close> and
  \<open>AtomicTaggedPtr\<close> at their bits: round trips of packing, what the setters keep, and how often a
  tag must be bumped before a stale compare-exchange succeeds.

  \<^bold>\<open>Queues.\<close> \<open>Queue_Interface\<close> states the contract of a bounded FIFO queue with a reserved
  empty value as the locale \<open>bounded_queue\<close>. \<open>Ring_Buffer\<close> (\<^verbatim>\<open>cds/spsc_ring_buffer.hh\<close>) models the
  ring, shows that it represents a list (\<open>ring_rep\<close>) and interprets the locale; the lists and the
  logger's channels are its clients. \<open>Ring_Concurrent\<close> cuts push and pop at their accesses to
  shared memory and proves that every interleaving of a producer and a consumer is linearizable,
  first in first out and wait-free. \<open>Node_Heap\<close> has the heaps and chains of nodes shared by
  \<open>Linked_List\<close> (\<^verbatim>\<open>cds/spsc_linked_list.hh\<close>), \<open>Buffer_List\<close> (\<^verbatim>\<open>cds/spsc_buffer_list.hh\<close>) and
  \<open>MS_Queue\<close> (\<^verbatim>\<open>cds/ms_queue.hh\<close>, \<^verbatim>\<open>cds/queue.hh\<close>). The two lists are FIFO queues until a cached
  node or buffer is used again, and theorems show what is lost then. \<open>List_Concurrent\<close> runs
  the two threads of the linked list in any interleaving of their accesses and proves the same
  of them. \<open>MS_Queue_Spec\<close> proves that
  the Michael-Scott queue, called by one thread at a time, refines a FIFO queue for any pattern of
  spurious failures (the fuel of its loops is the number of these failures plus the turns of help
  and success, so that it never runs out), that the \<open>try\<close> operations report what they did, and that
  the destructor frees every node. \<open>MS_Concurrent\<close> cuts the six operations of the same queue at
  their accesses to shared memory and lets any number of threads run them in any interleaving,
  under a specification of FIFO runs with a linearization point in each call. \<open>MS_Linear\<close> has the
  invariant, which describes each thread's reads by the trail of nodes there have ever been.
  \<open>MS_Reclaim\<close> proves linearizability when nodes are not freed, and that freeing them, as the code
  does, can only add accesses to freed nodes, which a run then shows to happen. \<open>MS_Progress\<close>
  proves that the queue is lock-free, by a measure that every step of every thread lowers unless
  some call takes effect, and \<open>MS_Protocol\<close> that calls and returns alternate and fit each other.

  \<^bold>\<open>Distributed container\<close> (\<^verbatim>\<open>cds/distributed/dynamic.hh\<close>). \<open>Backend_Interface\<close> states what the
  container uses of its backend as the locale \<open>backend\<close>, and with the counting of elements that \<open>get\<close>
  relies on as \<open>versioned_backend\<close>; \<open>MS_Queue_Spec\<close> interprets both. \<open>Distributed\<close> has the
  operations as whole calls, \<open>Distributed_Spec\<close> the invariant and the operations' effect on it,
  \<open>Distributed_Run\<close> the specification of whole runs: with the Michael-Scott queue as backend,
  calls of any threads one after the other are locally linearizable, \<open>put\<close> refuses only when nothing
  can be removed, and the destructor frees everything. \<open>Dist_Concurrent\<close> cuts the operations at
  their statements, for any number of threads; a call of the backend is one step. \<open>Dist_Lock\<close> proves
  what \<open>m_lock\<close> gives: while threads only put, binding backends and removing dead ones in any
  interleaving, nothing is lost or misplaced and no deleted node is used. \<open>Dist_Linear\<close> proves the
  same of \<open>put\<close> and \<open>get\<close> on backends that are bound already, and that a \<open>get\<close> that finds nothing saw
  all backends empty at one moment. \<open>Dist_Races\<close> has the runs that break the code outside these
  limits: \<open>get\<close> or \<open>deregister_thread\<close> with a thread that binds or removes a backend, and a \<open>push\<close>
  whose tail stays behind. \<open>Static_Distributed\<close> is \<^verbatim>\<open>cds/distributed/static.hh\<close>, whose bodies are empty.

  \<^bold>\<open>Hashes.\<close> \<open>Jump_Hash\<close> (\<^verbatim>\<open>hash/jump_consistent_hash.cc\<close>) models the two roundings of its
  doubles exactly (all values are at least 1, so they are multiples of \<open>2 ^ -52\<close>); the hash is in
  range and moves keys only to a bucket that is added. \<open>Multi_Linear_Hash\<close>
  (\<^verbatim>\<open>hash/multi_linear_hash.hh\<close>): both loops of the hash give one linear form of the bytes, and the
  family is strongly universal, counted over all tables of random numbers.

  \<^bold>\<open>Synchronisation and scopes.\<close> \<open>Spin_Lock\<close> (\<^verbatim>\<open>sync/spinlock.hh\<close>, \<^verbatim>\<open>sync/sleep.hh\<close>): mutual
  exclusion by an invariant of the reachable states of any number of threads, progress, and the
  back-off. \<open>Scope_Guard\<close> (\<^verbatim>\<open>scope_guard.hh\<close>, \<^verbatim>\<open>exception.cc\<close>): a guarded scope calls its function
  exactly when the exit condition is met, however often the guard moves.

  \<^bold>\<open>Logging.\<close> \<open>Log_Types\<close> (\<^verbatim>\<open>logging/common.hh\<close>, \<^verbatim>\<open>logging/common.cc\<close>,
  \<^verbatim>\<open>logging/log_message.hh\<close>), \<open>Log_Sink\<close> (\<^verbatim>\<open>logging/sink.cc\<close> and the worker's side of
  \<^verbatim>\<open>logging/logger.cc\<close>): saving and flushing writes to every sink exactly what it accepts.
  \<open>Log_Capture\<close> (\<^verbatim>\<open>logging/capture.hh\<close>, the macros of \<^verbatim>\<open>logging/logging.hh\<close>): a logging statement
  sends one message or none. \<open>Log_Bus\<close> (\<^verbatim>\<open>logging/message_bus.cc\<close>, \<^verbatim>\<open>futex.hh\<close>) has the channels,
  on the ring buffer, and the futex; \<open>Log_Run\<close> (\<open>Logger::log\<close>, \<^verbatim>\<open>logging/log_worker.cc\<close>) runs
  logging threads, the worker and the thread that starts and stops it in any interleaving:
  \<open>log_next\<close> is one step, chosen by a schedule, and \<open>log_reach\<close> the states all schedules reach.
  \<open>Log_Delivery\<close> proves the invariants (each channel has one writer; what is sent is what is saved
  followed by what is queued), \<open>Log_Stop\<close> that the worker drains the channels if stopping comes
  last, and, by two runs, that stopping can lose a message and can hang. In \<open>Log_Run\<close> a push to the
  ring of pending channels is one step; \<open>Log_Pending\<close> cuts it and shows what is lost when two
  threads log for the first time at once. \<open>Log_Service\<close> (\<^verbatim>\<open>logging/log_service.cc\<close>,
  \<^verbatim>\<open>logging/logging.cc\<close>) registers loggers by name. \<open>Log_Console\<close> has the macros \<open>NI_ERROR\<close>,
  \<open>NI_PERROR\<close>, \<open>NI_FATAL\<close> and \<open>NI_FATAL_ERRNO\<close> over any formatter.

  \<^bold>\<open>Bounds.\<close> Loops are total functions where their recursion decreases. Elsewhere: the
  loops of the Michael-Scott queue and of the distributed container take fuel, with theorems that
  give an amount for which \<open>OutOfFuel\<close> does not occur; loops that wait for another thread (the spin
  lock, \<open>Logger::log\<close>, the worker) are steps of a relation, of which each turn is one.

  \<^bold>\<open>Not modelled.\<close> Weak memory orders: interleavings are sequentially consistent, although the
  queues use relaxed and acquire-release accesses and the distributed container reads plain
  variables without its lock. Interleavings inside a call of the backend of the distributed
  container. Several message buses in one process. Failures of writes to streams and of thread
  creation. The memory behind arrays that hold no objects of their own (the rings' slots and the
  segment are lists; their destructors release memory of \<open>posix_memalign\<close> with \<open>delete\<close>).
  \<^verbatim>\<open>optional.hh\<close>, \<^verbatim>\<open>format.hh\<close>, \<^verbatim>\<open>random.hh\<close>, \<^verbatim>\<open>string_view.hh\<close>, \<^verbatim>\<open>mpl/unit.hh\<close>,
  \<^verbatim>\<open>preprocessor.hh\<close> and \<^verbatim>\<open>cache_locality.hh\<close> are aliases, an empty type and macros without
  behaviour of their own. \<open>is_lock_free\<close> of \<^verbatim>\<open>tagged_ptr.hh\<close> asks the platform.
\<close>

end
